(* ===== verification/Prelude.thy ===== *)
theory Prelude
  imports Main "HOL-Library.Word" "HOL-Library.Multiset" "HOL-Library.Signed_Division"
begin

text \<open>
  Shared ground of the development: the machine types of the build configuration checked in as
  \<^verbatim>\<open>include/my_config.h\<close> (\<open>SIZEOF_LONG\<close>, \<open>SIZEOF_SIZE_T\<close> and \<open>SIZEOF_INT\<close> are 4,
  \<open>SIZEOF_LONG_LONG\<close> is 8), the theorem collections the component proofs are driven by, and
  generic facts on lists, words and natural numbers.
\<close>

unbundle bit_operations_syntax

subsection \<open>Machine types\<close>

type_synonym uchar = "8 word"
type_synonym uint16 = "16 word"
type_synonym uint32 = "32 word"
type_synonym ulong = "32 word"
type_synonym ulonglong = "64 word"
type_synonym bytes = "uchar list"

subsection \<open>Theorem collections\<close>

named_theorems byte_simps \<open>the value of a byte cut out of a wider word\<close>
named_theorems korr_simps \<open>the little-endian readers as the value of the bytes they read\<close>
named_theorems store_simps \<open>length and value of the bytes a little-endian store writes\<close>

subsection \<open>Natural numbers\<close>

lemma mod_digit_split: "(n::nat) mod b + b * (n div b mod m) = n mod (b * m)"
  by (simp add: mod_mult2_eq)

lemma div_digit_bound: "(n::nat) < b * m \<Longrightarrow> 0 < b \<Longrightarrow> n div b < m"
  by (simp add: less_mult_imp_div_less mult.commute)

lemma digit_mod: "(d::nat) < b \<Longrightarrow> (d + b * n) mod b = d"
  by (simp only: mod_mult_self2 mod_less)

lemma digit_div: "(d::nat) < b \<Longrightarrow> (d + b * n) div b = n"
  by simp

subsection \<open>Truncating division\<close>

lemma int_sdiv: "int a sdiv int b = int (a div b)"
proof -
  have "a div b = 0 \<or> 0 < a \<and> 0 < b" by (cases "a = 0"; cases "b = 0") auto
  then have "sgn (int a) * sgn (int b) * int (a div b) = int (a div b)"
    by (elim disjE conjE) (simp_all only: sgn_pos of_nat_0_less_iff mult_1_left of_nat_0 mult_zero_right)
  then show ?thesis by (simp only: signed_divide_int_def abs_of_nat zdiv_int)
qed

lemma int_smod: "int a smod int b = int (a mod b)"
  by (cases "a = 0") (simp_all add: smod_int_alt_def zmod_int)

lemma sdiv_nonpos: "(a :: int) \<le> 0 \<Longrightarrow> 0 < b \<Longrightarrow> a sdiv b \<le> 0"
  by (cases "a = 0") (simp_all add: signed_divide_int_def pos_imp_zdiv_nonneg_iff)

subsection \<open>Arithmetic in 32 bits\<close>

text \<open>
  The value of an unsigned and of a signed computation in 32 bits from its exact value. Signed overflow is taken to
  wrap around.
\<close>

definition uint_wrap :: "int \<Rightarrow> nat" where "uint_wrap n = nat (n mod 2 ^ 32)"
definition long_wrap :: "int \<Rightarrow> int" where "long_wrap n = signed_take_bit 31 n"

lemma uint_wrap_int: "n < 2 ^ 32 \<Longrightarrow> uint_wrap (int n) = n"
  by (simp add: uint_wrap_def)

lemma long_wrap_small: "- 2147483648 \<le> n \<Longrightarrow> n < 2147483648 \<Longrightarrow> long_wrap n = n"
  by (simp add: long_wrap_def signed_take_bit_int_eq_self)

lemma long_wrap_less: "long_wrap n < 2147483648"
  using signed_take_bit_int_less_exp [of 31 n] by (simp add: long_wrap_def)

lemma long_wrap_negative: "2147483648 \<le> n \<Longrightarrow> n < 4294967296 \<Longrightarrow> long_wrap n = n - 4294967296"
  by (simp add: long_wrap_def signed_take_bit_eq_take_bit_shift take_bit_eq_mod)
    (simp add: mod_pos_geq)

subsection \<open>Lists\<close>

lemma take_split: "k \<le> m \<Longrightarrow> take m xs = take k xs @ take (m - k) (drop k xs)"
  by (metis le_add_diff_inverse take_add)

lemma take_eq_mono: "take m xs = take m ys \<Longrightarrow> n \<le> m \<Longrightarrow> take n xs = take n ys"
  by (metis min.absorb1 take_take)

subsection \<open>Bytes of a word\<close>

lemma unat_drop_bit_div [byte_simps]: "unat (drop_bit k (w :: 'a::len word)) = unat w div 2 ^ k"
  by (simp only: unsigned_drop_bit_eq drop_bit_eq_div [where 'a = nat]) (simp add: take_bit_nat_eq_self)

lemma unat_ucast_mod [byte_simps]:
  "unat (ucast (w :: 'a::len word) :: 'b::len word) = unat w mod 2 ^ LENGTH('b)"
  by (simp add: unsigned_ucast_eq take_bit_eq_mod)

lemma unat_uchar_less [simp]: "unat (b :: uchar) < 256"
  using unsigned_less [of b, where 'a = nat] by simp

lemma unat_mask_64: "unat (w :: ulonglong) < 18446744073709551616"
  using unsigned_less [of w, where 'a = nat] by simp

lemma unat_mask_32: "unat (w :: uint32) < 4294967296"
  using unsigned_less [of w, where 'a = nat] by simp

lemma of_nat_unat_id: "of_nat (unat w) = (w :: 'a::len word)"
  by simp

lemma unat_of_nat_small: "n < 2 ^ LENGTH('a) \<Longrightarrow> unat (of_nat n :: 'a::len word) = n"
  by (simp add: unat_of_nat)

lemma unat_and_mask: "unat (w AND mask k :: 'a::len word) = unat w mod 2 ^ k"
  by (simp only: take_bit_eq_mask [symmetric] unsigned_take_bit_eq) (simp only: take_bit_eq_mod)

lemma unat_and_63 [byte_simps]: "unat (w AND 0x3f :: uint32) = unat w mod 64"
  using unat_and_mask [of w 6] by (simp add: mask_eq_exp_minus_1)

lemma unat_and_255 [byte_simps]: "unat (w AND 0xff :: 'a::len word) = unat w mod 256"
  using unat_and_mask [of w 8] by (simp add: mask_eq_exp_minus_1)

lemma uchar_of_nat_mod: "(of_nat (n mod 256) :: uchar) = of_nat n"
  by (simp add: word_of_nat_eq_iff take_bit_eq_mod)

lemma uchar_of_nat_eq: "n mod 256 = unat b \<Longrightarrow> of_nat n = (b :: uchar)"
  by (metis uchar_of_nat_mod of_nat_unat_id)

lemma ucast_ucast_small:
  "unat n < 2 ^ LENGTH('b) \<Longrightarrow> (ucast (ucast (n :: 'a::len word) :: 'b::len word) :: 'a word) = n"
  by (rule word_unat_eq_iff [THEN iffD2]) (simp add: unsigned_ucast_eq unsigned_take_bit_eq take_bit_nat_eq_self)

lemma ucast_of_nat_unat: "(ucast (w :: 'a::len word) :: 'b::len word) = of_nat (unat w)"
  by simp

lemma ucast_drop_bit_uchar:
  "(ucast (drop_bit k (w :: 'a::len word)) :: uchar) = of_nat (unat w div 2 ^ k)"
  by (simp only: ucast_of_nat_unat unat_drop_bit_div)

subsection \<open>The little-endian value of a byte string\<close>

fun le_nat :: "bytes \<Rightarrow> nat" where
  "le_nat [] = 0"
| "le_nat (b # bs) = unat b + 256 * le_nat bs"

lemma le_nat_append: "le_nat (xs @ ys) = le_nat xs + 256 ^ length xs * le_nat ys"
  by (induction xs) (simp_all add: algebra_simps)

lemma digit_less: "(d::nat) < b \<Longrightarrow> n < m \<Longrightarrow> d + b * n < b * m"
proof -
  assume "d < b" "n < m"
  then have "d + b * n < b * Suc n" by simp
  also have "b * Suc n \<le> b * m" using \<open>n < m\<close> by (intro mult_le_mono2) simp
  finally show ?thesis .
qed

lemma le_nat_bound: "le_nat bs < 256 ^ length bs"
  by (induction bs) (simp_all add: digit_less)

text \<open>The bytes of \<open>n\<close>, low byte first: the reference encoding of every store below.\<close>

fun le_bytes :: "nat \<Rightarrow> nat \<Rightarrow> bytes" where
  "le_bytes 0 n = []"
| "le_bytes (Suc k) n = of_nat (n mod 256) # le_bytes k (n div 256)"

lemma length_le_bytes [simp]: "length (le_bytes k n) = k"
  by (induction k arbitrary: n) simp_all

lemma le_bytes_numeral:
  "le_bytes (numeral k) n = of_nat (n mod 256) # le_bytes (pred_numeral k) (n div 256)"
  by (simp only: numeral_eq_Suc [of k] le_bytes.simps)

lemma le_bytes_1: "le_bytes (Suc 0) n = [of_nat (n mod 256)]"
  by simp

lemma le_nat_le_bytes: "le_nat (le_bytes k n) = n mod 256 ^ k"
proof (induction k arbitrary: n)
  case (Suc k)
  have "unat (of_nat (n mod 256) :: uchar) = n mod 256"
    by (simp add: unat_of_nat)
  with Suc show ?case by (simp add: mod_digit_split)
qed simp

lemma take_le_bytes: "j \<le> k \<Longrightarrow> take j (le_bytes k n) = le_bytes j n"
proof (induction j arbitrary: k n)
  case (Suc j)
  then show ?case by (cases k) simp_all
qed simp

lemma le_bytes_le_nat: "le_bytes (length bs) (le_nat bs) = bs"
proof (induction bs)
  case (Cons b bs)
  have "(unat b + 256 * le_nat bs) mod 256 = unat b" "(unat b + 256 * le_nat bs) div 256 = le_nat bs"
    by (simp_all add: div_add1_eq)
  with Cons show ?case by simp
qed simp

lemma le_nat_inject: "length xs = length ys \<Longrightarrow> le_nat xs = le_nat ys \<Longrightarrow> xs = ys"
  by (metis le_bytes_le_nat)

lemma le_bytes_mod: "n \<le> m \<Longrightarrow> le_bytes n (x mod 256 ^ m) = le_bytes n x"
  by (rule le_nat_inject) (simp_all add: le_nat_le_bytes mod_mod_cancel le_imp_power_dvd)

end
