(* ===== verification/Bytes.thy ===== *)
theory Bytes
  imports Prelude
begin

text \<open>
  The machine-independent integer formats of \<^verbatim>\<open>include/my_global.h\<close> (low byte first), in the
  portable variant of the macros. A reader takes the bytes from its pointer to the end of the
  buffer and is \<^const>\<open>None\<close> where the C macro would read past that end; a store returns the
  bytes it writes. The lemmas give each macro its value, and every store/reader pair its round
  trip.
\<close>

subsection \<open>Readers\<close>

fun uint2korr :: "bytes \<Rightarrow> uint16 option" where
  "uint2korr (a0 # a1 # _) = Some (ucast a0 + push_bit 8 (ucast a1))"
| "uint2korr _ = None"

fun uint3korr :: "bytes \<Rightarrow> uint32 option" where
  "uint3korr (a0 # a1 # a2 # _) = Some (ucast a0 + push_bit 8 (ucast a1) + push_bit 16 (ucast a2))"
| "uint3korr _ = None"

fun uint4korr :: "bytes \<Rightarrow> uint32 option" where
  "uint4korr (a0 # a1 # a2 # a3 # _) =
     Some (ucast a0 + push_bit 8 (ucast a1) + push_bit 16 (ucast a2) + push_bit 24 (ucast a3))"
| "uint4korr _ = None"

fun uint5korr :: "bytes \<Rightarrow> ulonglong option" where
  "uint5korr (a0 # a1 # a2 # a3 # a4 # _) =
     Some (ucast (ucast a0 + push_bit 8 (ucast a1) + push_bit 16 (ucast a2) + push_bit 24 (ucast a3) :: uint32)
           + push_bit 32 (ucast a4))"
| "uint5korr _ = None"

fun uint6korr :: "bytes \<Rightarrow> ulonglong option" where
  "uint6korr (a0 # a1 # a2 # a3 # a4 # a5 # _) =
     Some (ucast (ucast a0 + push_bit 8 (ucast a1) + push_bit 16 (ucast a2) + push_bit 24 (ucast a3) :: uint32)
           + push_bit 32 (ucast a4) + push_bit 40 (ucast a5))"
| "uint6korr _ = None"

fun uint8korr :: "bytes \<Rightarrow> ulonglong option" where
  "uint8korr (a0 # a1 # a2 # a3 # a4 # a5 # a6 # a7 # _) =
     Some (ucast (ucast a0 + push_bit 8 (ucast a1) + push_bit 16 (ucast a2) + push_bit 24 (ucast a3) :: uint32)
           + push_bit 32 (ucast (ucast a4 + push_bit 8 (ucast a5) + push_bit 16 (ucast a6)
                                 + push_bit 24 (ucast a7) :: uint32)))"
| "uint8korr _ = None"

text \<open>The signed readers return the bits of the signed result; \<^const>\<open>sint\<close> reads them.\<close>

fun sint2korr :: "bytes \<Rightarrow> uint16 option" where
  "sint2korr (a0 # a1 # _) = Some (ucast a0 + push_bit 8 (ucast a1))"
| "sint2korr _ = None"

fun sint3korr :: "bytes \<Rightarrow> uint32 option" where
  "sint3korr (a0 # a1 # a2 # _) =
     Some (if a2 AND 128 \<noteq> 0
           then push_bit 24 255 OR push_bit 16 (ucast a2) OR push_bit 8 (ucast a1) OR ucast a0
           else push_bit 16 (ucast a2) OR push_bit 8 (ucast a1) OR ucast a0)"
| "sint3korr _ = None"

fun sint4korr :: "bytes \<Rightarrow> uint32 option" where
  "sint4korr (a0 # a1 # a2 # a3 # _) =
     Some (ucast a0 + push_bit 8 (ucast a1) + push_bit 16 (ucast a2) + push_bit 24 (ucast a3))"
| "sint4korr _ = None"

definition sint8korr :: "bytes \<Rightarrow> ulonglong option" where
  "sint8korr = uint8korr"

fun int4net :: "bytes \<Rightarrow> uint32 option" where
  "int4net (a0 # a1 # a2 # a3 # _) =
     Some (ucast a3 OR push_bit 8 (ucast a2) OR push_bit 16 (ucast a1) OR push_bit 24 (ucast a0))"
| "int4net _ = None"

subsection \<open>Stores\<close>

definition int2store :: "uint32 \<Rightarrow> bytes" where
  "int2store A = [ucast A, ucast (drop_bit 8 A)]"

definition int3store :: "uint32 \<Rightarrow> bytes" where
  "int3store A = [ucast A, ucast (drop_bit 8 A), ucast (drop_bit 16 A)]"

definition int4store :: "uint32 \<Rightarrow> bytes" where
  "int4store A = [ucast A, ucast (drop_bit 8 A), ucast (drop_bit 16 A), ucast (drop_bit 24 A)]"

definition int5store :: "ulonglong \<Rightarrow> bytes" where
  "int5store A = [ucast A, ucast (drop_bit 8 A), ucast (drop_bit 16 A), ucast (drop_bit 24 A),
                  ucast (drop_bit 32 A)]"

definition int6store :: "ulonglong \<Rightarrow> bytes" where
  "int6store A = [ucast A, ucast (drop_bit 8 A), ucast (drop_bit 16 A), ucast (drop_bit 24 A),
                  ucast (drop_bit 32 A), ucast (drop_bit 40 A)]"

definition int8store :: "ulonglong \<Rightarrow> bytes" where
  "int8store A =
     (let def_temp = ucast A; def_temp2 = ucast (drop_bit 32 A)
      in int4store def_temp @ int4store def_temp2)"

subsection \<open>Values\<close>

lemma uint2korr_value [korr_simps]:
  "uint2korr bs = (if length bs < 2 then None else Some (of_nat (le_nat (take 2 bs))))"
  by (cases bs rule: uint2korr.cases) (auto simp: push_bit_eq_mult algebra_simps)

lemma uint3korr_value [korr_simps]:
  "uint3korr bs = (if length bs < 3 then None else Some (of_nat (le_nat (take 3 bs))))"
  by (cases bs rule: uint3korr.cases) (auto simp: push_bit_eq_mult algebra_simps)

lemma uint4korr_value [korr_simps]:
  "uint4korr bs = (if length bs < 4 then None else Some (of_nat (le_nat (take 4 bs))))"
  by (cases bs rule: uint4korr.cases) (auto simp: push_bit_eq_mult algebra_simps)

lemma ucast_of_nat_small: "n < 2 ^ LENGTH('a) \<Longrightarrow> (ucast (of_nat n :: 'a::len word) :: 'b::len word) = of_nat n"
  by (simp add: unsigned_of_nat take_bit_nat_eq_self)

lemma le_nat4: "le_nat [a0, a1, a2, a3] < 4294967296"
  using le_nat_bound [of "[a0, a1, a2, a3]"] by simp

lemma ucast_quad:
  "(ucast (ucast a0 + push_bit 8 (ucast a1) + push_bit 16 (ucast a2) + push_bit 24 (ucast a3) :: uint32)
     :: ulonglong) = of_nat (le_nat [a0, a1, a2, a3])"
proof -
  have "(ucast a0 + push_bit 8 (ucast a1) + push_bit 16 (ucast a2) + push_bit 24 (ucast a3) :: uint32)
          = of_nat (le_nat [a0, a1, a2, a3])"
    by (simp add: push_bit_eq_mult algebra_simps)
  then show ?thesis using le_nat4 [of a0 a1 a2 a3] by (simp only:) (rule ucast_of_nat_small, simp)
qed

lemma uint5korr_value [korr_simps]:
  "uint5korr bs = (if length bs < 5 then None else Some (of_nat (le_nat (take 5 bs))))"
  by (cases bs rule: uint5korr.cases)
     (simp_all add: ucast_quad, simp_all add: push_bit_eq_mult algebra_simps)

lemma uint6korr_value [korr_simps]:
  "uint6korr bs = (if length bs < 6 then None else Some (of_nat (le_nat (take 6 bs))))"
  by (cases bs rule: uint6korr.cases)
     (simp_all add: ucast_quad, simp_all add: push_bit_eq_mult algebra_simps)

lemma uint8korr_value [korr_simps]:
  "uint8korr bs = (if length bs < 8 then None else Some (of_nat (le_nat (take 8 bs))))"
  by (cases bs rule: uint8korr.cases)
     (simp_all add: ucast_quad, simp_all add: push_bit_eq_mult algebra_simps)

text \<open>Every store writes the low bytes of its argument.\<close>

lemmas le_bytes_unfold =
  le_bytes_numeral uchar_of_nat_mod ucast_drop_bit_uchar div_mult2_eq [symmetric]

lemma int2store_le_bytes [store_simps]: "int2store A = le_bytes 2 (unat A)"
  by (simp add: int2store_def le_bytes_unfold)

lemma int3store_le_bytes [store_simps]: "int3store A = le_bytes 3 (unat A)"
  by (simp add: int3store_def le_bytes_unfold)

lemma int4store_le_bytes [store_simps]: "int4store A = le_bytes 4 (unat A)"
  by (simp add: int4store_def le_bytes_unfold)

lemma int5store_le_bytes [store_simps]: "int5store A = le_bytes 5 (unat A)"
  by (simp add: int5store_def le_bytes_unfold)

lemma int6store_le_bytes [store_simps]: "int6store A = le_bytes 6 (unat A)"
  by (simp add: int6store_def le_bytes_unfold)

lemma int8store_le_bytes [store_simps]: "int8store A = le_bytes 8 (unat A)"
proof (rule le_nat_inject)
  show "length (int8store A) = length (le_bytes 8 (unat A))"
    by (simp add: int8store_def int4store_def Let_def)
  have "le_nat (int8store A) = unat A mod 4294967296 + 4294967296 * (unat A div 4294967296 mod 4294967296)"
    by (simp add: int8store_def Let_def int4store_le_bytes le_nat_append le_nat_le_bytes byte_simps)
  then show "le_nat (int8store A) = le_nat (le_bytes 8 (unat A))"
    by (simp add: mod_digit_split le_nat_le_bytes)
qed

lemma sint2korr_eq: "sint2korr = uint2korr"
  by (rule ext, rename_tac bs, case_tac bs rule: uint2korr.cases) simp_all

lemma sint4korr_eq: "sint4korr = uint4korr"
  by (rule ext, rename_tac bs, case_tac bs rule: uint4korr.cases) simp_all

subsection \<open>The contract of a store and its reader\<close>

text \<open>
  Every store/reader pair of the header keeps one contract: the store writes the low \<open>w\<close> bytes
  of its argument and the reader returns the little-endian value of the next \<open>w\<close> bytes.
\<close>

locale fixed_codec =
  fixes enc :: "'a::len word \<Rightarrow> bytes"
    and dec :: "bytes \<Rightarrow> 'b::len word option"
    and w :: nat
  assumes enc_bytes: "enc a = le_bytes w (unat a)"
    and dec_value: "dec bs = (if length bs < w then None else Some (of_nat (le_nat (take w bs))))"
    and width: "8 * w \<le> LENGTH('b)"
begin

lemma length_enc: "length (enc a) = w"
  by (simp add: enc_bytes)

lemma dec_short: "dec bs = None \<longleftrightarrow> length bs < w"
  by (simp add: dec_value)

lemma pow_width: "256 ^ w \<le> (2::nat) ^ LENGTH('b)"
proof -
  have "(256::nat) ^ w = 2 ^ (8 * w)" by (simp add: power_mult)
  also have "\<dots> \<le> 2 ^ LENGTH('b)" using width by (intro power_increasing) simp_all
  finally show ?thesis .
qed

lemma dec_unat: "dec bs = Some v \<Longrightarrow> unat v = le_nat (take w bs)"
proof -
  assume d: "dec bs = Some v"
  then have "length bs \<ge> w" and v: "v = of_nat (le_nat (take w bs))"
    by (auto simp: dec_value split: if_splits)
  then have "le_nat (take w bs) < 256 ^ w" using le_nat_bound [of "take w bs"] by simp
  then have "le_nat (take w bs) < 2 ^ LENGTH('b)" using pow_width by linarith
  then show ?thesis by (simp add: v unat_of_nat)
qed

lemma dec_enc: "dec (enc a @ r) = Some (of_nat (unat a mod 256 ^ w))"
  by (simp add: dec_value enc_bytes le_nat_le_bytes)

lemma dec_enc_exact: "unat a < 256 ^ w \<Longrightarrow> dec (enc a @ r) = Some (ucast a)"
  by (simp add: dec_enc)

lemma enc_dec: "dec bs = Some v \<Longrightarrow> le_bytes w (unat v) = take w bs"
proof -
  assume d: "dec bs = Some v"
  then have "length (take w bs) = w" by (auto simp: dec_value split: if_splits)
  then show ?thesis using le_bytes_le_nat [of "take w bs"] dec_unat [OF d] by simp
qed

end

interpretation c2: fixed_codec int2store uint2korr 2
  by unfold_locales (simp_all only: store_simps korr_simps, simp)

interpretation c3: fixed_codec int3store uint3korr 3
  by unfold_locales (simp_all only: store_simps korr_simps, simp)

interpretation c4: fixed_codec int4store uint4korr 4
  by unfold_locales (simp_all only: store_simps korr_simps, simp)

interpretation c5: fixed_codec int5store uint5korr 5
  by unfold_locales (simp_all only: store_simps korr_simps, simp)

interpretation c6: fixed_codec int6store uint6korr 6
  by unfold_locales (simp_all only: store_simps korr_simps, simp)

interpretation c8: fixed_codec int8store uint8korr 8
  by unfold_locales (simp_all only: store_simps korr_simps, simp)

end
