(* ===== verification/Pack.thy ===== *)
theory Pack
  imports Bytes
begin

text \<open>
  Length-coded integers, \<^verbatim>\<open>libmysql/pack.c\<close>. A reader takes the bytes from \<open>*packet\<close> to the end of
  the buffer and returns the value together with the number of bytes \<open>*packet\<close> is moved by; it is
  \<^const>\<open>None\<close> where the code would read behind the buffer. The locale \<open>length_code\<close> is what a
  client of such a code relies on; it is interpreted by the 64-bit pair and gives the unique
  parse of a sequence of coded lengths.
\<close>

definition NULL_LENGTH :: ulong where
  "NULL_LENGTH = NOT 0"

definition net_field_length :: "bytes \<Rightarrow> (ulong \<times> nat) option" where
  "net_field_length packet =
     (case packet of
        [] \<Rightarrow> None
      | pos # rest \<Rightarrow>
          if pos < 251 then Some (ucast pos, 1)
          else if pos = 251 then Some (NULL_LENGTH, 1)
          else if pos = 252 then map_option (\<lambda>v. (ucast v, 3)) (uint2korr rest)
          else if pos = 253 then map_option (\<lambda>v. (v, 4)) (uint3korr rest)
          else map_option (\<lambda>v. (v, 9)) (uint4korr rest))"

definition net_field_length_ll :: "bytes \<Rightarrow> (ulonglong \<times> nat) option" where
  "net_field_length_ll packet =
     (case packet of
        [] \<Rightarrow> None
      | pos # rest \<Rightarrow>
          if pos < 251 then Some (ucast pos, 1)
          else if pos = 251 then Some (ucast NULL_LENGTH, 1)
          else if pos = 252 then map_option (\<lambda>v. (ucast v, 3)) (uint2korr rest)
          else if pos = 253 then map_option (\<lambda>v. (ucast v, 4)) (uint3korr rest)
          else map_option (\<lambda>v. (v, 9)) (uint8korr rest))"

definition net_store_length :: "ulonglong \<Rightarrow> bytes" where
  "net_store_length len =
     (if len < 251 then [ucast len]
      else if len < 65536 then 252 # int2store (ucast len)
      else if len < 16777216 then 253 # int3store (ucast len)
      else 254 # int8store len)"

subsection \<open>The first byte selects the format\<close>

lemma net_store_length_cases:
  obtains (one) "unat n < 251" "net_store_length n = [ucast n]"
  | (two) "251 \<le> unat n" "unat n < 65536" "net_store_length n = 252 # int2store (ucast n)"
  | (three) "65536 \<le> unat n" "unat n < 16777216" "net_store_length n = 253 # int3store (ucast n)"
  | (eight) "16777216 \<le> unat n" "net_store_length n = 254 # int8store n"
  by (cases "n < 251"; cases "n < 65536"; cases "n < 16777216")
     (auto simp: net_store_length_def word_less_nat_alt)

lemma small_uchar: "unat (n :: ulonglong) < 251 \<Longrightarrow> (ucast n :: uchar) < 251"
  by (simp add: word_less_nat_alt unat_ucast_mod)

lemma length_net_store_length:
  "length (net_store_length n) =
     (if unat n < 251 then 1 else if unat n < 65536 then 3 else if unat n < 16777216 then 4 else 9)"
  by (cases n rule: net_store_length_cases) (simp_all add: store_simps)

lemma net_field_length_ll_store:
  "net_field_length_ll (net_store_length n @ r) = Some (n, length (net_store_length n))"
proof (cases n rule: net_store_length_cases)
  case one
  then show ?thesis
    by (simp add: net_field_length_ll_def small_uchar ucast_ucast_small)
next
  case two
  then show ?thesis
    by (simp add: net_field_length_ll_def c2.dec_enc c2.length_enc unat_ucast_mod ucast_ucast_small)
next
  case three
  then show ?thesis
    by (simp add: net_field_length_ll_def c3.dec_enc c3.length_enc unat_ucast_mod ucast_ucast_small)
next
  case eight
  then show ?thesis
    using unat_mask_64 [of n] by (simp add: net_field_length_ll_def c8.dec_enc c8.length_enc)
qed

lemma net_field_length_store:
  "net_field_length (net_store_length n @ r) = Some (ucast n, length (net_store_length n))"
proof (cases n rule: net_store_length_cases)
  case one
  then show ?thesis
    by (simp add: net_field_length_def small_uchar) (rule word_unat_eq_iff [THEN iffD2], simp add: unat_ucast_mod)
next
  case two
  then show ?thesis
    by (simp add: net_field_length_def c2.dec_enc c2.length_enc unat_ucast_mod)
       (rule word_unat_eq_iff [THEN iffD2], simp add: unat_ucast_mod)
next
  case three
  then show ?thesis
    by (simp add: net_field_length_def c3.dec_enc c3.length_enc unat_ucast_mod)
next
  case eight
  then show ?thesis
    by (simp add: net_field_length_def uint4korr_value store_simps take_le_bytes le_nat_le_bytes)
       (rule word_unat_eq_iff [THEN iffD2], simp add: unat_ucast_mod unat_of_nat)
qed

text \<open>The byte 251, which marks a NULL, is never the start of a stored length.\<close>

lemma net_store_length_not_null: "\<exists>b bs. net_store_length n = b # bs \<and> b \<noteq> 251 \<and> b \<noteq> 255"
  by (cases n rule: net_store_length_cases) (auto dest: small_uchar)

subsection \<open>What a client of a length code relies on\<close>

locale length_code =
  fixes enc :: "'n \<Rightarrow> bytes"
    and dec :: "bytes \<Rightarrow> ('n \<times> nat) option"
  assumes dec_enc: "dec (enc n @ r) = Some (n, length (enc n))"
begin

lemma enc_inject: "enc m @ r = enc n @ r' \<Longrightarrow> m = n \<and> r = r'"
proof -
  assume eq: "enc m @ r = enc n @ r'"
  then have "Some (m, length (enc m)) = Some (n, length (enc n))"
    by (metis dec_enc)
  with eq show ?thesis by simp
qed

text \<open>A sequence of codes is read back one by one, each reader starting where the last stopped.\<close>

primrec dec_many :: "nat \<Rightarrow> bytes \<Rightarrow> ('n list \<times> bytes) option" where
  "dec_many 0 bs = Some ([], bs)"
| "dec_many (Suc k) bs =
     (case dec bs of None \<Rightarrow> None
      | Some (n, l) \<Rightarrow> map_option (\<lambda>(ns, r). (n # ns, r)) (dec_many k (drop l bs)))"

lemma dec_many_enc: "dec_many (length ns) (concat (map enc ns) @ r) = Some (ns, r)"
  by (induction ns) (simp_all add: dec_enc)

end

interpretation ll: length_code net_store_length net_field_length_ll
  by unfold_locales (rule net_field_length_ll_store)

subsection \<open>Properties\<close>

text \<open>
  C16: every 64-bit length written by \<open>net_store_length\<close> is read back by \<open>net_field_length_ll\<close>,
  whatever follows it, and the reader moves the packet pointer by exactly the bytes written.
\<close>

theorem net_length_ll_roundtrip:
  "net_field_length_ll (net_store_length n @ r) = Some (n, length (net_store_length n))"
  by (rule ll.dec_enc)

end
