(* ===== verification/Queues.thy ===== *)
theory Queues
  imports Prelude
begin

text \<open>
  Priority queues, \<^verbatim>\<open>mysys/queues.c\<close> and \<^verbatim>\<open>include/queues.h\<close>: a binary heap in the slots \<open>1\<close> to
  \<open>elements\<close> of an array of pointers. A pointer is a natural number, so that
  \<open>element + offset_to_key\<close> is what the compare function is given; \<^const>\<open>None\<close> for \<open>root\<close> is the null
  pointer. The memory allocator is a parameter: \<open>m n\<close> is the block \<open>my_malloc\<close> returns for \<open>n\<close>
  slots and \<open>re p n\<close> the block \<open>my_realloc\<close> returns, \<^const>\<open>None\<close> when they fail. An operation is
  \<^const>\<open>None\<close> where the code would access memory outside the array or never leave a loop. Sizes and capacities are
  computed in 32 bits. The compare function is taken not to return the least \<open>int\<close>, whose product with -1 overflows.
\<close>

subsection \<open>State\<close>

record 'arg queue =
  root :: "nat list option"
  first_cmp_arg :: 'arg
  elements :: nat
  max_elements :: nat
  offset_to_key :: nat
  max_at_top :: int
  compare :: "'arg \<Rightarrow> nat \<Rightarrow> nat \<Rightarrow> int"
  auto_extent :: nat

definition queue_set_max_at_top :: "'arg queue \<Rightarrow> bool \<Rightarrow> 'arg queue" where
  "queue_set_max_at_top q set_arg = q\<lparr>max_at_top := (if set_arg then -1 else 1)\<rparr>"

definition queue_set_cmp_arg :: "'arg queue \<Rightarrow> 'arg \<Rightarrow> 'arg queue" where
  "queue_set_cmp_arg q set_arg = q\<lparr>first_cmp_arg := set_arg\<rparr>"

text \<open>The comparison every routine makes, with the sign of \<open>max_at_top\<close>.\<close>

definition queue_cmp :: "'arg queue \<Rightarrow> nat \<Rightarrow> nat \<Rightarrow> int" where
  "queue_cmp q a b =
     compare q (first_cmp_arg q) (a + offset_to_key q) (b + offset_to_key q) * max_at_top q"

subsection \<open>Initialisation and resizing\<close>

text \<open>The slots in a block of \<open>(max_elements + 1) * sizeof(void*)\<close> bytes, the size being a \<open>uint\<close>.\<close>

definition queue_slots :: "nat \<Rightarrow> nat" where
  "queue_slots max_els = (max_els + 1) mod 2 ^ 32 * 4 mod 2 ^ 32 div 4"

definition init_queue ::
  "(nat \<Rightarrow> nat list option) \<Rightarrow> 'arg queue \<Rightarrow> nat \<Rightarrow> nat \<Rightarrow> bool \<Rightarrow>
     ('arg \<Rightarrow> nat \<Rightarrow> nat \<Rightarrow> int) \<Rightarrow> 'arg \<Rightarrow> int \<times> 'arg queue" where
  "init_queue m q max_els offs max_top cmp arg =
     (case m (queue_slots max_els) of
        None \<Rightarrow> (1, q\<lparr>root := None\<rparr>)
      | Some r \<Rightarrow>
          (0, queue_set_max_at_top
                (q\<lparr>root := Some r, elements := 0, compare := cmp, first_cmp_arg := arg,
                   max_elements := max_els, offset_to_key := offs\<rparr>) max_top))"

definition init_queue_ex ::
  "(nat \<Rightarrow> nat list option) \<Rightarrow> 'arg queue \<Rightarrow> nat \<Rightarrow> nat \<Rightarrow> bool \<Rightarrow>
     ('arg \<Rightarrow> nat \<Rightarrow> nat \<Rightarrow> int) \<Rightarrow> 'arg \<Rightarrow> nat \<Rightarrow> int \<times> 'arg queue" where
  "init_queue_ex m q max_els offs max_top cmp arg extent =
     (let (ret, q') = init_queue m q max_els offs max_top cmp arg
      in if ret \<noteq> 0 then (ret, q') else (0, q'\<lparr>auto_extent := extent\<rparr>))"

definition resize_queue ::
  "(nat list option \<Rightarrow> nat \<Rightarrow> nat list option) \<Rightarrow> 'arg queue \<Rightarrow> nat \<Rightarrow> int \<times> 'arg queue" where
  "resize_queue re q max_els =
     (if max_elements q = max_els then (0, q)
      else case re (root q) (queue_slots max_els) of
             None \<Rightarrow> (1, q)
           | Some new_root \<Rightarrow>
               (0, q\<lparr>elements := (if max_els < elements q then max_els else elements q),
                     max_elements := max_els, root := Some new_root\<rparr>))"

definition reinit_queue ::
  "(nat list option \<Rightarrow> nat \<Rightarrow> nat list option) \<Rightarrow> 'arg queue \<Rightarrow> nat \<Rightarrow> nat \<Rightarrow> bool \<Rightarrow>
     ('arg \<Rightarrow> nat \<Rightarrow> nat \<Rightarrow> int) \<Rightarrow> 'arg \<Rightarrow> int \<times> 'arg queue" where
  "reinit_queue re q max_els offs max_top cmp arg =
     (let q1 = queue_set_max_at_top
                 (q\<lparr>elements := 0, compare := cmp, first_cmp_arg := arg, offset_to_key := offs\<rparr>) max_top;
          (_, q2) = resize_queue re q1 max_els
      in (0, q2))"

definition delete_queue :: "'arg queue \<Rightarrow> 'arg queue" where
  "delete_queue q = (case root q of None \<Rightarrow> q | Some _ \<Rightarrow> q\<lparr>root := None\<rparr>)"

definition queue_remove_all :: "'arg queue \<Rightarrow> 'arg queue" where
  "queue_remove_all q = q\<lparr>elements := 0\<rparr>"

definition queue_is_full :: "'arg queue \<Rightarrow> bool" where
  "queue_is_full q \<longleftrightarrow> elements q = max_elements q"

definition queue_top :: "'arg queue \<Rightarrow> nat option" where
  "queue_top q = (case root q of None \<Rightarrow> None | Some r \<Rightarrow> if 1 < length r then Some (r ! 1) else None)"

subsection \<open>Insertion\<close>

text \<open>
  The loop of \<open>queue_insert\<close>. Slot 0 holds the new element as a sentinel. At \<open>idx = 0\<close> a
  comparison that is still negative repeats itself forever: \<^const>\<open>None\<close>.
\<close>

function insert_loop :: "('e \<Rightarrow> 'e \<Rightarrow> int) \<Rightarrow> 'e \<Rightarrow> 'e list \<Rightarrow> nat \<Rightarrow> 'e list option" where
  "insert_loop cmp e r idx =
     (let nxt = idx div 2
      in if cmp e (r ! nxt) < 0
         then (if idx = 0 then None else insert_loop cmp e (r[idx := r ! nxt]) nxt)
         else Some (r[idx := e]))"
  by pat_completeness auto
termination
  by (relation "measure (\<lambda>(cmp, e, r, idx). idx)") auto

definition queue_insert :: "'arg queue \<Rightarrow> nat \<Rightarrow> 'arg queue option" where
  "queue_insert q element =
     (case root q of
        None \<Rightarrow> None
      | Some r \<Rightarrow>
          if elements q < max_elements q \<and> Suc (elements q) < length r
          then (let idx = Suc (elements q)
                in map_option (\<lambda>r'. q\<lparr>root := Some r', elements := idx\<rparr>)
                     (insert_loop (queue_cmp q) element (r[0 := element]) idx))
          else None)"

definition queue_insert_safe ::
  "(nat list option \<Rightarrow> nat \<Rightarrow> nat list option) \<Rightarrow> 'arg queue \<Rightarrow> nat \<Rightarrow> (int \<times> 'arg queue) option" where
  "queue_insert_safe re q element =
     (if elements q = max_elements q
      then (if auto_extent q = 0 then Some (2, q)
            else (let (err, q') = resize_queue re q ((max_elements q + auto_extent q) mod 2 ^ 32)
                  in if err \<noteq> 0 then Some (1, q')
                     else map_option (Pair 0) (queue_insert q' element)))
      else map_option (Pair 0) (queue_insert q element))"

subsection \<open>Restoring the heap below one slot\<close>

text \<open>
  The first loop of \<open>_downheap\<close> moves the hole at \<open>idx\<close> down along the smaller children; the flag
  of its result says that the routine returned from inside the loop.
\<close>

definition next_index :: "('e \<Rightarrow> 'e \<Rightarrow> int) \<Rightarrow> nat \<Rightarrow> 'e list \<Rightarrow> nat \<Rightarrow> nat" where
  "next_index cmp n r idx =
     (let nxt = idx + idx in if nxt < n \<and> cmp (r ! nxt) (r ! (nxt + 1)) > 0 then nxt + 1 else nxt)"

lemma next_index_bounds: "0 < idx \<Longrightarrow> idx \<le> n div 2 \<Longrightarrow> idx < next_index cmp n r idx \<and> next_index cmp n r idx \<le> n"
  by (auto simp: next_index_def Let_def)

function sink_hole ::
  "('e \<Rightarrow> 'e \<Rightarrow> int) \<Rightarrow> nat \<Rightarrow> 'e \<Rightarrow> bool \<Rightarrow> 'e list \<Rightarrow> nat \<Rightarrow> bool \<times> 'e list \<times> nat" where
  "sink_hole cmp n e first r idx =
     (if 0 < idx \<and> idx \<le> n div 2
      then (if first \<and> cmp (r ! next_index cmp n r idx) e \<ge> 0 then (True, r[idx := e], idx)
            else sink_hole cmp n e False (r[idx := r ! next_index cmp n r idx]) (next_index cmp n r idx))
      else (False, r, idx))"
  by pat_completeness auto
termination
proof (relation "measure (\<lambda>(cmp, n, e, first, r, idx). n - idx)")
  fix cmp :: "'e \<Rightarrow> 'e \<Rightarrow> int" and n idx :: nat and e :: 'e and first :: bool and r :: "'e list"
  assume "0 < idx \<and> idx \<le> n div 2"
  then have "idx < next_index cmp n r idx" "next_index cmp n r idx \<le> n"
    using next_index_bounds [of idx n cmp r] by auto
  then show "((cmp, n, e, False, r[idx := r ! next_index cmp n r idx], next_index cmp n r idx),
              (cmp, n, e, first, r, idx)) \<in> measure (\<lambda>(cmp, n, e, first, r, idx). n - idx)"
    by auto
qed simp

text \<open>The second loop climbs from the leaf back to where the element belongs.\<close>

function climb_hole :: "('e \<Rightarrow> 'e \<Rightarrow> int) \<Rightarrow> 'e \<Rightarrow> nat \<Rightarrow> 'e list \<Rightarrow> nat \<Rightarrow> 'e list" where
  "climb_hole cmp e start r idx =
     (let nxt = idx div 2
      in if start < nxt
         then (if cmp (r ! nxt) e < 0 then r[idx := e]
               else climb_hole cmp e start (r[idx := r ! nxt]) nxt)
         else r[idx := e])"
  by pat_completeness auto
termination
  by (relation "measure (\<lambda>(cmp, e, start, r, idx). idx)") auto

definition downheap_list :: "('e \<Rightarrow> 'e \<Rightarrow> int) \<Rightarrow> nat \<Rightarrow> 'e list \<Rightarrow> nat \<Rightarrow> 'e list" where
  "downheap_list cmp n r idx =
     (let element = r ! idx; (returned, r', i) = sink_hole cmp n element True r idx
      in if returned then r' else climb_hole cmp element idx r' i)"

definition downheap :: "'arg queue \<Rightarrow> nat \<Rightarrow> 'arg queue option" where
  "downheap q idx =
     (case root q of
        None \<Rightarrow> None
      | Some r \<Rightarrow>
          if 0 < idx \<and> idx < length r \<and> elements q < length r
          then Some (q\<lparr>root := Some (downheap_list (queue_cmp q) (elements q) r idx)\<rparr>)
          else None)"

definition queue_replaced :: "'arg queue \<Rightarrow> 'arg queue option" where
  "queue_replaced q = downheap q 1"

definition queue_remove :: "'arg queue \<Rightarrow> nat \<Rightarrow> (nat \<times> 'arg queue) option" where
  "queue_remove q idx0 =
     (case root q of
        None \<Rightarrow> None
      | Some r \<Rightarrow>
          let idx = idx0 + 1
          in if 0 < elements q \<and> idx < length r \<and> elements q < length r
             then map_option (Pair (r ! idx))
                    (downheap (q\<lparr>root := Some (r[idx := r ! elements q]), elements := elements q - 1\<rparr>) idx)
             else None)"

fun queue_fix_loop :: "nat \<Rightarrow> 'arg queue \<Rightarrow> 'arg queue option" where
  "queue_fix_loop 0 q = Some q"
| "queue_fix_loop (Suc i) q =
     (case downheap q (Suc i) of None \<Rightarrow> None | Some q' \<Rightarrow> queue_fix_loop i q')"

definition queue_fix :: "'arg queue \<Rightarrow> 'arg queue option" where
  "queue_fix q = queue_fix_loop (elements q div 2) q"

declare insert_loop.simps [simp del] sink_hole.simps [simp del] climb_hole.simps [simp del]

subsection \<open>Invariant and abstraction\<close>

definition heap_from :: "('e \<Rightarrow> 'e \<Rightarrow> int) \<Rightarrow> nat \<Rightarrow> nat \<Rightarrow> 'e list \<Rightarrow> bool" where
  "heap_from cmp s n r \<longleftrightarrow> (\<forall>j\<le>n. s \<le> j div 2 \<longrightarrow> cmp (r ! (j div 2)) (r ! j) \<le> 0)"

text \<open>The same for an array whose slot \<open>h\<close> is a hole: the hole's parent is below its children.\<close>

definition heap_hole :: "('e \<Rightarrow> 'e \<Rightarrow> int) \<Rightarrow> nat \<Rightarrow> nat \<Rightarrow> 'e list \<Rightarrow> nat \<Rightarrow> bool" where
  "heap_hole cmp s n r h \<longleftrightarrow>
     (\<forall>j\<le>n. s \<le> j div 2 \<longrightarrow> j \<noteq> h \<longrightarrow> j div 2 \<noteq> h \<longrightarrow> cmp (r ! (j div 2)) (r ! j) \<le> 0) \<and>
     (\<forall>j\<le>n. j div 2 = h \<longrightarrow> s \<le> h div 2 \<longrightarrow> cmp (r ! (h div 2)) (r ! j) \<le> 0)"

text \<open>A routine only permutes the slots \<open>1\<close> to \<open>n\<close> of the array.\<close>

definition permutes_slots :: "nat \<Rightarrow> 'e list \<Rightarrow> 'e list \<Rightarrow> bool" where
  "permutes_slots n r r' \<longleftrightarrow>
     length r' = length r \<and> mset r' = mset r \<and> (\<forall>k. k = 0 \<or> n < k \<longrightarrow> r' ! k = r ! k)"

definition slots :: "nat \<Rightarrow> 'e list \<Rightarrow> 'e list" where
  "slots n r = take n (tl r)"

lemma mset_move_hole:
  assumes "i < length r" "j < length r" "i \<noteq> j"
  shows "mset (r[i := r ! j, j := e]) = mset (r[i := e])"
proof -
  have "mset ((r[i := e])[j := r[i := e] ! i, i := r[i := e] ! j]) = mset (r[i := e])"
    using assms by (intro mset_swap) simp_all
  moreover have "(r[i := e])[j := r[i := e] ! i, i := r[i := e] ! j] = r[i := r ! j, j := e]"
    using assms by (simp, metis list_update_overwrite list_update_swap)
  ultimately show ?thesis by simp
qed

lemma permutes_slots_move:
  assumes "permutes_slots n (r[i := r ! j, j := e]) r'" "0 < i" "i \<le> n" "0 < j" "j \<le> n" "i \<noteq> j"
    and "n < length r"
  shows "permutes_slots n (r[i := e]) r'"
  using assms mset_move_hole [of i r j e] unfolding permutes_slots_def by auto

lemma permutes_slots_refl [simp]: "permutes_slots n r r"
  by (simp add: permutes_slots_def)

lemma permutes_slots_trans: "permutes_slots n r r' \<Longrightarrow> permutes_slots n r' r'' \<Longrightarrow> permutes_slots n r r''"
  by (simp add: permutes_slots_def)

lemma array_split: "n < length r \<Longrightarrow> r = r ! 0 # slots n r @ drop (Suc n) r"
  by (cases r) (simp_all add: slots_def)

lemma permutes_slots_mset:
  assumes "permutes_slots n r r'" "n < length r"
  shows "mset (slots n r') = mset (slots n r)"
proof -
  have len: "length r' = length r" and m: "mset r' = mset r" and z: "r' ! 0 = r ! 0"
    and tail: "drop (Suc n) r' = drop (Suc n) r"
    using assms by (auto simp: permutes_slots_def intro!: nth_equalityI)
  have "mset (r ! 0 # slots n r' @ drop (Suc n) r) = mset (r ! 0 # slots n r @ drop (Suc n) r)"
    using array_split [of n r] array_split [of n r'] m assms(2) len z tail by metis
  then show ?thesis by simp
qed

lemma sink_hole_permutes:
  "sink_hole cmp n e first r idx = (ret, r', i) \<Longrightarrow> 0 < idx \<Longrightarrow> idx \<le> n \<Longrightarrow> n < length r \<Longrightarrow>
   permutes_slots n (r[idx := e]) (if ret then r' else r'[i := e]) \<and> length r' = length r \<and> idx \<le> i \<and> i \<le> n"
proof (induction cmp n e first r idx rule: sink_hole.induct)
  case (1 cmp n e first r idx)
  let ?nxt = "next_index cmp n r idx"
  show ?case
  proof (cases "idx \<le> n div 2 \<and> \<not> (first \<and> cmp (r ! ?nxt) e \<ge> 0)")
    case True
    then have eq: "sink_hole cmp n e first r idx = sink_hole cmp n e False (r[idx := r ! ?nxt]) ?nxt"
      using "1.prems" by (subst sink_hole.simps) auto
    have nxt: "idx < ?nxt" "?nxt \<le> n" using True "1.prems" next_index_bounds [of idx n cmp r] by auto
    have "permutes_slots n (r[idx := r ! ?nxt, ?nxt := e]) (if ret then r' else r'[i := e]) \<and>
          length r' = length (r[idx := r ! ?nxt]) \<and> ?nxt \<le> i \<and> i \<le> n"
      by (rule "1.IH") (use True "1.prems" nxt eq in auto)
    then show ?thesis using nxt "1.prems" by (auto dest: permutes_slots_move)
  next
    case False
    then show ?thesis using "1.prems" by (subst (asm) sink_hole.simps) (auto split: if_splits)
  qed
qed

lemma climb_hole_permutes:
  "0 < idx \<Longrightarrow> idx \<le> n \<Longrightarrow> n < length r \<Longrightarrow> permutes_slots n (r[idx := e]) (climb_hole cmp e s r idx)"
proof (induction cmp e s r idx rule: climb_hole.induct)
  case (1 cmp e s r idx)
  show ?case
  proof (cases "s < idx div 2 \<and> \<not> cmp (r ! (idx div 2)) e < 0")
    case True
    then have "permutes_slots n (r[idx := r ! (idx div 2), idx div 2 := e])
                 (climb_hole cmp e s (r[idx := r ! (idx div 2)]) (idx div 2))"
      using 1 by auto
    then have "permutes_slots n (r[idx := e]) (climb_hole cmp e s (r[idx := r ! (idx div 2)]) (idx div 2))"
      by (rule permutes_slots_move [where j = "idx div 2"]) (use True "1.prems" in auto)
    then show ?thesis using True by (subst climb_hole.simps) (simp add: Let_def)
  next
    case False
    then show ?thesis by (subst climb_hole.simps) (auto simp: Let_def)
  qed
qed

lemma downheap_list_permutes:
  assumes "0 < idx" "idx \<le> n" "n < length r"
  shows "permutes_slots n r (downheap_list cmp n r idx)"
proof -
  obtain ret r' i where sk: "sink_hole cmp n (r ! idx) True r idx = (ret, r', i)"
    by (metis prod_cases3)
  note p = sink_hole_permutes [OF sk assms]
  show ?thesis
  proof (cases ret)
    case True
    then show ?thesis using p by (simp add: downheap_list_def sk)
  next
    case False
    then have "permutes_slots n (r'[i := r ! idx]) (climb_hole cmp (r ! idx) idx r' i)"
      using p assms by (intro climb_hole_permutes) auto
    with False show ?thesis using p
      by (auto simp: downheap_list_def sk intro: permutes_slots_trans)
  qed
qed

locale cmp_order =
  fixes cmp :: "'e \<Rightarrow> 'e \<Rightarrow> int"
  assumes cmp_sign: "cmp a b < 0 \<longleftrightarrow> cmp b a > 0"
    and cmp_trans: "cmp a b \<le> 0 \<Longrightarrow> cmp b c \<le> 0 \<Longrightarrow> cmp a c \<le> 0"
begin

lemma cmp_refl [simp]: "cmp a a = 0"
  using cmp_sign [of a a] by linarith

lemma cmp_ge: "cmp a b \<ge> 0 \<longleftrightarrow> cmp b a \<le> 0"
  using cmp_sign [of a b] by linarith

lemma heap_fill:
  assumes "heap_hole cmp s n r h" "0 < h" "h < length r"
    and "s \<le> h div 2 \<Longrightarrow> cmp (r ! (h div 2)) e \<le> 0"
    and "\<And>j. j \<le> n \<Longrightarrow> j div 2 = h \<Longrightarrow> cmp e (r ! j) \<le> 0"
  shows "heap_from cmp s n (r[h := e])"
  unfolding heap_from_def
proof (intro allI impI)
  fix j assume j: "j \<le> n" "s \<le> j div 2"
  consider "j = h" | "j \<noteq> h" "j div 2 = h" | "j \<noteq> h" "j div 2 \<noteq> h" by blast
  then show "cmp (r[h := e] ! (j div 2)) (r[h := e] ! j) \<le> 0"
    using assms j by cases (auto simp: heap_hole_def)
qed

lemma heap_hole_up:
  assumes hole: "heap_hole cmp s n r h" and h: "0 < h" "h \<le> n" "n < length r" "s \<le> h div 2"
  shows "heap_hole cmp s n (r[h := r ! (h div 2)]) (h div 2)"
  unfolding heap_hole_def
proof (intro conjI allI impI)
  let ?p = "h div 2"
  have edge: "s \<le> ?p div 2 \<Longrightarrow> 0 < ?p \<Longrightarrow> cmp (r ! (?p div 2)) (r ! ?p) \<le> 0"
    using hole h unfolding heap_hole_def by force
  have ph: "?p \<noteq> h" using h by simp
  fix j assume j: "j \<le> n"
  { assume "s \<le> j div 2" "j \<noteq> ?p" "j div 2 \<noteq> ?p"
    then show "cmp (r[h := r ! ?p] ! (j div 2)) (r[h := r ! ?p] ! j) \<le> 0"
      using hole j h by (cases "j div 2 = h"; cases "j = h") (auto simp: heap_hole_def)
  next
    assume a: "j div 2 = ?p" "s \<le> ?p div 2"
    show "cmp (r[h := r ! ?p] ! (?p div 2)) (r[h := r ! ?p] ! j) \<le> 0"
    proof (cases "j = h")
      case True
      then show ?thesis using a edge h by (cases "?p = 0") auto
    next
      case False
      have "?p div 2 \<noteq> h" using h by simp
      moreover have "cmp (r ! ?p) (r ! j) \<le> 0"
        using False hole j a h ph unfolding heap_hole_def by metis
      moreover have "cmp (r ! (?p div 2)) (r ! ?p) \<le> 0"
        using a edge by (cases "?p = 0") auto
      ultimately show ?thesis using False cmp_trans by simp
    qed }
qed

lemma climb_hole_heap:
  "heap_hole cmp s n r i \<Longrightarrow> (\<And>j. j \<le> n \<Longrightarrow> j div 2 = i \<Longrightarrow> cmp e (r ! j) \<le> 0) \<Longrightarrow>
   (s < i \<Longrightarrow> cmp (r ! s) e \<le> 0) \<Longrightarrow> 0 < s \<Longrightarrow> s \<le> i \<Longrightarrow> i \<le> n \<Longrightarrow> n < length r \<Longrightarrow>
   heap_from cmp s n (climb_hole cmp e s r i)"
proof (induction i arbitrary: r rule: less_induct)
  case (less i)
  let ?p = "i div 2"
  show ?case
  proof (cases "s < ?p \<and> \<not> cmp (r ! ?p) e < 0")
    case True
    then have ep: "cmp e (r ! ?p) \<le> 0" using cmp_ge by force
    let ?r = "r[i := r ! ?p]"
    have step: "climb_hole cmp e s r i = climb_hole cmp e s ?r ?p"
      using True by (subst climb_hole.simps) (simp add: Let_def)
    have "heap_from cmp s n (climb_hole cmp e s ?r ?p)"
    proof (rule less.IH)
      show "?p < i" using less.prems by simp
      show "heap_hole cmp s n ?r ?p" using less.prems True by (intro heap_hole_up) auto
      fix j assume j: "j \<le> n" "j div 2 = ?p"
      show "cmp e (?r ! j) \<le> 0"
      proof (cases "j = i")
        case True
        then show ?thesis using ep less.prems by simp
      next
        case False
        have "?p \<noteq> i" using less.prems by simp
        then have "cmp (r ! ?p) (r ! j) \<le> 0"
          using False less.prems(1) j True unfolding heap_hole_def by (metis less_imp_le)
        then show ?thesis using False ep cmp_trans by simp
      qed
    qed (use less.prems True in auto)
    then show ?thesis by (simp add: step)
  next
    case False
    then have res: "climb_hole cmp e s r i = r[i := e]"
      by (subst climb_hole.simps) (auto simp: Let_def)
    have "s \<le> ?p \<Longrightarrow> cmp (r ! ?p) e \<le> 0"
      using False less.prems by (cases "s = ?p") auto
    then show ?thesis unfolding res using less.prems by (intro heap_fill) auto
  qed
qed

lemma next_index_least:
  assumes "0 < h" "h \<le> n div 2"
  shows "next_index cmp n r h div 2 = h"
    and "j \<le> n \<Longrightarrow> j div 2 = h \<Longrightarrow> cmp (r ! next_index cmp n r h) (r ! j) \<le> 0"
proof -
  show "next_index cmp n r h div 2 = h" by (simp add: next_index_def Let_def)
  assume j: "j \<le> n" "j div 2 = h"
  then have "j = h + h \<or> j = h + h + 1" by linarith
  then show "cmp (r ! next_index cmp n r h) (r ! j) \<le> 0"
    using j cmp_sign [of "r ! (h + h)" "r ! (h + h + 1)"] cmp_sign [of "r ! (h + h + 1)" "r ! (h + h)"]
    by (auto simp: next_index_def Let_def)
qed

lemma heap_hole_down:
  assumes hole: "heap_hole cmp s n r h" and h: "0 < h" "h \<le> n div 2" "n < length r" "s \<le> h"
  shows "heap_hole cmp s n (r[h := r ! next_index cmp n r h]) (next_index cmp n r h)"
proof -
  define c where "c = next_index cmp n r h"
  have c: "h < c" "c \<le> n" "c div 2 = h"
    using next_index_bounds [of h n cmp r] next_index_least(1) h by (auto simp: c_def)
  have least: "\<And>j. j \<le> n \<Longrightarrow> j div 2 = h \<Longrightarrow> cmp (r ! c) (r ! j) \<le> 0"
    using next_index_least(2) h by (auto simp: c_def)
  have skip: "s \<le> h div 2 \<Longrightarrow> cmp (r ! (h div 2)) (r ! c) \<le> 0"
    using hole c by (auto simp: heap_hole_def)
  have below: "\<And>j. j \<le> n \<Longrightarrow> j div 2 = c \<Longrightarrow> cmp (r ! c) (r ! j) \<le> 0"
    using hole c h by (auto simp: heap_hole_def)
  have "heap_hole cmp s n (r[h := r ! c]) c"
    unfolding heap_hole_def
  proof (intro conjI allI impI)
    fix j assume j: "j \<le> n"
    { assume a: "s \<le> j div 2" "j \<noteq> c" "j div 2 \<noteq> c"
      consider "j = h" | "j \<noteq> h" "j div 2 = h" | "j \<noteq> h" "j div 2 \<noteq> h" by blast
      then show "cmp (r[h := r ! c] ! (j div 2)) (r[h := r ! c] ! j) \<le> 0"
        using a j h skip least hole by cases (auto simp: heap_hole_def)
    next
      assume "j div 2 = c"
      then have "j \<noteq> h" using c by auto
      with \<open>j div 2 = c\<close> show "cmp (r[h := r ! c] ! (c div 2)) (r[h := r ! c] ! j) \<le> 0"
        using below j c h by auto }
  qed
  then show ?thesis by (simp add: c_def)
qed

text \<open>What the descent leaves: a finished heap, or a hole at a leaf with the top below the element.\<close>

lemma sink_hole_heap:
  "sink_hole cmp n e first r h = (ret, r', i) \<Longrightarrow> heap_hole cmp s n r h \<Longrightarrow> 0 < s \<Longrightarrow> s \<le> h \<Longrightarrow>
   n < length r \<Longrightarrow> h \<le> n \<Longrightarrow> (if first then h = s else s < h \<and> cmp (r ! s) e \<le> 0) \<Longrightarrow>
   (if ret then heap_from cmp s n r'
    else heap_hole cmp s n r' i \<and> n div 2 < i \<and> (s < i \<longrightarrow> cmp (r' ! s) e \<le> 0))"
proof (induction "n - h" arbitrary: first r h rule: less_induct)
  case less
  let ?c = "next_index cmp n r h"
  note prems = less.prems
  show ?case
  proof (cases "h \<le> n div 2")
    case False
    then show ?thesis using prems by (subst (asm) (1) sink_hole.simps) (auto split: if_splits)
  next
    case inner: True
    have c: "h < ?c" "?c \<le> n" using inner prems next_index_bounds [of h n cmp r] by auto
    show ?thesis
    proof (cases "first \<and> cmp (r ! ?c) e \<ge> 0")
      case True
      then have res: "ret" "r' = r[h := e]" and hs: "h = s"
        using inner prems by (subst (asm) (1) sink_hole.simps; auto)+
      have "heap_from cmp s n (r[h := e])"
      proof (rule heap_fill)
        fix j assume j: "j \<le> n" "j div 2 = h"
        have "cmp e (r ! ?c) \<le> 0" using True cmp_ge by blast
        then show "cmp e (r ! j) \<le> 0" using j cmp_trans next_index_least(2) inner prems by force
      qed (use prems hs in auto)
      with res show ?thesis by simp
    next
      case False
      then have eq: "sink_hole cmp n e False (r[h := r ! ?c]) ?c = (ret, r', i)"
        using inner prems by (subst (asm) (1) sink_hole.simps) (auto split: if_splits)
      have top: "cmp (r[h := r ! ?c] ! s) e \<le> 0"
        using False prems by (cases "h = s") (auto split: if_splits)
      show ?thesis
        by (rule less.hyps [OF _ eq]) (use c inner prems top heap_hole_down in auto)
    qed
  qed
qed

lemma downheap_list_heap:
  assumes "heap_from cmp (Suc s) n r" "0 < s" "s \<le> n" "n < length r"
  shows "heap_from cmp s n (downheap_list cmp n r s)"
proof -
  obtain ret r' i where sk: "sink_hole cmp n (r ! s) True r s = (ret, r', i)"
    by (metis prod_cases3)
  have hole: "heap_hole cmp s n r s"
    using assms by (auto simp: heap_hole_def heap_from_def)
  note res = sink_hole_heap [OF sk hole assms(2) order_refl assms(4,3)]
  note perm = sink_hole_permutes [OF sk assms(2-4)]
  show ?thesis
  proof (cases ret)
    case True
    then show ?thesis using res by (simp add: downheap_list_def sk)
  next
    case False
    have "heap_from cmp s n (climb_hole cmp (r ! s) s r' i)"
      by (rule climb_hole_heap) (use False res perm assms in auto)
    with False show ?thesis by (simp add: downheap_list_def sk)
  qed
qed

lemma insert_loop_heap:
  "heap_hole cmp 1 n r i \<Longrightarrow> (\<And>j. j \<le> n \<Longrightarrow> j div 2 = i \<Longrightarrow> cmp e (r ! j) \<le> 0) \<Longrightarrow>
   r ! 0 = e \<Longrightarrow> 0 < i \<Longrightarrow> i \<le> n \<Longrightarrow> n < length r \<Longrightarrow>
   \<exists>r'. insert_loop cmp e r i = Some r' \<and> heap_from cmp 1 n r' \<and> permutes_slots n (r[i := e]) r'"
proof (induction i arbitrary: r rule: less_induct)
  case (less i)
  let ?p = "i div 2"
  show ?case
  proof (cases "cmp e (r ! ?p) < 0")
    case True
    then have p: "0 < ?p" using less.prems by (cases "?p = 0") auto
    let ?r = "r[i := r ! ?p]"
    have "\<exists>r'. insert_loop cmp e ?r ?p = Some r' \<and> heap_from cmp 1 n r' \<and> permutes_slots n (?r[?p := e]) r'"
    proof (rule less.IH)
      show "heap_hole cmp 1 n ?r ?p" using less.prems p by (intro heap_hole_up) auto
      fix j assume j: "j \<le> n" "j div 2 = ?p"
      show "cmp e (?r ! j) \<le> 0"
      proof (cases "j = i")
        case False
        have "?p \<noteq> i" using less.prems by simp
        then have "cmp (r ! ?p) (r ! j) \<le> 0"
          using False less.prems(1) j p unfolding heap_hole_def by (metis One_nat_def Suc_leI)
        then show ?thesis using False True cmp_trans [of e "r ! ?p" "r ! j"] by simp
      qed (use True less.prems in simp)
    qed (use less.prems p in auto)
    then obtain r' where r': "insert_loop cmp e ?r ?p = Some r'" "heap_from cmp 1 n r'"
      "permutes_slots n (?r[?p := e]) r'" by blast
    have "permutes_slots n (r[i := e]) r'"
      by (rule permutes_slots_move [where j = ?p]) (use r' less.prems p in auto)
    then show ?thesis using r' True less.prems by (subst insert_loop.simps) (auto simp: Let_def)
  next
    case False
    have "heap_from cmp 1 n (r[i := e])"
      by (rule heap_fill) (use False cmp_ge less.prems in \<open>auto simp: not_less\<close>)
    then show ?thesis using False by (subst insert_loop.simps) (simp add: Let_def)
  qed
qed

lemma heap_top_least:
  "heap_from cmp 1 n r \<Longrightarrow> 0 < k \<Longrightarrow> k \<le> n \<Longrightarrow> cmp (r ! 1) (r ! k) \<le> 0"
proof (induction k rule: less_induct)
  case (less k)
  show ?case
  proof (cases "k = 1")
    case False
    then have "cmp (r ! 1) (r ! (k div 2)) \<le> 0" using less by auto
    moreover have "cmp (r ! (k div 2)) (r ! k) \<le> 0"
      using less.prems False by (auto simp: heap_from_def)
    ultimately show ?thesis by (rule cmp_trans)
  qed simp
qed

end

subsection \<open>The queue operations\<close>

definition queue_wf :: "'arg queue \<Rightarrow> bool" where
  "queue_wf q \<longleftrightarrow> (\<exists>r. root q = Some r \<and> length r = max_elements q + 1) \<and> elements q \<le> max_elements q"

definition queue_heap :: "'arg queue \<Rightarrow> bool" where
  "queue_heap q \<longleftrightarrow> (\<exists>r. root q = Some r \<and> heap_from (queue_cmp q) 1 (elements q) r)"

definition queue_mset :: "'arg queue \<Rightarrow> nat multiset" where
  "queue_mset q = (case root q of None \<Rightarrow> {#} | Some r \<Rightarrow> mset (slots (elements q) r))"

text \<open>The invariant of a queue ordered by \<open>cmp\<close>.\<close>

definition queue_ok :: "(nat \<Rightarrow> nat \<Rightarrow> int) \<Rightarrow> 'arg queue \<Rightarrow> bool" where
  "queue_ok cmp q \<longleftrightarrow> cmp_order cmp \<and> queue_cmp q = cmp \<and> queue_wf q \<and> queue_heap q"

lemma queue_cmp_update [simp]:
  "queue_cmp (q\<lparr>root := r\<rparr>) = queue_cmp q" "queue_cmp (q\<lparr>elements := n\<rparr>) = queue_cmp q"
  "queue_cmp (q\<lparr>max_elements := n\<rparr>) = queue_cmp q" "queue_cmp (q\<lparr>auto_extent := n\<rparr>) = queue_cmp q"
  by (simp_all add: queue_cmp_def fun_eq_iff)

lemma queue_okE:
  assumes "queue_ok cmp q"
  obtains r where "root q = Some r" "length r = max_elements q + 1" "elements q \<le> max_elements q"
    "heap_from cmp 1 (elements q) r" "queue_cmp q = cmp" "cmp_order cmp"
    "queue_mset q = mset (slots (elements q) r)"
  using assms by (auto simp: queue_ok_def queue_wf_def queue_heap_def queue_mset_def)

lemma queue_okI:
  "cmp_order cmp \<Longrightarrow> queue_cmp q = cmp \<Longrightarrow> root q = Some r \<Longrightarrow> length r = max_elements q + 1 \<Longrightarrow>
   elements q \<le> max_elements q \<Longrightarrow> heap_from cmp 1 (elements q) r \<Longrightarrow> queue_ok cmp q"
  by (simp add: queue_ok_def queue_wf_def queue_heap_def)

lemma length_slots [simp]: "n < length r \<Longrightarrow> length (slots n r) = n"
  by (simp add: slots_def)

lemma slots_nth: "n < length r \<Longrightarrow> 0 < k \<Longrightarrow> k \<le> n \<Longrightarrow> slots n r ! (k - 1) = r ! k"
  by (cases r) (auto simp: slots_def nth_Cons split: nat.splits)

lemma set_slots: "n < length r \<Longrightarrow> set (slots n r) = {r ! k | k. 0 < k \<and> k \<le> n}"
proof (intro set_eqI iffI)
  fix x assume n: "n < length r" and "x \<in> set (slots n r)"
  then obtain k where "k < n" "x = slots n r ! k" by (metis in_set_conv_nth length_slots)
  then show "x \<in> {r ! k | k. 0 < k \<and> k \<le> n}"
    using slots_nth [OF n, of "Suc k"] by (auto intro!: exI [of _ "Suc k"])
next
  fix x assume n: "n < length r" and "x \<in> {r ! k | k. 0 < k \<and> k \<le> n}"
  then obtain k where k: "0 < k" "k \<le> n" "x = r ! k" by blast
  then have "k - 1 < length (slots n r)" using n by simp
  then show "x \<in> set (slots n r)" using k slots_nth [OF n k(1,2)] by (metis nth_mem)
qed

lemma mset_slots_Suc: "Suc n < length r \<Longrightarrow> mset (slots (Suc n) r) = add_mset (r ! Suc n) (mset (slots n r))"
  by (cases r) (simp_all add: slots_def take_Suc_conv_app_nth)

lemma slots_update_0 [simp]: "slots n (r[0 := e]) = slots n r"
  by (cases r) (simp_all add: slots_def)

lemma slots_update_beyond [simp]: "slots n (r[Suc n := e]) = slots n r"
  by (cases r) (simp_all add: slots_def)

lemma heap_from_prefix: "heap_from cmp s n r \<Longrightarrow> m \<le> n \<Longrightarrow> (\<And>k. k \<le> m \<Longrightarrow> 0 < k \<Longrightarrow> r' ! k = r ! k) \<Longrightarrow> 0 < s \<Longrightarrow>
   heap_from cmp s m r'"
  unfolding heap_from_def
proof (intro allI impI)
  fix j assume h: "\<forall>j\<le>n. s \<le> j div 2 \<longrightarrow> cmp (r ! (j div 2)) (r ! j) \<le> 0" and m: "m \<le> n"
    and eq: "\<And>k. k \<le> m \<Longrightarrow> 0 < k \<Longrightarrow> r' ! k = r ! k" and s: "0 < s" and j: "j \<le> m" "s \<le> j div 2"
  have "0 < j div 2" "j div 2 \<le> m" "0 < j" using s j by auto
  then show "cmp (r' ! (j div 2)) (r' ! j) \<le> 0" using h m eq j by simp
qed

lemma queue_insert_spec:
  assumes "queue_ok cmp q" "elements q < max_elements q"
  shows "\<exists>q'. queue_insert q x = Some q' \<and> queue_ok cmp q' \<and> max_elements q' = max_elements q \<and>
              elements q' = Suc (elements q) \<and> queue_mset q' = add_mset x (queue_mset q)"
proof -
  obtain r where r: "root q = Some r" "length r = max_elements q + 1" "elements q \<le> max_elements q"
    "heap_from cmp 1 (elements q) r" "queue_cmp q = cmp" "cmp_order cmp"
    "queue_mset q = mset (slots (elements q) r)" using assms(1) by (rule queue_okE)
  let ?n = "Suc (elements q)" and ?r = "r[0 := x]"
  have hole: "heap_hole cmp 1 ?n ?r ?n"
    using r(4) assms(2) r(2) unfolding heap_hole_def heap_from_def
    by (auto simp: le_Suc_eq nth_list_update)
  have "\<exists>r'. insert_loop cmp x ?r ?n = Some r' \<and> heap_from cmp 1 ?n r' \<and> permutes_slots ?n (?r[?n := x]) r'"
    by (rule cmp_order.insert_loop_heap [OF r(6) hole]) (use r assms in auto)
  then obtain r' where r': "insert_loop cmp x ?r ?n = Some r'" "heap_from cmp 1 ?n r'"
    "permutes_slots ?n (?r[?n := x]) r'" by blast
  let ?q = "q\<lparr>root := Some r', elements := ?n\<rparr>"
  have "queue_insert q x = Some ?q" using r r' assms by (simp add: queue_insert_def Let_def)
  moreover have "queue_ok cmp ?q"
    by (rule queue_okI [where r = r']) (use r r' assms in \<open>auto simp: permutes_slots_def\<close>)
  moreover have "mset (slots ?n r') = add_mset x (mset (slots (elements q) r))"
    using permutes_slots_mset [OF r'(3)] assms r by (simp add: mset_slots_Suc)
  then have "queue_mset ?q = add_mset x (queue_mset q)" using r by (simp add: queue_mset_def)
  ultimately show ?thesis by force
qed

text \<open>Slot \<open>idx\<close> replaced by the last element, one element less: the contents lose slot \<open>idx\<close>.\<close>

lemma mset_slots_drop_slot:
  assumes "0 < i" "i \<le> n" "n < length r"
  shows "mset (slots n r) = add_mset (r ! i) (mset (slots (n - 1) (r[i := r ! n])))"
proof (cases "i = n")
  case True
  then obtain m where "n = Suc m" using assms by (cases n) auto
  then show ?thesis using True assms by (simp add: mset_slots_Suc)
next
  case False
  then obtain m where n: "n = Suc m" "i \<le> m" using assms by (cases n) auto
  have "slots m (r[i := r ! n]) = (slots m r)[i - 1 := r ! n]"
    using assms by (cases r; cases i) (auto simp: slots_def take_update_swap)
  then have "mset (slots m (r[i := r ! n])) = add_mset (r ! n) (mset (slots m r) - {#r ! i#})"
    using assms n slots_nth [of m r i] by (simp add: mset_update)
  moreover have "r ! i \<in># mset (slots m r)" using assms n set_slots [of m r] by auto
  ultimately show ?thesis using assms n by (simp add: mset_slots_Suc)
qed

lemma queue_remove_mset:
  assumes "queue_wf q" "idx < elements q"
  shows "\<exists>x q'. queue_remove q idx = Some (x, q') \<and> queue_wf q' \<and> queue_cmp q' = queue_cmp q \<and>
     max_elements q' = max_elements q \<and> elements q' = elements q - 1 \<and>
     queue_mset q = add_mset x (queue_mset q')"
proof -
  obtain r where r: "root q = Some r" "length r = max_elements q + 1" "elements q \<le> max_elements q"
    using assms by (auto simp: queue_wf_def)
  let ?i = "idx + 1" and ?n = "elements q - 1"
  let ?r = "r[?i := r ! elements q]"
  let ?r' = "downheap_list (queue_cmp q) ?n ?r ?i"
  let ?q = "q\<lparr>root := Some ?r', elements := ?n\<rparr>"
  have res: "queue_remove q idx = Some (r ! ?i, ?q)"
    using r assms by (simp add: queue_remove_def downheap_def Let_def)
  have perm: "length ?r' = length ?r \<and> mset (slots ?n ?r') = mset (slots ?n ?r)"
  proof (cases "?i \<le> ?n")
    case True
    then have "permutes_slots ?n ?r ?r'" using r assms by (intro downheap_list_permutes) auto
    then show ?thesis using permutes_slots_mset [of ?n ?r ?r'] r assms by (simp add: permutes_slots_def)
  next
    case False
    then have i: "?i = Suc ?n" using assms by simp
    have "?n div 2 \<le> ?n" by simp
    then have leaf: "(0 < ?i \<and> ?i \<le> ?n div 2) = False" using i by simp
    have root_index: "(?i < ?i div 2) = False" by simp
    have sk: "sink_hole (queue_cmp q) ?n (?r ! ?i) True ?r ?i = (False, ?r, ?i)"
      by (subst sink_hole.simps) (simp only: leaf if_False)
    have "climb_hole (queue_cmp q) (?r ! ?i) ?i ?r ?i = ?r[?i := ?r ! ?i]"
      by (subst climb_hole.simps) (simp only: Let_def root_index if_False)
    then have "?r' = ?r" by (simp only: downheap_list_def Let_def sk prod.case if_False list_update_id)
    then show ?thesis by simp
  qed
  have "queue_mset q = add_mset (r ! ?i) (mset (slots ?n ?r))"
    using mset_slots_drop_slot [of ?i "elements q" r] r assms by (simp add: queue_mset_def)
  moreover have "queue_mset ?q = mset (slots ?n ?r)" using perm by (simp add: queue_mset_def)
  moreover have "queue_wf ?q" using perm r by (simp add: queue_wf_def)
  ultimately show ?thesis using res by force
qed

lemma queue_remove_top_spec:
  assumes "queue_ok cmp q" "0 < elements q"
  shows "\<exists>x q'. queue_remove q 0 = Some (x, q') \<and> queue_ok cmp q' \<and> max_elements q' = max_elements q \<and>
              elements q' = elements q - 1 \<and> queue_mset q = add_mset x (queue_mset q') \<and>
              (\<forall>y \<in># queue_mset q. cmp x y \<le> 0)"
proof -
  obtain r where r: "root q = Some r" "length r = max_elements q + 1" "elements q \<le> max_elements q"
    "heap_from cmp 1 (elements q) r" "queue_cmp q = cmp" "cmp_order cmp"
    "queue_mset q = mset (slots (elements q) r)" using assms(1) by (rule queue_okE)
  have "queue_wf q" using assms by (simp add: queue_ok_def)
  then obtain x q' where rem: "queue_remove q 0 = Some (x, q')" "queue_wf q'" "queue_cmp q' = queue_cmp q"
    "max_elements q' = max_elements q" "elements q' = elements q - 1" "queue_mset q = add_mset x (queue_mset q')"
    using queue_remove_mset assms by blast
  let ?n = "elements q - 1" and ?r = "r[1 := r ! elements q]"
  have x: "x = r ! 1" and root': "root q' = Some (downheap_list cmp ?n ?r 1)"
    using rem(1) r assms by (auto simp: queue_remove_def downheap_def Let_def split: if_splits)
  have "heap_from cmp 1 ?n (downheap_list cmp ?n ?r 1)"
  proof (cases "?n = 0")
    case False
    have "heap_from cmp (Suc 1) ?n ?r"
      using r(2,4) unfolding heap_from_def by (auto simp: nth_list_update)
    then show ?thesis using False r cmp_order.downheap_list_heap [OF r(6), of 1 ?n ?r] by simp
  qed (simp add: heap_from_def)
  then have "queue_ok cmp q'" using rem root' r by (simp add: queue_ok_def queue_heap_def)
  moreover have "\<forall>y \<in># queue_mset q. cmp x y \<le> 0"
    using cmp_order.heap_top_least [OF r(6,4)] r by (auto simp: x set_slots)
  ultimately show ?thesis using rem by blast
qed

lemma queue_fix_loop_spec:
  "queue_wf q \<Longrightarrow> cmp_order (queue_cmp q) \<Longrightarrow> i \<le> elements q \<Longrightarrow>
   root q = Some r \<Longrightarrow> heap_from (queue_cmp q) (Suc i) (elements q) r \<Longrightarrow>
   \<exists>q'. queue_fix_loop i q = Some q' \<and> queue_wf q' \<and> queue_heap q' \<and> queue_cmp q' = queue_cmp q \<and>
        elements q' = elements q \<and> queue_mset q' = queue_mset q"
proof (induction i arbitrary: q r)
  case 0
  then show ?case by (auto simp: queue_heap_def)
next
  case (Suc i)
  let ?n = "elements q" and ?cmp = "queue_cmp q"
  let ?r = "downheap_list ?cmp ?n r (Suc i)"
  let ?q = "q\<lparr>root := Some ?r\<rparr>"
  have len: "?n < length r" using Suc.prems by (auto simp: queue_wf_def)
  have step: "downheap q (Suc i) = Some ?q" using Suc.prems len by (simp add: downheap_def)
  have perm: "permutes_slots ?n r ?r" using Suc.prems len by (intro downheap_list_permutes) auto
  have heap: "heap_from ?cmp (Suc i) ?n ?r"
    using Suc.prems len by (intro cmp_order.downheap_list_heap) auto
  have wf: "queue_wf ?q" using Suc.prems perm by (auto simp: queue_wf_def permutes_slots_def)
  have "queue_mset ?q = queue_mset q"
    using permutes_slots_mset [OF perm len] Suc.prems by (simp add: queue_mset_def)
  moreover obtain q' where "queue_fix_loop i ?q = Some q'" "queue_wf q'" "queue_heap q'"
    "queue_cmp q' = ?cmp" "elements q' = ?n" "queue_mset q' = queue_mset ?q"
    using Suc.IH [of ?q ?r] Suc.prems wf heap by auto
  ultimately show ?case using step by auto
qed

subsection \<open>The contract of a bounded priority queue\<close>

text \<open>
  What the users of the queue rely on. \<open>drain\<close> is how a merge or a timer loop empties a queue;
  under the contract it delivers the contents in ascending order.
\<close>

locale priority_queue =
  fixes ok :: "'q \<Rightarrow> bool"
    and content :: "'q \<Rightarrow> 'e multiset"
    and cap :: "'q \<Rightarrow> nat"
    and ins :: "'q \<Rightarrow> 'e \<Rightarrow> 'q option"
    and pop :: "'q \<Rightarrow> ('e \<times> 'q) option"
    and cmp :: "'e \<Rightarrow> 'e \<Rightarrow> int"
  assumes ins: "ok q \<Longrightarrow> size (content q) < cap q \<Longrightarrow>
      \<exists>q'. ins q x = Some q' \<and> ok q' \<and> cap q' = cap q \<and> content q' = add_mset x (content q)"
    and pop: "ok q \<Longrightarrow> content q \<noteq> {#} \<Longrightarrow>
      \<exists>x q'. pop q = Some (x, q') \<and> ok q' \<and> cap q' = cap q \<and> content q = add_mset x (content q') \<and>
             (\<forall>y \<in># content q. cmp x y \<le> 0)"
begin

primrec fill :: "'e list \<Rightarrow> 'q \<Rightarrow> 'q option" where
  "fill [] q = Some q"
| "fill (x # xs) q = (case ins q x of None \<Rightarrow> None | Some q' \<Rightarrow> fill xs q')"

primrec drain :: "nat \<Rightarrow> 'q \<Rightarrow> 'e list option" where
  "drain 0 q = Some []"
| "drain (Suc n) q =
     (case pop q of None \<Rightarrow> None | Some (x, q') \<Rightarrow> map_option (Cons x) (drain n q'))"

lemma fill_ok:
  "ok q \<Longrightarrow> size (content q) + length xs \<le> cap q \<Longrightarrow>
   \<exists>q'. fill xs q = Some q' \<and> ok q' \<and> cap q' = cap q \<and> content q' = mset xs + content q"
proof (induction xs arbitrary: q)
  case (Cons x xs)
  obtain q' where q': "ins q x = Some q'" "ok q'" "cap q' = cap q" "content q' = add_mset x (content q)"
    using ins [of q x] Cons.prems by auto
  moreover have "size (content q') + length xs \<le> cap q'" using q' Cons.prems by simp
  ultimately show ?case using Cons.IH [of q'] by auto
qed simp

lemma drain_sorted:
  "ok q \<Longrightarrow> size (content q) = n \<Longrightarrow>
   \<exists>xs. drain n q = Some xs \<and> mset xs = content q \<and> sorted_wrt (\<lambda>a b. cmp a b \<le> 0) xs"
proof (induction n arbitrary: q)
  case (Suc n)
  then have "content q \<noteq> {#}" by auto
  then obtain x q' where x: "pop q = Some (x, q')" "ok q'" "content q = add_mset x (content q')"
    "\<forall>y \<in># content q. cmp x y \<le> 0" using pop [of q] Suc.prems by blast
  moreover have "size (content q') = n" using x Suc.prems by simp
  ultimately obtain xs where "drain n q' = Some xs" "mset xs = content q'" "sorted_wrt (\<lambda>a b. cmp a b \<le> 0) xs"
    using Suc.IH by blast
  then show ?case using x by (auto simp flip: set_mset_mset)
qed simp

end

lemma size_queue_mset: "queue_wf q \<Longrightarrow> size (queue_mset q) = elements q"
  by (auto simp: queue_wf_def queue_mset_def)

interpretation pq: priority_queue "queue_ok cmp" queue_mset max_elements queue_insert
  "\<lambda>q. queue_remove q 0" cmp for cmp
proof
  fix q :: "'a queue" and x assume ok: "queue_ok cmp q" and "size (queue_mset q) < max_elements q"
  then have "elements q < max_elements q" by (simp add: size_queue_mset queue_ok_def)
  then show "\<exists>q'. queue_insert q x = Some q' \<and> queue_ok cmp q' \<and> max_elements q' = max_elements q \<and>
      queue_mset q' = add_mset x (queue_mset q)"
    using queue_insert_spec [OF ok] by blast
next
  fix q :: "'a queue" assume ok: "queue_ok cmp q" and "queue_mset q \<noteq> {#}"
  moreover have "size (queue_mset q) = elements q" using ok by (simp add: size_queue_mset queue_ok_def)
  ultimately have "0 < elements q" by (metis gr0I size_eq_0_iff_empty)
  then show "\<exists>x q'. queue_remove q 0 = Some (x, q') \<and> queue_ok cmp q' \<and> max_elements q' = max_elements q \<and>
      queue_mset q = add_mset x (queue_mset q') \<and> (\<forall>y \<in># queue_mset q. cmp x y \<le> 0)"
    using queue_remove_top_spec [OF ok] by blast
qed

subsection \<open>Growing\<close>

text \<open>The documented behaviour of \<open>realloc\<close>: a block of the requested size that starts with the old contents.\<close>

definition realloc_ok :: "(nat list option \<Rightarrow> nat \<Rightarrow> nat list option) \<Rightarrow> bool" where
  "realloc_ok re \<longleftrightarrow>
     (\<forall>old n new. re (Some old) n = Some new \<longrightarrow>
        length new = n \<and> take (min (length old) n) new = take (min (length old) n) old)"

lemma realloc_ok_nth:
  "realloc_ok re \<Longrightarrow> re (Some old) n = Some new \<Longrightarrow> i < length old \<Longrightarrow> i < n \<Longrightarrow> new ! i = old ! i"
  unfolding realloc_ok_def by (metis min_less_iff_conj nth_take)

lemma queue_slots_small: "n + 1 < 2 ^ 30 \<Longrightarrow> queue_slots n = n + 1"
  by (simp add: queue_slots_def)

text \<open>With 2^30 slots the size in bytes is 2^32, and the block has none of them.\<close>

lemma queue_slots_wraps: "queue_slots (2 ^ 30 - 1) = 0"
  by (simp add: queue_slots_def)

lemma resize_queue_spec:
  assumes "queue_ok cmp q" "realloc_ok re" "resize_queue re q n = (err, q')" "n + 1 < 2 ^ 30"
  shows "queue_ok cmp q' \<and> (err = 0 \<longrightarrow> max_elements q' = n \<and> elements q' = min (elements q) n) \<and>
         (err \<noteq> 0 \<longrightarrow> q' = q \<and> err = 1) \<and> (elements q \<le> n \<longrightarrow> queue_mset q' = queue_mset q) \<and>
         (err = 0 \<longleftrightarrow> max_elements q = n \<or> re (root q) (n + 1) \<noteq> None)"
proof -
  obtain r where r: "root q = Some r" "length r = max_elements q + 1" "elements q \<le> max_elements q"
    "heap_from cmp 1 (elements q) r" "queue_cmp q = cmp" "cmp_order cmp"
    "queue_mset q = mset (slots (elements q) r)" using assms(1) by (rule queue_okE)
  note sz = queue_slots_small [OF assms(4)]
  show ?thesis
  proof (cases "max_elements q = n \<or> re (root q) (n + 1) = None")
    case True
    then have "q' = q \<and> err = (if max_elements q = n then 0 else 1)"
      using assms(3) by (auto simp: resize_queue_def sz split: if_splits)
    then show ?thesis using True assms(1) r by auto
  next
    case False
    then obtain new where new: "re (Some r) (n + 1) = Some new" using r by auto
    let ?k = "min (elements q) n"
    have len: "length new = n + 1" using assms(2) new by (auto simp: realloc_ok_def)
    have nth: "\<And>i. i \<le> ?k \<Longrightarrow> new ! i = r ! i"
      using realloc_ok_nth [OF assms(2) new] r by simp
    have q': "q' = q\<lparr>elements := ?k, max_elements := n, root := Some new\<rparr>" and err: "err = 0"
      using assms(3) False new r by (auto simp: resize_queue_def sz min_def)
    have "heap_from cmp 1 ?k new"
      by (rule heap_from_prefix [OF r(4)]) (use nth in auto)
    then have "queue_ok cmp q'"
      unfolding q' by (intro queue_okI [where r = new]) (use r len in auto)
    moreover have "slots (elements q) new = slots (elements q) r" if "elements q \<le> n"
    proof (rule nth_equalityI)
      fix i assume "i < length (slots (elements q) new)"
      then show "slots (elements q) new ! i = slots (elements q) r ! i"
        using that len r nth [of "Suc i"] slots_nth [of "elements q" new "Suc i"]
          slots_nth [of "elements q" r "Suc i"] by simp
    qed (use that len r in simp)
    ultimately show ?thesis using q' err r new False by (auto simp: queue_mset_def min_def)
  qed
qed

text \<open>The code \<open>queue_insert_safe\<close> documents for each situation.\<close>

definition insert_safe_code :: "(nat list option \<Rightarrow> nat \<Rightarrow> nat list option) \<Rightarrow> 'arg queue \<Rightarrow> int" where
  "insert_safe_code re q =
     (if \<not> queue_is_full q then 0
      else if auto_extent q = 0 then 2
      else if re (root q) (max_elements q + auto_extent q + 1) = None then 1 else 0)"

lemma queue_insert_safe_spec:
  assumes ok: "queue_ok cmp q" and re: "realloc_ok re"
    and small: "queue_is_full q \<Longrightarrow> max_elements q + auto_extent q + 1 < 2 ^ 30"
  shows "\<exists>q'. queue_insert_safe re q x = Some (insert_safe_code re q, q') \<and>
     (if insert_safe_code re q = 0
      then queue_ok cmp q' \<and> elements q' = Suc (elements q) \<and> queue_mset q' = add_mset x (queue_mset q) \<and>
        max_elements q' = max_elements q + (if queue_is_full q then auto_extent q else 0)
      else q' = q)"
proof (cases "queue_is_full q \<and> auto_extent q \<noteq> 0")
  case grow: True
  let ?n = "max_elements q + auto_extent q"
  have n: "?n mod 2 ^ 32 = ?n" "?n + 1 < 2 ^ 30" using small grow by simp_all
  obtain err q1 where rs: "resize_queue re q ?n = (err, q1)" by fastforce
  note spec = resize_queue_spec [OF ok re rs n(2)]
  have full: "elements q = max_elements q" using grow by (simp add: queue_is_full_def)
  have code: "insert_safe_code re q = err" using spec grow by (auto simp: insert_safe_code_def)
  show ?thesis
  proof (cases "err = 0")
    case True
    then have "elements q1 < max_elements q1" "queue_mset q1 = queue_mset q" "max_elements q1 = ?n" "elements q1 = elements q"
      using spec grow full by auto
    moreover from this(1) obtain q' where "queue_insert q1 x = Some q'" "queue_ok cmp q'" "max_elements q' = max_elements q1"
      "elements q' = Suc (elements q1)" "queue_mset q' = add_mset x (queue_mset q1)"
      using queue_insert_spec [of cmp q1 x] spec by auto
    ultimately show ?thesis using True grow full rs code n(1) by (auto simp: queue_insert_safe_def)
  next
    case False
    then show ?thesis using grow full rs code n(1) spec by (auto simp: queue_insert_safe_def)
  qed
next
  case False
  show ?thesis
  proof (cases "queue_is_full q")
    case True
    then show ?thesis using False by (simp add: queue_insert_safe_def queue_is_full_def insert_safe_code_def)
  next
    case room: False
    moreover have "elements q \<le> max_elements q" using ok by (simp add: queue_ok_def queue_wf_def)
    ultimately have "elements q < max_elements q" by (simp add: queue_is_full_def)
    then show ?thesis using room queue_insert_spec [OF ok, of x]
      by (auto simp: queue_insert_safe_def queue_is_full_def insert_safe_code_def)
  qed
qed

subsection \<open>Properties\<close>

text \<open>Pointers compared by their numeric value, and a queue of capacity six on that order.\<close>

definition ptr_diff :: "unit \<Rightarrow> nat \<Rightarrow> nat \<Rightarrow> int" where
  "ptr_diff _ a b = int a - int b"

definition sample_queue :: "nat list \<Rightarrow> nat \<Rightarrow> unit queue" where
  "sample_queue r n =
     \<lparr>root = Some r, first_cmp_arg = (), elements = n, max_elements = 6, offset_to_key = 0,
      max_at_top = 1, compare = ptr_diff, auto_extent = 0\<rparr>"

lemma sample_queue_cmp: "queue_cmp (sample_queue r n) = (\<lambda>a b. int a - int b)"
  by (simp add: queue_cmp_def sample_queue_def ptr_diff_def fun_eq_iff)

lemma sample_order: "cmp_order (\<lambda>a b. int a - int b)"
  by unfold_locales auto

lemma sample_queue_ok:
  "length r = 7 \<Longrightarrow> n \<le> 6 \<Longrightarrow> heap_from (\<lambda>a b. int a - int b) 1 n r \<Longrightarrow>
   queue_ok (\<lambda>a b. int a - int b) (sample_queue r n)"
  by (rule queue_okI [where r = r])
     (simp_all add: sample_order sample_queue_cmp, simp_all add: sample_queue_def)

text \<open>
  C14: inserting into a queue that is not full ends, keeps the heap order and adds exactly the new
  element.
\<close>

theorem queue_insert_correct:
  assumes "queue_ok cmp q" "elements q < max_elements q"
  shows "\<exists>q'. queue_insert q x = Some q' \<and> queue_ok cmp q' \<and> elements q' = Suc (elements q) \<and>
              queue_mset q' = add_mset x (queue_mset q)"
  using queue_insert_spec [OF assms] by blast

theorem queue_insert_correct_witness:
  "\<exists>q'. queue_insert (sample_queue [0, 4, 9, 7, 0, 0, 0] 3) 2 = Some q' \<and>
        queue_ok (\<lambda>a b. int a - int b) q' \<and> elements q' = 4 \<and>
        queue_mset q' = add_mset 2 (queue_mset (sample_queue [0, 4, 9, 7, 0, 0, 0] 3))"
proof -
  have "queue_ok (\<lambda>a b. int a - int b) (sample_queue [0, 4, 9, 7, 0, 0, 0] 3)"
    by (rule sample_queue_ok) (simp_all, code_simp)
  then show ?thesis using queue_insert_correct [of _ "sample_queue [0, 4, 9, 7, 0, 0, 0] 3" 2]
    by (simp add: sample_queue_def)
qed

text \<open>
  C15: \<open>queue_remove\<close> at the top returns an element that is not above any other, removes exactly
  that element and keeps the heap order.
\<close>

theorem queue_remove_top_correct:
  assumes "queue_ok cmp q" "0 < elements q"
  shows "\<exists>x q'. queue_remove q 0 = Some (x, q') \<and> queue_top q = Some x \<and> queue_ok cmp q' \<and>
              queue_mset q = add_mset x (queue_mset q') \<and> (\<forall>y \<in># queue_mset q. cmp x y \<le> 0)"
proof -
  obtain x q' where "queue_remove q 0 = Some (x, q')" "queue_ok cmp q'"
    "queue_mset q = add_mset x (queue_mset q')" "\<forall>y \<in># queue_mset q. cmp x y \<le> 0"
    using queue_remove_top_spec [OF assms] by blast
  moreover from this(1) have "queue_top q = Some x"
    by (auto simp: queue_remove_def queue_top_def Let_def split: option.splits if_splits)
  ultimately show ?thesis by blast
qed

theorem queue_remove_top_correct_witness:
  "\<exists>x q'. queue_remove (sample_queue [0, 4, 9, 7, 0, 0, 0] 3) 0 = Some (x, q') \<and>
        queue_ok (\<lambda>a b. int a - int b) q' \<and> x = 4"
proof -
  have "queue_ok (\<lambda>a b. int a - int b) (sample_queue [0, 4, 9, 7, 0, 0, 0] 3)"
    by (rule sample_queue_ok) (simp_all, code_simp)
  then show ?thesis using queue_remove_top_correct [of _ "sample_queue [0, 4, 9, 7, 0, 0, 0] 3"]
    by (auto simp: sample_queue_def queue_top_def)
qed

text \<open>
  C25: \<open>queue_fix\<close> turns any array contents into a heap of the same elements.
\<close>

theorem queue_fix_correct:
  assumes "queue_wf q" "cmp_order (queue_cmp q)"
  shows "\<exists>q'. queue_fix q = Some q' \<and> queue_wf q' \<and> queue_heap q' \<and> queue_mset q' = queue_mset q"
proof -
  obtain r where r: "root q = Some r" using assms by (auto simp: queue_wf_def)
  have "heap_from (queue_cmp q) (Suc (elements q div 2)) (elements q) r"
    by (auto simp: heap_from_def dest: div_le_mono [where k = 2])
  then show ?thesis using queue_fix_loop_spec [OF assms _ r, of "elements q div 2"]
    by (auto simp: queue_fix_def)
qed

theorem queue_fix_correct_witness:
  "\<exists>q'. queue_fix (sample_queue [0, 9, 3, 7, 1, 2, 5] 6) = Some q' \<and> queue_heap q'"
proof -
  have "queue_wf (sample_queue [0, 9, 3, 7, 1, 2, 5] 6)"
    by (simp add: queue_wf_def sample_queue_def)
  then show ?thesis using queue_fix_correct [of "sample_queue [0, 9, 3, 7, 1, 2, 5] 6"]
    by (auto simp: sample_queue_cmp sample_order)
qed

text \<open>
  C29: removing below the top can break the heap order: the last element takes the free slot and
  \<open>_downheap\<close> only moves it down, while it may belong above the slot's parent.
\<close>

theorem queue_remove_breaks_heap:
  "\<exists>(q :: unit queue) x q'. queue_ok (\<lambda>a b. int a - int b) q \<and> queue_remove q 3 = Some (x, q') \<and> 3 < elements q \<and>
            queue_wf q' \<and> \<not> queue_heap q'"
proof -
  let ?q = "sample_queue [0, 1, 5, 2, 6, 7, 3] 6" and ?q' = "sample_queue [0, 1, 5, 2, 3, 7, 3] 5"
  have "queue_ok (\<lambda>a b. int a - int b) ?q"
    by (rule sample_queue_ok) (simp_all, code_simp)
  moreover have "queue_remove ?q 3 = Some (6, ?q')"
  proof -
    have "downheap_list (\<lambda>a b. int a - int b) 5 [0, 1, 5, 2, 3, 7, 3] 4 = [0, 1, 5, 2, 3, 7, 3]"
      by code_simp
    then show ?thesis
      using sample_queue_cmp [of "[0, 1, 5, 2, 3, 7, 3]" 5]
      by (simp add: queue_remove_def downheap_def sample_queue_def Let_def)
  qed
  moreover have "\<not> heap_from (\<lambda>a b. int a - int b) 1 5 [0, 1, 5, 2, 3, 7, 3]" by code_simp
  then have "\<not> queue_heap ?q'" by (simp add: queue_heap_def sample_queue_cmp) (simp add: sample_queue_def)
  moreover have "queue_wf ?q'" by (simp add: queue_wf_def sample_queue_def)
  moreover have "3 < elements ?q" by (simp add: sample_queue_def)
  ultimately show ?thesis by blast
qed

text \<open>
  C26: \<open>queue_insert_safe\<close> returns exactly the documented code: 2 for a full queue without \<open>auto_extent\<close>, 1 for a
  full queue that cannot be grown, and 0 otherwise. With 0 the element, and nothing else, has been added to a queue
  in heap order, which has grown by \<open>auto_extent\<close> if it was full; with 1 and 2 the queue is unchanged. A queue that is to be
  grown must stay below 2^30 slots, from where on their size in bytes wraps around.
\<close>

theorem queue_insert_safe_correct:
  assumes "queue_ok cmp q" "realloc_ok re" "queue_is_full q \<Longrightarrow> max_elements q + auto_extent q + 1 < 2 ^ 30"
  shows "\<exists>code q'. queue_insert_safe re q x = Some (code, q') \<and>
     code = (if \<not> queue_is_full q then 0
             else if auto_extent q = 0 then 2
             else if re (root q) (max_elements q + auto_extent q + 1) = None then 1 else 0) \<and>
     (code = 0 \<longrightarrow> queue_ok cmp q' \<and> elements q' = Suc (elements q) \<and> queue_mset q' = add_mset x (queue_mset q) \<and>
        max_elements q' = max_elements q + (if queue_is_full q then auto_extent q else 0)) \<and>
     (code \<noteq> 0 \<longrightarrow> q' = q)"
proof -
  obtain q' where "queue_insert_safe re q x = Some (insert_safe_code re q, q')"
    "if insert_safe_code re q = 0
      then queue_ok cmp q' \<and> elements q' = Suc (elements q) \<and> queue_mset q' = add_mset x (queue_mset q) \<and>
        max_elements q' = max_elements q + (if queue_is_full q then auto_extent q else 0)
      else q' = q"
    using queue_insert_safe_spec [OF assms] by blast
  then show ?thesis
    by (intro exI [of _ "insert_safe_code re q"] exI [of _ q']) (auto simp: insert_safe_code_def)
qed

theorem queue_insert_safe_correct_witness:
  "\<exists>q'. queue_insert_safe (\<lambda>p n. Some (take n (case p of None \<Rightarrow> [] | Some old \<Rightarrow> old) @
                              replicate (n - length (case p of None \<Rightarrow> [] | Some old \<Rightarrow> old)) 0))
        ((sample_queue [0, 1, 5, 2, 6, 7, 3] 6)\<lparr>auto_extent := 4\<rparr>) 4 = Some (0, q') \<and>
        queue_ok (\<lambda>a b. int a - int b) q' \<and> max_elements q' = 10"
proof -
  let ?q = "(sample_queue [0, 1, 5, 2, 6, 7, 3] 6)\<lparr>auto_extent := 4\<rparr>"
  let ?re = "\<lambda>p n. Some (take n (case p of None \<Rightarrow> [] | Some old \<Rightarrow> old) @
                replicate (n - length (case p of None \<Rightarrow> [] | Some old \<Rightarrow> old)) 0)"
  have "queue_ok (\<lambda>a b. int a - int b) (sample_queue [0, 1, 5, 2, 6, 7, 3] 6)"
    by (rule sample_queue_ok) (simp_all, code_simp)
  then have "queue_ok (\<lambda>a b. int a - int b) ?q"
    by (auto simp: queue_ok_def queue_wf_def queue_heap_def)
  moreover have "realloc_ok ?re" by (auto simp: realloc_ok_def min_def)
  moreover have "max_elements ?q = 6" "elements ?q = 6" "auto_extent ?q = 4" by (simp_all add: sample_queue_def)
  ultimately show ?thesis
    using queue_insert_safe_correct [of "\<lambda>a b. int a - int b" ?q ?re 4] by (auto simp: queue_is_full_def)
qed

end
