(* ===== verification/Ptr_Cmp.thy ===== *)
theory Ptr_Cmp
  imports Bytes Queues
begin

text \<open>
  Key comparison and stored file pointers: \<^verbatim>\<open>mysys/ptr_cmp.c\<close> with the high-byte-first macros of
  \<^verbatim>\<open>include/myisampack.h\<close>. The four unrolled comparison loops are modelled with their reads (one past
  the end is \<^const>\<open>None\<close>) and shown equal to one byte-by-byte reference; the stored pointers are shown
  to read back and to compare, as byte strings, the way their values do. The comparison is an order on
  equally long keys, which is what the priority queue asks of its \<open>compare\<close> function.
\<close>

subsection \<open>High-byte-first integers\<close>

fun mi_uint2korr :: "bytes \<Rightarrow> uint16 option" where
  "mi_uint2korr (a0 # a1 # _) = Some (ucast a1 + push_bit 8 (ucast a0))"
| "mi_uint2korr _ = None"

fun mi_uint3korr :: "bytes \<Rightarrow> uint32 option" where
  "mi_uint3korr (a0 # a1 # a2 # _) = Some (ucast a2 + push_bit 8 (ucast a1) + push_bit 16 (ucast a0))"
| "mi_uint3korr _ = None"

fun mi_uint4korr :: "bytes \<Rightarrow> uint32 option" where
  "mi_uint4korr (a0 # a1 # a2 # a3 # _) =
     Some (ucast a3 + push_bit 8 (ucast a2) + push_bit 16 (ucast a1) + push_bit 24 (ucast a0))"
| "mi_uint4korr _ = None"

fun mi_uint5korr :: "bytes \<Rightarrow> ulonglong option" where
  "mi_uint5korr (a0 # a1 # a2 # a3 # a4 # _) =
     Some (ucast (ucast a4 + push_bit 8 (ucast a3) + push_bit 16 (ucast a2) + push_bit 24 (ucast a1) :: uint32)
           + push_bit 32 (ucast a0))"
| "mi_uint5korr _ = None"

fun mi_uint6korr :: "bytes \<Rightarrow> ulonglong option" where
  "mi_uint6korr (a0 # a1 # a2 # a3 # a4 # a5 # _) =
     Some (ucast (ucast a5 + push_bit 8 (ucast a4) + push_bit 16 (ucast a3) + push_bit 24 (ucast a2) :: uint32)
           + push_bit 32 (ucast (ucast a1 + push_bit 8 (ucast a0) :: uint32)))"
| "mi_uint6korr _ = None"

fun mi_uint7korr :: "bytes \<Rightarrow> ulonglong option" where
  "mi_uint7korr (a0 # a1 # a2 # a3 # a4 # a5 # a6 # _) =
     Some (ucast (ucast a6 + push_bit 8 (ucast a5) + push_bit 16 (ucast a4) + push_bit 24 (ucast a3) :: uint32)
           + push_bit 32 (ucast (ucast a2 + push_bit 8 (ucast a1) + push_bit 16 (ucast a0) :: uint32)))"
| "mi_uint7korr _ = None"

fun mi_uint8korr :: "bytes \<Rightarrow> ulonglong option" where
  "mi_uint8korr (a0 # a1 # a2 # a3 # a4 # a5 # a6 # a7 # _) =
     Some (ucast (ucast a7 + push_bit 8 (ucast a6) + push_bit 16 (ucast a5) + push_bit 24 (ucast a4) :: uint32)
           + push_bit 32 (ucast (ucast a3 + push_bit 8 (ucast a2) + push_bit 16 (ucast a1)
                                 + push_bit 24 (ucast a0) :: uint32)))"
| "mi_uint8korr _ = None"

definition mi_int2store :: "uint32 \<Rightarrow> bytes" where
  "mi_int2store A = [ucast (drop_bit 8 A), ucast A]"

definition mi_int3store :: "ulong \<Rightarrow> bytes" where
  "mi_int3store A = [ucast (drop_bit 16 A), ucast (drop_bit 8 A), ucast A]"

definition mi_int4store :: "ulong \<Rightarrow> bytes" where
  "mi_int4store A = [ucast (drop_bit 24 A), ucast (drop_bit 16 A), ucast (drop_bit 8 A), ucast A]"

definition mi_int5store :: "ulonglong \<Rightarrow> bytes" where
  "mi_int5store A =
     (let def_temp = ucast A :: ulong; def_temp2 = ucast (drop_bit 32 A) :: ulong
      in [ucast def_temp2,
          ucast (drop_bit 24 def_temp), ucast (drop_bit 16 def_temp), ucast (drop_bit 8 def_temp), ucast def_temp])"

definition mi_int6store :: "ulonglong \<Rightarrow> bytes" where
  "mi_int6store A =
     (let def_temp = ucast A :: ulong; def_temp2 = ucast (drop_bit 32 A) :: ulong
      in [ucast (drop_bit 8 def_temp2), ucast def_temp2,
          ucast (drop_bit 24 def_temp), ucast (drop_bit 16 def_temp), ucast (drop_bit 8 def_temp), ucast def_temp])"

definition mi_int7store :: "ulonglong \<Rightarrow> bytes" where
  "mi_int7store A =
     (let def_temp = ucast A :: ulong; def_temp2 = ucast (drop_bit 32 A) :: ulong
      in [ucast (drop_bit 16 def_temp2), ucast (drop_bit 8 def_temp2), ucast def_temp2,
          ucast (drop_bit 24 def_temp), ucast (drop_bit 16 def_temp), ucast (drop_bit 8 def_temp), ucast def_temp])"

definition mi_int8store :: "ulonglong \<Rightarrow> bytes" where
  "mi_int8store A =
     (let def_temp3 = ucast A; def_temp4 = ucast (drop_bit 32 A)
      in mi_int4store def_temp4 @ mi_int4store def_temp3)"

text \<open>
  The flag is \<open>SIZEOF_OFF_T > 4\<close>, which decides at compile time whether the wide cases exist; a
  length outside the cases only fails an assertion, which a release build leaves out: nothing is stored,
  and 0 is read.
\<close>

definition my_store_ptr :: "bool \<Rightarrow> nat \<Rightarrow> ulonglong \<Rightarrow> bytes option" where
  "my_store_ptr wide_off_t pack_length p =
     (if wide_off_t \<and> pack_length = 8 then Some (mi_int8store p)
      else if wide_off_t \<and> pack_length = 7 then Some (mi_int7store p)
      else if wide_off_t \<and> pack_length = 6 then Some (mi_int6store p)
      else if wide_off_t \<and> pack_length = 5 then Some (mi_int5store p)
      else if pack_length = 4 then Some (mi_int4store (ucast p))
      else if pack_length = 3 then Some (mi_int3store (ucast p))
      else if pack_length = 2 then Some (mi_int2store (ucast p))
      else if pack_length = 1 then Some [ucast p]
      else Some [])"

definition my_get_ptr :: "bool \<Rightarrow> bytes \<Rightarrow> nat \<Rightarrow> ulonglong option" where
  "my_get_ptr wide_off_t ptr pack_length =
     (if wide_off_t \<and> pack_length = 8 then mi_uint8korr ptr
      else if wide_off_t \<and> pack_length = 7 then mi_uint7korr ptr
      else if wide_off_t \<and> pack_length = 6 then mi_uint6korr ptr
      else if wide_off_t \<and> pack_length = 5 then mi_uint5korr ptr
      else if pack_length = 4 then map_option ucast (mi_uint4korr ptr)
      else if pack_length = 3 then map_option ucast (mi_uint3korr ptr)
      else if pack_length = 2 then map_option ucast (mi_uint2korr ptr)
      else if pack_length = 1 then (case ptr of [] \<Rightarrow> None | a # _ \<Rightarrow> Some (ucast a))
      else Some 0)"

subsection \<open>The comparison functions\<close>

text \<open>
  A pointer is the list of bytes from it to the end of its buffer. \<open>cmp n first lst k\<close> is the macro
  \<open>cmp(N)\<close> followed by \<open>k\<close>.
\<close>

definition cmp :: "nat \<Rightarrow> bytes \<Rightarrow> bytes \<Rightarrow> int option \<Rightarrow> int option" where
  "cmp n first lst k =
     (if n < length first \<and> n < length lst then
        if first ! n \<noteq> lst ! n then Some (int (unat (first ! n)) - int (unat (lst ! n))) else k
      else None)"

lemma cmp_cong [fundef_cong]:
  "n = n' \<Longrightarrow> first = first' \<Longrightarrow> lst = lst' \<Longrightarrow>
   (n' < length first' \<Longrightarrow> n' < length lst' \<Longrightarrow> k = k') \<Longrightarrow> cmp n first lst k = cmp n' first' lst' k'"
  by (simp add: cmp_def)

fun ptr_compare_loop :: "int \<Rightarrow> bytes \<Rightarrow> bytes \<Rightarrow> int option" where
  "ptr_compare_loop len (f # first) (l # lst) =
     (let len = len - 1 in
      if len \<noteq> 0 then
        if f \<noteq> l then Some (int (unat f) - int (unat l)) else ptr_compare_loop len first lst
      else Some (int (unat f) - int (unat l)))"
| "ptr_compare_loop len _ _ = None"

definition ptr_compare :: "nat \<Rightarrow> bytes \<Rightarrow> bytes \<Rightarrow> int option" where
  "ptr_compare compare_length a b = ptr_compare_loop (int compare_length) a b"

function ptr_compare_unrolled :: "int \<Rightarrow> bytes \<Rightarrow> bytes \<Rightarrow> int option" where
  "ptr_compare_unrolled len first lst =
     cmp 0 first lst (cmp 1 first lst (cmp 2 first lst (cmp 3 first lst
       (if len - 4 \<noteq> 0 then ptr_compare_unrolled (len - 4) (drop 4 first) (drop 4 lst) else Some 0))))"
  by auto
termination
  by (relation "measure (\<lambda>(len, first, lst). length first)") auto

declare ptr_compare_unrolled.simps [simp del]

definition ptr_compare_0 :: "nat \<Rightarrow> bytes \<Rightarrow> bytes \<Rightarrow> int option" where
  "ptr_compare_0 compare_length a b = ptr_compare_unrolled (int compare_length) a b"

definition ptr_compare_1 :: "nat \<Rightarrow> bytes \<Rightarrow> bytes \<Rightarrow> int option" where
  "ptr_compare_1 compare_length a b =
     cmp 0 a b (ptr_compare_unrolled (int compare_length - 1) (drop 1 a) (drop 1 b))"

definition ptr_compare_2 :: "nat \<Rightarrow> bytes \<Rightarrow> bytes \<Rightarrow> int option" where
  "ptr_compare_2 compare_length a b =
     cmp 0 a b (cmp 1 a b (ptr_compare_unrolled (int compare_length - 2) (drop 2 a) (drop 2 b)))"

definition ptr_compare_3 :: "nat \<Rightarrow> bytes \<Rightarrow> bytes \<Rightarrow> int option" where
  "ptr_compare_3 compare_length a b =
     cmp 0 a b (cmp 1 a b (cmp 2 a b (ptr_compare_unrolled (int compare_length - 3) (drop 3 a) (drop 3 b))))"

definition get_ptr_compare :: "nat \<Rightarrow> nat \<Rightarrow> bytes \<Rightarrow> bytes \<Rightarrow> int option" where
  "get_ptr_compare sz =
     (if sz < 4 then ptr_compare
      else if sz mod 4 = 0 then ptr_compare_0
      else if sz mod 4 = 1 then ptr_compare_1
      else if sz mod 4 = 2 then ptr_compare_2
      else ptr_compare_3)"

subsection \<open>The reference comparison\<close>

fun byte_diff :: "bytes \<Rightarrow> bytes \<Rightarrow> int" where
  "byte_diff (f # fs) (l # ls) = (if f \<noteq> l then int (unat f) - int (unat l) else byte_diff fs ls)"
| "byte_diff _ _ = 0"

lemma cmp_Cons [simp]:
  "cmp 0 (f # fs) (l # ls) k = (if f \<noteq> l then Some (int (unat f) - int (unat l)) else k)"
  "cmp (Suc n) (f # fs) (l # ls) k = cmp n fs ls k"
  by (simp_all add: cmp_def)

lemma ptr_compare_loop_diff:
  "0 < n \<Longrightarrow> n \<le> length a \<Longrightarrow> n \<le> length b \<Longrightarrow>
   ptr_compare_loop (int n) a b = Some (byte_diff (take n a) (take n b))"
proof (induction n arbitrary: a b)
  case (Suc n)
  then obtain f fs l ls where "a = f # fs" "b = l # ls" by (metis Suc_le_length_iff)
  with Suc show ?case by (cases "n = 0") auto
qed simp

lemma split_four:
  "4 \<le> length xs \<Longrightarrow> \<exists>x0 x1 x2 x3 r. xs = x0 # x1 # x2 # x3 # r"
  by (auto simp: numeral_eq_Suc Suc_le_length_iff)

lemma take_four: "take (4 + m) (x0 # x1 # x2 # x3 # r) = x0 # x1 # x2 # x3 # take m r"
  by (simp add: numeral_eq_Suc)

lemma ptr_compare_unrolled_diff:
  "0 < n \<Longrightarrow> 4 * n \<le> length a \<Longrightarrow> 4 * n \<le> length b \<Longrightarrow>
   ptr_compare_unrolled (int (4 * n)) a b = Some (byte_diff (take (4 * n) a) (take (4 * n) b))"
proof (induction n arbitrary: a b)
  case (Suc n)
  then have "4 \<le> length a" "4 \<le> length b" by auto
  then obtain f0 f1 f2 f3 fs l0 l1 l2 l3 ls where
    "a = f0 # f1 # f2 # f3 # fs" "b = l0 # l1 # l2 # l3 # ls"
    by (metis split_four)
  with Suc show ?case
    by (cases "n = 0"; subst ptr_compare_unrolled.simps) (simp_all add: numeral_2_eq_2 numeral_3_eq_3 take_four)
qed simp

lemma byte_diff_Cons_take:
  "a = f # fs \<Longrightarrow> b = l # ls \<Longrightarrow> byte_diff (take (Suc n) a) (take (Suc n) b) =
     (if f \<noteq> l then int (unat f) - int (unat l) else byte_diff (take n fs) (take n ls))"
  by simp

lemma cmp_diff:
  assumes "0 < length a" "0 < length b" "k = Some (byte_diff (take n (drop 1 a)) (take n (drop 1 b)))"
  shows "cmp 0 a b k = Some (byte_diff (take (Suc n) a) (take (Suc n) b))"
  using assms by (cases a; cases b) auto

lemma cmp_drop: "cmp n a b k = cmp 0 (drop n a) (drop n b) k"
  by (simp add: cmp_def)

lemma get_ptr_compare_diff:
  assumes "0 < n" "n \<le> length a" "n \<le> length b"
  shows "get_ptr_compare n n a b = Some (byte_diff (take n a) (take n b))"
proof (cases "n < 4")
  case True
  with assms show ?thesis by (simp add: get_ptr_compare_def ptr_compare_def ptr_compare_loop_diff)
next
  case False
  define k where "k = n div 4"
  have k: "0 < k" "n = 4 * k + n mod 4" "n mod 4 < 4" using False by (auto simp: k_def)
  have u: "ptr_compare_unrolled (int n - int m) (drop m a) (drop m b) =
      Some (byte_diff (take (4 * k) (drop m a)) (take (4 * k) (drop m b)))" if "n = 4 * k + m" for m
  proof -
    have "int n - int m = int (4 * k)" using that by simp
    then show ?thesis using ptr_compare_unrolled_diff [OF k(1), of "drop m a" "drop m b"] assms that by simp
  qed
  have step: "cmp 1 a b r = cmp 0 (drop 1 a) (drop 1 b) r"
    "cmp 2 a b r = cmp 0 (drop 1 (drop 1 a)) (drop 1 (drop 1 b)) r" for r
    using cmp_drop [of 1 a b r] cmp_drop [of 2 a b r] by (simp_all add: numeral_2_eq_2)
  consider "n mod 4 = 0" | "n mod 4 = 1" | "n mod 4 = 2" | "n mod 4 = 3" using k(3) by linarith
  then show ?thesis
  proof cases
    case 1
    with u [of 0] k False show ?thesis by (simp add: get_ptr_compare_def ptr_compare_0_def)
  next
    case 2
    with k have n: "n = 4 * k + 1" by simp
    have "ptr_compare_1 n a b = Some (byte_diff (take (Suc (4 * k)) a) (take (Suc (4 * k)) b))"
      unfolding ptr_compare_1_def by (rule cmp_diff) (use assms u [OF n] in auto)
    with 2 n False show ?thesis by (simp add: get_ptr_compare_def)
  next
    case 3
    with k have n: "n = 4 * k + 2" by simp
    have len: "0 < length (drop 1 a)" "0 < length (drop 1 b)" using assms n by auto
    have "ptr_compare_2 n a b = Some (byte_diff (take (Suc (Suc (4 * k))) a) (take (Suc (Suc (4 * k))) b))"
      unfolding ptr_compare_2_def step
      by (rule cmp_diff [OF _ _ cmp_diff [OF len]]) (use assms u [OF n] in \<open>auto simp: numeral_2_eq_2\<close>)
    with 3 n False show ?thesis by (simp add: get_ptr_compare_def)
  next
    case 4
    with k have n: "n = 4 * k + 3" by simp
    have len: "0 < length (drop 1 a)" "0 < length (drop 1 b)"
      "0 < length (drop 1 (drop 1 a))" "0 < length (drop 1 (drop 1 b))" using assms n by auto
    have "ptr_compare_3 n a b = Some (byte_diff (take (Suc (Suc (Suc (4 * k)))) a) (take (Suc (Suc (Suc (4 * k)))) b))"
      unfolding ptr_compare_3_def step
      by (rule cmp_diff [OF _ _ cmp_diff [OF len(1,2) cmp_diff [OF len(3,4)]]])
        (use assms u [OF n] in \<open>auto simp: numeral_3_eq_3\<close>)
    moreover have "Suc (Suc (Suc (4 * k))) = n" using n by simp
    ultimately show ?thesis using 4 False by (simp add: get_ptr_compare_def)
  qed
qed

subsection \<open>The comparison is the order of the values\<close>

lemma le_nat_rev_Cons: "le_nat (rev (f # fs)) = le_nat (rev fs) + 256 ^ length fs * unat f"
  by (simp add: le_nat_append)

lemma byte_diff_value:
  "length a = length b \<Longrightarrow>
   (byte_diff a b < 0 \<longleftrightarrow> le_nat (rev a) < le_nat (rev b)) \<and> (byte_diff a b = 0 \<longleftrightarrow> a = b)"
proof (induction a b rule: byte_diff.induct)
  case (1 f fs l ls)
  have less: "x + 256 ^ length ls * n < y + 256 ^ length ls * m"
    if "n < m" "x < 256 ^ length ls" for n m x y :: nat
  proof -
    have "x + 256 ^ length ls * n < 256 ^ length ls * Suc n" using that by simp
    also have "\<dots> \<le> 256 ^ length ls * m" using that by (intro mult_le_mono2) simp
    finally show ?thesis by simp
  qed
  have len: "length fs = length ls" using 1 by simp
  have b: "le_nat (rev fs) < 256 ^ length ls" "le_nat (rev ls) < 256 ^ length ls"
    using le_nat_bound [of "rev fs"] le_nat_bound [of "rev ls"] len by simp_all
  show ?case
  proof (cases "f = l")
    case True
    with 1 show ?thesis by (simp add: le_nat_append len)
  next
    case False
    then have "unat f < unat l \<or> unat l < unat f" by (metis linorder_neqE_nat unsigned_word_eqI)
    then show ?thesis
      using less [OF _ b(1), of "unat f" "unat l" "le_nat (rev ls)"]
        less [OF _ b(2), of "unat l" "unat f" "le_nat (rev fs)"] False
      by (auto simp: le_nat_append len simp del: of_nat_unat)
  qed
qed auto

lemma byte_diff_swap: "byte_diff a b = - byte_diff b a"
  by (induction a b rule: byte_diff.induct) (auto simp del: of_nat_unat)

lemma byte_diff_trans:
  assumes "length a = n" "length b = n" "length c = n" "byte_diff a b \<le> 0" "byte_diff b c \<le> 0"
  shows "byte_diff a c \<le> 0"
  using assms byte_diff_value [of b a] byte_diff_value [of c b] byte_diff_value [of c a]
    byte_diff_swap [of a b] byte_diff_swap [of b c] byte_diff_swap [of a c] by linarith

subsection \<open>Stored pointers\<close>

lemma mi_uint2korr_value [korr_simps]:
  "mi_uint2korr bs = (if length bs < 2 then None else Some (of_nat (le_nat (rev (take 2 bs)))))"
  by (cases bs rule: mi_uint2korr.cases) (auto simp: push_bit_eq_mult algebra_simps)

lemma mi_uint3korr_value [korr_simps]:
  "mi_uint3korr bs = (if length bs < 3 then None else Some (of_nat (le_nat (rev (take 3 bs)))))"
  by (cases bs rule: mi_uint3korr.cases) (auto simp: push_bit_eq_mult algebra_simps)

lemma mi_uint4korr_value [korr_simps]:
  "mi_uint4korr bs = (if length bs < 4 then None else Some (of_nat (le_nat (rev (take 4 bs)))))"
  by (cases bs rule: mi_uint4korr.cases) (auto simp: push_bit_eq_mult algebra_simps)

lemma ucast_pair:
  "(ucast (ucast a0 + push_bit 8 (ucast a1) :: uint32) :: ulonglong) = of_nat (le_nat [a0, a1])"
  using ucast_quad [of a0 a1 0 0] by simp

lemma ucast_triple:
  "(ucast (ucast a0 + push_bit 8 (ucast a1) + push_bit 16 (ucast a2) :: uint32) :: ulonglong)
     = of_nat (le_nat [a0, a1, a2])"
  using ucast_quad [of a0 a1 a2 0] by simp

lemma mi_uint5korr_value [korr_simps]:
  "mi_uint5korr bs = (if length bs < 5 then None else Some (of_nat (le_nat (rev (take 5 bs)))))"
  by (cases bs rule: mi_uint5korr.cases)
     (simp_all add: ucast_quad, simp_all add: push_bit_eq_mult algebra_simps)

lemma mi_uint6korr_value [korr_simps]:
  "mi_uint6korr bs = (if length bs < 6 then None else Some (of_nat (le_nat (rev (take 6 bs)))))"
  by (cases bs rule: mi_uint6korr.cases)
     (simp_all add: ucast_quad ucast_pair, simp_all add: push_bit_eq_mult algebra_simps)

lemma mi_uint7korr_value [korr_simps]:
  "mi_uint7korr bs = (if length bs < 7 then None else Some (of_nat (le_nat (rev (take 7 bs)))))"
  by (cases bs rule: mi_uint7korr.cases)
     (simp_all add: ucast_quad ucast_triple, simp_all add: push_bit_eq_mult algebra_simps)

lemma mi_uint8korr_value [korr_simps]:
  "mi_uint8korr bs = (if length bs < 8 then None else Some (of_nat (le_nat (rev (take 8 bs)))))"
  by (cases bs rule: mi_uint8korr.cases)
     (simp_all add: ucast_quad, simp_all add: push_bit_eq_mult algebra_simps)

lemma ucast_low_half:
  "k + 8 \<le> 32 \<Longrightarrow> (ucast (drop_bit k (ucast (A :: ulonglong) :: ulong)) :: uchar) = ucast (drop_bit k A)"
  by (rule bit_word_eqI) (simp add: bit_simps)

lemma ucast_high_half:
  "k + 8 \<le> 32 \<Longrightarrow>
   (ucast (drop_bit k (ucast (drop_bit 32 (A :: ulonglong)) :: ulong)) :: uchar) = ucast (drop_bit (32 + k) A)"
  by (rule bit_word_eqI) (simp add: bit_simps add.assoc)

lemmas ucast_halves =
  ucast_low_half [of 8] ucast_low_half [of 16] ucast_low_half [of 24] ucast_low_half [of 0, simplified]
  ucast_high_half [of 8] ucast_high_half [of 16] ucast_high_half [of 24] ucast_high_half [of 0, simplified]

lemma mi_int2store_bytes [store_simps]: "mi_int2store A = rev (le_bytes 2 (unat A))"
  by (simp add: mi_int2store_def le_bytes_unfold)

lemma mi_int3store_bytes [store_simps]: "mi_int3store A = rev (le_bytes 3 (unat A))"
  by (simp add: mi_int3store_def le_bytes_unfold)

lemma mi_int4store_bytes [store_simps]: "mi_int4store A = rev (le_bytes 4 (unat A))"
  by (simp add: mi_int4store_def le_bytes_unfold)

lemma mi_int5store_bytes [store_simps]: "mi_int5store A = rev (le_bytes 5 (unat A))"
  by (simp add: mi_int5store_def ucast_halves) (simp add: le_bytes_unfold)

lemma mi_int6store_bytes [store_simps]: "mi_int6store A = rev (le_bytes 6 (unat A))"
  by (simp add: mi_int6store_def ucast_halves) (simp add: le_bytes_unfold)

lemma mi_int7store_bytes [store_simps]: "mi_int7store A = rev (le_bytes 7 (unat A))"
  by (simp add: mi_int7store_def ucast_halves) (simp add: le_bytes_unfold)

lemma mi_int8store_bytes [store_simps]: "mi_int8store A = rev (le_bytes 8 (unat A))"
  by (simp add: mi_int8store_def mi_int4store_def ucast_halves) (simp add: le_bytes_unfold)

definition ptr_width :: "bool \<Rightarrow> nat \<Rightarrow> bool" where
  "ptr_width wide_off_t n \<longleftrightarrow> 1 \<le> n \<and> n \<le> (if wide_off_t then 8 else 4)"

lemma ptr_width_cases:
  assumes "ptr_width w n"
  obtains "n = 1" | "n = 2" | "n = 3" | "n = 4" | "w" "n = 5" | "w" "n = 6" | "w" "n = 7" | "w" "n = 8"
proof -
  have "n = 1 \<or> n = 2 \<or> n = 3 \<or> n = 4 \<or> w \<and> (n = 5 \<or> n = 6 \<or> n = 7 \<or> n = 8)"
    using assms by (cases w) (simp_all add: ptr_width_def, presburger+)
  then show thesis using that by blast
qed

lemma my_store_ptr_bytes: "ptr_width w n \<Longrightarrow> my_store_ptr w n p = Some (rev (le_bytes n (unat p)))"
proof -
  have low: "le_bytes k (unat (ucast p :: ulong)) = le_bytes k (unat p)" if "k \<le> 4" for k
    using le_bytes_mod [OF that, of "unat p"] by (simp add: unat_ucast_mod)
  assume "ptr_width w n"
  then show ?thesis
    by (cases rule: ptr_width_cases) (simp_all add: my_store_ptr_def store_simps low uchar_of_nat_mod)
qed

lemma my_get_ptr_value:
  "ptr_width w n \<Longrightarrow>
   my_get_ptr w bs n = (if length bs < n then None else Some (of_nat (le_nat (rev (take n bs)))))"
proof -
  have ucast: "(ucast (of_nat (le_nat (rev (take k bs))) :: 'a::len word) :: ulonglong) = of_nat (le_nat (rev (take k bs)))"
    if "8 * k \<le> LENGTH('a)" for k
  proof (rule ucast_of_nat_small)
    have "le_nat (rev (take k bs)) < 256 ^ length (rev (take k bs))" by (rule le_nat_bound)
    also have "\<dots> \<le> 256 ^ k" by (intro power_increasing) simp_all
    also have "\<dots> = 2 ^ (8 * k)" by (simp add: power_mult)
    also have "\<dots> \<le> 2 ^ LENGTH('a)" using that by (intro power_increasing) simp_all
    finally show "le_nat (rev (take k bs)) < 2 ^ LENGTH('a)" .
  qed
  assume "ptr_width w n"
  then show ?thesis
    by (cases rule: ptr_width_cases) (simp_all add: my_get_ptr_def korr_simps ucast split: list.split)
qed

subsection \<open>The comparison as the queue's order\<close>

text \<open>The keys the queue compares are \<open>n\<close> bytes of memory at the addresses it stores.\<close>

definition ptr_key_cmp :: "(nat \<Rightarrow> uchar) \<Rightarrow> nat \<Rightarrow> nat \<Rightarrow> nat \<Rightarrow> int" where
  "ptr_key_cmp mem n a b =
     (case get_ptr_compare n n (map mem [a..<a + n]) (map mem [b..<b + n]) of Some c \<Rightarrow> c | None \<Rightarrow> 0)"

lemma ptr_key_cmp_diff:
  "0 < n \<Longrightarrow> ptr_key_cmp mem n a b = byte_diff (map mem [a..<a + n]) (map mem [b..<b + n])"
  using get_ptr_compare_diff [of n "map mem [a..<a + n]" "map mem [b..<b + n]"]
  by (simp add: ptr_key_cmp_def)

lemma ptr_key_cmp_0: "ptr_key_cmp mem 0 a b = 0"
  by (simp add: ptr_key_cmp_def get_ptr_compare_def ptr_compare_def)

interpretation key: cmp_order "ptr_key_cmp mem n" for mem n
proof (cases "n = 0")
  case True
  then show "cmp_order (ptr_key_cmp mem n)" by unfold_locales (simp_all add: ptr_key_cmp_0)
next
  case False
  then have eq: "ptr_key_cmp mem n a b = byte_diff (map mem [a..<a + n]) (map mem [b..<b + n])" for a b
    by (simp add: ptr_key_cmp_diff)
  show "cmp_order (ptr_key_cmp mem n)"
  proof
    fix a b c
    show "ptr_key_cmp mem n a b < 0 \<longleftrightarrow> 0 < ptr_key_cmp mem n b a"
      unfolding eq by (subst byte_diff_swap) simp
    show "ptr_key_cmp mem n a c \<le> 0" if "ptr_key_cmp mem n a b \<le> 0" "ptr_key_cmp mem n b c \<le> 0"
      using that unfolding eq by (rule byte_diff_trans [rotated 3]) simp_all
  qed
qed

subsection \<open>Properties\<close>

text \<open>
  C19: On keys of at least the given positive length, the routine that \<open>get_ptr_compare\<close> selects reads
  nothing past the keys and orders them as the big-endian numbers their first \<open>n\<close> bytes spell; it
  returns 0 exactly for equal keys.
\<close>

theorem get_ptr_compare_correct:
  assumes "0 < n" "n \<le> length a" "n \<le> length b"
  shows "\<exists>c. get_ptr_compare n n a b = Some c \<and>
     (c < 0 \<longleftrightarrow> le_nat (rev (take n a)) < le_nat (rev (take n b))) \<and> (c = 0 \<longleftrightarrow> take n a = take n b)"
  using get_ptr_compare_diff [OF assms] byte_diff_value [of "take n a" "take n b"] assms by simp

theorem get_ptr_compare_correct_witness:
  "\<exists>c. get_ptr_compare 7 7 [1, 2, 3, 4, 5, 6, 7] [1, 2, 3, 4, 5, 200, 7] = Some c \<and> c < 0"
  using get_ptr_compare_correct [of 7 "[1, 2, 3, 4, 5, 6, 7]" "[1, 2, 3, 4, 5, 200, 7]"] by auto

text \<open>
  C30: A file pointer that fits the given width is stored in exactly that many bytes, reads back, and
  stored pointers compare, through the key comparison of the same width, as their values do.
\<close>

theorem my_store_ptr_correct:
  assumes "ptr_width w n" "unat p < 256 ^ n" "unat q < 256 ^ n"
  shows "\<exists>a b c. my_store_ptr w n p = Some a \<and> my_store_ptr w n q = Some b \<and> length a = n \<and>
     my_get_ptr w (a @ r) n = Some p \<and> get_ptr_compare n n a b = Some c \<and> (c < 0 \<longleftrightarrow> p < q)"
proof -
  let ?a = "rev (le_bytes n (unat p))" and ?b = "rev (le_bytes n (unat q))"
  have n: "0 < n" using assms(1) by (simp add: ptr_width_def)
  have "get_ptr_compare n n ?a ?b = Some (byte_diff ?a ?b)"
    using get_ptr_compare_diff [OF n, of ?a ?b] by simp
  moreover have "byte_diff ?a ?b < 0 \<longleftrightarrow> p < q"
    using byte_diff_value [of ?a ?b] assms(2,3) by (simp add: le_nat_le_bytes word_less_nat_alt)
  moreover have "my_get_ptr w (?a @ r) n = Some p"
    using assms(2) by (simp add: my_get_ptr_value [OF assms(1)] le_nat_le_bytes)
  ultimately show ?thesis by (auto simp: my_store_ptr_bytes [OF assms(1)])
qed

theorem my_store_ptr_correct_witness:
  "\<exists>a. my_store_ptr False 4 0xdeadbeef = Some a \<and> my_get_ptr False (a @ [7]) 4 = Some 0xdeadbeef"
proof -
  have "ptr_width False 4" "unat (0xdeadbeef :: ulonglong) < 256 ^ 4" by (simp_all add: ptr_width_def)
  then show ?thesis
    using my_store_ptr_correct [of False 4 "0xdeadbeef" "0xdeadbeef" "[7]"] by auto
qed

end
