(* ===== verification/Ctype.thy ===== *)
theory Ctype
  imports Prelude
begin

text \<open>
  The character classes of \<open>my_charset_latin1\<close> the client tests: the entries of the table
  \<^verbatim>\<open>ctype_latin1\<close> of \<^verbatim>\<open>strings/ctype-latin1.c\<close> that carry the bits \<open>_MY_SPC\<close>, \<open>_MY_NMR\<close> and
  \<open>_MY_PNT\<close> of \<^verbatim>\<open>include/m_ctype.h\<close>, as ranges of codes; and the characters of digits.
\<close>

definition my_isspace_latin1 :: "uchar \<Rightarrow> bool" where
  "my_isspace_latin1 c \<longleftrightarrow> 9 \<le> c \<and> c \<le> 13 \<or> c = 32 \<or> c = 160"

definition my_isdigit_latin1 :: "uchar \<Rightarrow> bool" where
  "my_isdigit_latin1 c \<longleftrightarrow> 48 \<le> c \<and> c \<le> 57"

definition my_ispunct_latin1 :: "uchar \<Rightarrow> bool" where
  "my_ispunct_latin1 c \<longleftrightarrow>
     33 \<le> c \<and> c \<le> 47 \<or> 58 \<le> c \<and> c \<le> 64 \<or> 91 \<le> c \<and> c \<le> 96 \<or> 123 \<le> c \<and> c \<le> 126 \<or>
     c = 128 \<or> c = 130 \<or> 132 \<le> c \<and> c \<le> 137 \<or> c = 139 \<or> 145 \<le> c \<and> c \<le> 153 \<or> c = 155 \<or>
     161 \<le> c \<and> c \<le> 191 \<or> c = 215 \<or> c = 247"

subsection \<open>Digits\<close>

text \<open>The tables of digits that \<^verbatim>\<open>strings/int2str.c\<close> shares with other files.\<close>

definition dig_vec_upper :: bytes where
  "dig_vec_upper = [48, 49, 50, 51, 52, 53, 54, 55, 56, 57, 65, 66, 67, 68, 69, 70, 71, 72,
     73, 74, 75, 76, 77, 78, 79, 80, 81, 82, 83, 84, 85, 86, 87, 88, 89, 90]"

definition dig_vec_lower :: bytes where
  "dig_vec_lower = [48, 49, 50, 51, 52, 53, 54, 55, 56, 57, 97, 98, 99, 100, 101, 102, 103, 104,
     105, 106, 107, 108, 109, 110, 111, 112, 113, 114, 115, 116, 117, 118, 119, 120, 121, 122]"

definition digit_char :: "nat \<Rightarrow> uchar" where
  "digit_char d = of_nat (48 + d)"

definition digit_value :: "uchar \<Rightarrow> nat" where
  "digit_value c = unat (c - 48)"

lemma digit_char_cases: "(d :: nat) < 10 \<Longrightarrow> d \<in> {0, 1, 2, 3, 4, 5, 6, 7, 8, 9}"
  by (auto simp: numeral_eq_Suc less_Suc_eq)

lemma digit_char_digit [simp]:
  assumes "d < 10"
  shows "my_isdigit_latin1 (digit_char d)" "digit_value (digit_char d) = d"
    "\<not> my_isspace_latin1 (digit_char d)" "\<not> my_ispunct_latin1 (digit_char d)"
  using digit_char_cases [OF assms]
  by (auto simp: my_isdigit_latin1_def digit_char_def digit_value_def my_isspace_latin1_def my_ispunct_latin1_def)

end
