(* ===== verification/Base64.thy ===== *)
theory Base64
  imports Ctype
begin

text \<open>
  The base64 codec of \<^verbatim>\<open>mysys/base64.c\<close>. The encoder's loop works on an index into the source
  and returns the characters it stores; the decoder's loop carries the index \<open>i\<close>, the pointer
  \<open>src\<close> (as an offset from \<open>src_base\<close>) and the bytes stored so far, the way the C loop does. A
  character outside the alphabet makes \<open>strchr\<close> return a null pointer; the difference to the table's
  address that \<open>pos\<close> then computes is a parameter \<open>nil\<close>, about which nothing is assumed.

  The lemmas show the round trip through the line-wrapped text, the two size functions that callers
  allocate with, which are computed in 32 bits, and that the decoder has no failing path.
\<close>

subsection \<open>The code\<close>

definition base64_table :: bytes where
  "base64_table = map of_char (''ABCDEFGHIJKLMNOPQRSTUVWXYZ'' @
                               ''abcdefghijklmnopqrstuvwxyz'' @
                               ''0123456789+/'') @ [0]"

definition my_base64_needed_encoded_length :: "int \<Rightarrow> int" where
  "my_base64_needed_encoded_length length_of_data =
     (let nb_base64_chars = long_wrap (long_wrap (length_of_data + 2) sdiv 3 * 4)
      in long_wrap (nb_base64_chars + long_wrap (nb_base64_chars - 1) sdiv 76 + 1))"

definition my_base64_needed_decoded_length :: "int \<Rightarrow> int" where
  "my_base64_needed_decoded_length length_of_encoded_data = long_wrap (length_of_encoded_data * 3) sdiv 4"

function base64_encode_loop :: "bytes \<Rightarrow> nat \<Rightarrow> nat \<Rightarrow> bytes" where
  "base64_encode_loop s i len =
     (if i < length s then
        (let nl = (if len = 76 then [10] else []);
             len = (if len = 76 then 0 else len);
             c = push_bit 8 (ucast (s ! i) :: uint32);
             i = i + 1;
             c = push_bit 8 (if i < length s then c + ucast (s ! i) else c);
             i = i + 1;
             c = (if i < length s then c + ucast (s ! i) else c);
             i = i + 1
         in nl @
            [base64_table ! unat (drop_bit 18 c AND 0x3f),
             base64_table ! unat (drop_bit 12 c AND 0x3f),
             if length s + 1 < i then 61 else base64_table ! unat (drop_bit 6 c AND 0x3f),
             if length s < i then 61 else base64_table ! unat (drop_bit 0 c AND 0x3f)] @
            base64_encode_loop s i (len + 4))
      else [])"
  by auto
termination
  by (relation "measure (\<lambda>(s, i, len). length s - i)") auto

text \<open>The bytes stored at \<open>dst\<close>, the terminator included.\<close>

definition my_base64_encode :: "bytes \<Rightarrow> bytes" where
  "my_base64_encode s = base64_encode_loop s 0 0 @ [0]"

definition pos :: "uint32 \<Rightarrow> uchar \<Rightarrow> uint32" where
  "pos nil c = (let n = length (takeWhile (\<lambda>x. x \<noteq> c) base64_table)
                in if n < length base64_table then of_nat n else nil)"

text \<open>
  The loop of \<open>SKIP_SPACE\<close>. In the decoder \<open>src = src_base + i\<close> holds whenever the macro runs, so
  the index stands for both.
\<close>

function skip_space :: "bytes \<Rightarrow> nat \<Rightarrow> nat" where
  "skip_space s i = (if i < length s \<and> my_isspace_latin1 (s ! i) then skip_space s (i + 1) else i)"
  by auto
termination
  by (relation "measure (\<lambda>(s, i). length s - i)") auto

declare base64_encode_loop.simps [simp del] skip_space.simps [simp del]

definition base64_bytes :: "uint32 \<Rightarrow> bytes" where
  "base64_bytes c = [ucast (drop_bit 16 c AND 0xff), ucast (drop_bit 8 c AND 0xff), ucast (drop_bit 0 c AND 0xff)]"

lemma skip_space_ge: "i \<le> skip_space s i"
proof (induction s i rule: skip_space.induct)
  case (1 s i)
  then show ?case by (subst skip_space.simps) auto
qed

lemma skip_space_le: "i \<le> length s \<Longrightarrow> skip_space s i \<le> length s"
proof (induction s i rule: skip_space.induct)
  case (1 s i)
  then show ?case by (subst skip_space.simps) auto
qed

text \<open>
  The result is the final \<open>i\<close>, the final \<open>src\<close> and the bytes stored at \<open>dst\<close>. The two \<open>goto end\<close>
  branches set \<open>i\<close> to the length, so the loop ends after storing the \<open>3 - mark\<close> bytes.
\<close>

function base64_decode_loop :: "uint32 \<Rightarrow> bytes \<Rightarrow> nat \<Rightarrow> bytes \<Rightarrow> nat \<times> nat \<times> bytes" where
  "base64_decode_loop nil s i d =
     (if i < length s then
        (let i1 = skip_space s i in
         if i1 = length s then (i1, i1, d) else
         let c = push_bit 6 (0 + pos nil (s ! i1)); i2 = skip_space s (i1 + 1) in
         if i2 = length s then (i2, i2, d) else
         let c = push_bit 6 (c + pos nil (s ! i2)); i3 = skip_space s (i2 + 1) in
         if i3 = length s then (i3, i3, d) else
         if s ! i3 \<noteq> 61 then
           (let c = push_bit 6 (c + pos nil (s ! i3)); i4 = skip_space s (i3 + 1) in
            if i4 = length s then (i4, i4, d) else
            if s ! i4 \<noteq> 61
            then base64_decode_loop nil s (i4 + 1) (d @ base64_bytes (c + pos nil (s ! i4)))
            else (length s, i4 + 1, d @ take 2 (base64_bytes c)))
         else (length s, i3 + 2, d @ take 1 (base64_bytes (push_bit 6 c))))
      else (i, i, d))"
  by auto
termination
proof (relation "measure (\<lambda>(nil, s, i, d). length s - i)", goal_cases)
  case (2 nil s i d i1 c i2 c' i3 c'' i4)
  then show ?case
    using skip_space_ge [of i s] skip_space_ge [of "i1 + 1" s] skip_space_ge [of "i2 + 1" s]
      skip_space_ge [of "i3 + 1" s] by auto
qed simp

declare base64_decode_loop.simps [simp del]

definition my_base64_decode :: "uint32 \<Rightarrow> bytes \<Rightarrow> int \<times> nat \<times> bytes" where
  "my_base64_decode nil s =
     (let (i, src, d) = base64_decode_loop nil s 0 []
      in (if i \<noteq> length s then - 1 else int (length d), src, d))"

subsection \<open>Groups of three bytes and four characters\<close>

definition triple :: "uchar \<Rightarrow> uchar \<Rightarrow> uchar \<Rightarrow> uint32" where
  "triple a b c = of_nat (unat a * 65536 + unat b * 256 + unat c)"

definition sextet :: "nat \<Rightarrow> uint32 \<Rightarrow> uint32" where
  "sextet k c = drop_bit k c AND 0x3f"

lemma unat_sextet: "unat (sextet k c) = unat c div 2 ^ k mod 64"
  by (simp add: sextet_def unat_and_63 unat_drop_bit_div)

lemma triple_bound: "unat a * 65536 + unat b * 256 + unat c < 16777216" for a b c :: uchar
  using unat_uchar_less [of a] unat_uchar_less [of b] unat_uchar_less [of c] by linarith

lemma unat_triple: "unat (triple a b c) = unat a * 65536 + unat b * 256 + unat c"
  unfolding triple_def by (rule unat_of_nat_small) (use triple_bound [of a b c] in simp)

lemma triple_shift:
  "push_bit 8 (push_bit 8 (ucast a) + ucast b) + ucast c = triple a b c" for a b c :: uchar
  by (simp add: triple_def ucast_of_nat_unat push_bit_eq_mult algebra_simps del: of_nat_unat)

lemma sextet_sum:
  fixes n :: nat
  assumes "n mod 64 + 64 * x1 = y1" "y1 + 4096 * x2 = y2" "n div 262144 * 262144 + y2 = n" "x3 = n div 262144"
  shows "x3 * 262144 + x2 * 4096 + x1 * 64 + n mod 64 = n"
  using assms(3) unfolding assms(1,2,4) [symmetric] by simp

lemma triple_eq:
  assumes "unat (w :: uint32) < 16777216"
  shows "push_bit 6 (push_bit 6 (push_bit 6 (sextet 18 w) + sextet 12 w) + sextet 6 w) + sextet 0 w = w"
proof -
  let ?n = "unat w"
  have "?n div 262144 mod 64 * 262144 + ?n div 4096 mod 64 * 4096 + ?n div 64 mod 64 * 64 + ?n mod 64 = ?n"
  proof (rule sextet_sum)
    show "?n mod 64 + 64 * (?n div 64 mod 64) = ?n mod 4096"
      using mod_digit_split [of ?n 64 64] by simp
    show "?n mod 4096 + 4096 * (?n div 4096 mod 64) = ?n mod 262144"
      using mod_digit_split [of ?n 4096 64] by simp
    show "?n div 262144 mod 64 = ?n div 262144"
      using assms by simp
  qed simp
  then have "of_nat (?n div 262144 mod 64 * 262144 + ?n div 4096 mod 64 * 4096 + ?n div 64 mod 64 * 64 + ?n mod 64) = w"
    by (simp only: of_nat_unat_id)
  moreover have "sextet k w = of_nat (?n div 2 ^ k mod 64)" for k
    by (metis unat_sextet of_nat_unat_id)
  ultimately show ?thesis by (simp add: push_bit_eq_mult algebra_simps)
qed

lemma base64_bytes_triple: "base64_bytes (triple a b c) = [a, b, c]"
proof -
  let ?n = "unat a * 65536 + unat b * 256 + unat c"
  have n: "?n = unat c + 256 * (unat b + 256 * unat a)" by simp
  have 1: "?n mod 256 = unat c" unfolding n by (rule digit_mod) simp
  have 2: "?n div 256 = unat b + 256 * unat a" unfolding n by (rule digit_div) simp
  have 3: "?n div 65536 = unat a" using div_mult2_eq [of ?n 256 256] by (simp add: 2)
  have "?n div 65536 mod 256 = unat a" "?n div 256 mod 256 = unat b" "?n mod 256 = unat c"
    by (simp_all only: 1 2 3) simp_all
  then show ?thesis
    by (simp add: base64_bytes_def ucast_of_nat_unat unat_and_255 unat_drop_bit_div unat_triple
        uchar_of_nat_eq del: of_nat_unat)
qed

subsection \<open>The encoder as a recursion over groups\<close>

definition line_break :: "nat \<Rightarrow> bytes" where
  "line_break len = (if len = 76 then [10] else [])"

definition symbol :: "nat \<Rightarrow> uint32 \<Rightarrow> uchar" where
  "symbol k c = base64_table ! unat (sextet k c)"

fun base64_text :: "nat \<Rightarrow> bytes \<Rightarrow> bytes" where
  "base64_text len [] = []"
| "base64_text len [a] =
     line_break len @ (let t = triple a 0 0 in [symbol 18 t, symbol 12 t, 61, 61])"
| "base64_text len [a, b] =
     line_break len @ (let t = triple a b 0 in [symbol 18 t, symbol 12 t, symbol 6 t, 61])"
| "base64_text len (a # b # c # r) =
     line_break len @ (let t = triple a b c in [symbol 18 t, symbol 12 t, symbol 6 t, symbol 0 t]) @
     base64_text ((if len = 76 then 0 else len) + 4) r"

lemma drop_three_cases:
  assumes "i < length s"
  obtains "drop i s = [s ! i]" "length s = i + 1"
  | "drop i s = [s ! i, s ! (i + 1)]" "length s = i + 2"
  | "drop i s = s ! i # s ! (i + 1) # s ! (i + 2) # drop (i + 3) s" "i + 2 < length s"
proof -
  consider "length s = i + 1" | "length s = i + 2" | "i + 2 < length s" using assms by linarith
  then show thesis
    by cases (use that in \<open>simp_all add: Cons_nth_drop_Suc [symmetric] numeral_3_eq_3\<close>)
qed

lemma base64_encode_loop_text: "base64_encode_loop s i len = base64_text len (drop i s)"
proof (induction s i len rule: base64_encode_loop.induct)
  case (1 s i len)
  show ?case
  proof (cases "i < length s")
    case True
    note eq = base64_encode_loop.simps [of s i len] and defs = line_break_def symbol_def sextet_def Let_def
    note IH = 1 [OF True refl refl refl refl refl refl refl refl]
    from True show ?thesis
    proof (cases rule: drop_three_cases)
      case 1
      have "base64_encode_loop s (i + 1 + 1 + 1) n = []" for n using 1(2) by (subst base64_encode_loop.simps) simp
      with 1 show ?thesis using triple_shift [of "s ! i" 0 0] by (subst eq) (simp add: defs)
    next
      case 2
      have "base64_encode_loop s (i + 1 + 1 + 1) n = []" for n using 2(2) by (subst base64_encode_loop.simps) simp
      with 2 show ?thesis using triple_shift [of "s ! i" "s ! (i + 1)" 0] by (subst eq) (simp add: defs)
    next
      case 3
      have "i + 3 = Suc (Suc (Suc i))" by simp
      with 3 IH show ?thesis using triple_shift [of "s ! i" "s ! (i + 1)" "s ! (i + 2)"]
        by (subst eq) (simp add: defs)
    qed
  qed (simp add: base64_encode_loop.simps)
qed

subsection \<open>The decoder on one group\<close>

lemma takeWhile_distinct:
  "distinct xs \<Longrightarrow> k < length xs \<Longrightarrow> takeWhile (\<lambda>x. x \<noteq> xs ! k) xs = take k xs"
proof (induction xs arbitrary: k)
  case (Cons x xs)
  then show ?case by (cases k) auto
qed simp

lemma base64_table_codes:
  "base64_table = map of_nat ([65..<91] @ [97..<123] @ [48..<58] @ [43, 47, 0])"
  unfolding base64_table_def by (simp add: upt_rec)

lemma base64_table_distinct: "distinct base64_table"
proof -
  have "distinct ([65..<91] @ [97..<123] @ [48..<58] @ [43, 47, 0 :: nat])" by auto
  moreover have "inj_on (of_nat :: nat \<Rightarrow> uchar) {..<256}"
    by (rule inj_on_inverseI [of _ unat]) (simp add: unat_of_nat)
  moreover have "set ([65..<91] @ [97..<123] @ [48..<58] @ [43, 47, 0 :: nat]) \<subseteq> {..<256}"
    by (simp only: set_append set_upt list.set) auto
  ultimately show ?thesis
    unfolding base64_table_codes distinct_map by (blast intro: inj_on_subset)
qed

lemma base64_table_plain: "\<forall>c\<in>set base64_table. \<not> my_isspace_latin1 c \<and> c \<noteq> 61"
proof
  fix c
  assume "c \<in> set base64_table"
  then have "c \<in> of_nat ` set ([65..<91] @ [97..<123] @ [48..<58] @ [43, 47, 0])"
    by (simp only: base64_table_codes list.set_map)
  then obtain n where n: "c = of_nat n" "n \<in> set ([65..<91] @ [97..<123] @ [48..<58] @ [43, 47, 0])"
    by (rule imageE)
  from n(2) have "n = 0 \<or> 43 \<le> n \<and> n < 123 \<and> n \<noteq> 61"
    by (simp only: set_append set_upt Un_iff atLeastLessThan_iff list.set insert_iff empty_iff) arith
  moreover from this have "unat c = n" using n(1) unat_of_nat_small [of n, where 'a = 8] by auto
  moreover have "unat (9 :: uchar) = 9" "unat (13 :: uchar) = 13" "unat (32 :: uchar) = 32"
    "unat (160 :: uchar) = 160" "unat (61 :: uchar) = 61" by simp_all
  ultimately show "\<not> my_isspace_latin1 c \<and> c \<noteq> 61"
    unfolding my_isspace_latin1_def word_le_nat_alt by auto
qed

lemma length_base64_table: "length base64_table = 65"
  by (simp add: base64_table_def)

lemma sextet_small: "unat (sextet k c) < length base64_table"
  using mod_less_divisor [of 64 "unat c div 2 ^ k"] unfolding unat_sextet length_base64_table by linarith

lemma symbol_plain: "\<not> my_isspace_latin1 (symbol k c)" "symbol k c \<noteq> 61"
  using base64_table_plain sextet_small [of k c] unfolding symbol_def by (blast dest: nth_mem)+

lemma pos_symbol: "pos nil (symbol k c) = sextet k c"
  using takeWhile_distinct [OF base64_table_distinct sextet_small [of k c]] sextet_small [of k c]
  by (simp add: pos_def symbol_def Let_def)

lemma skip_space_stop: "\<not> my_isspace_latin1 c \<Longrightarrow> n = length p \<Longrightarrow> skip_space (p @ c # r) n = n"
  by (subst skip_space.simps) simp

lemma skip_space_line_break:
  "\<not> my_isspace_latin1 c \<Longrightarrow>
   skip_space (p @ line_break len @ c # r) (length p) = length p + length (line_break len)"
  using skip_space_stop [of c "Suc (length p)" "p @ [10]" r]
  by (auto simp: line_break_def skip_space_stop) (subst skip_space.simps, simp add: my_isspace_latin1_def)

lemma base64_decode_group:
  fixes s p r :: bytes and len :: nat and nil :: uint32
  assumes "\<not> my_isspace_latin1 c1" "\<not> my_isspace_latin1 c2" "\<not> my_isspace_latin1 c3" "\<not> my_isspace_latin1 c4"
  defines "s \<equiv> p @ line_break len @ [c1, c2, c3, c4] @ r"
  defines "c \<equiv> push_bit 6 (push_bit 6 (pos nil c1) + pos nil c2)"
  defines "n \<equiv> length p + length (line_break len)"
  shows "base64_decode_loop nil s (length p) d =
    (if c3 = 61 then (length s, n + 4, d @ take 1 (base64_bytes (push_bit 6 c)))
     else if c4 = 61 then (length s, n + 4, d @ take 2 (base64_bytes (push_bit 6 (c + pos nil c3))))
     else base64_decode_loop nil s (n + 4)
            (d @ base64_bytes (push_bit 6 (c + pos nil c3) + pos nil c4)))"
proof -
  let ?q = "p @ line_break len"
  have len: "length s = n + 4 + length r" "length p < length s" by (simp_all add: s_def n_def)
  have nth: "s ! n = c1" "s ! (n + 1) = c2" "s ! (n + 2) = c3" "s ! (n + 3) = c4"
    unfolding s_def n_def by (simp_all add: nth_append)
  have skip: "skip_space s (length p) = n"
    unfolding s_def n_def using skip_space_line_break [OF assms(1)] by simp
  have "skip_space s (n + 1) = n + 1"
    using skip_space_stop [of c2 "n + 1" "?q @ [c1]" "c3 # c4 # r"] assms(2) by (simp add: s_def n_def)
  moreover have "skip_space s (n + 2) = n + 2"
    using skip_space_stop [of c3 "n + 2" "?q @ [c1, c2]" "c4 # r"] assms(3) by (simp add: s_def n_def)
  moreover have "skip_space s (n + 3) = n + 3"
    using skip_space_stop [of c4 "n + 3" "?q @ [c1, c2, c3]" r] assms(4) by (simp add: s_def n_def)
  ultimately have
    "(length p < length s) = True" "(n = length s) = False" "(n + 1 = length s) = False"
    "(n + 1 + 1 = length s) = False" "(n + 1 + 1 + 1 = length s) = False"
    "skip_space s (n + 1) = n + 1" "skip_space s (n + 1 + 1) = n + 1 + 1"
    "skip_space s (n + 1 + 1 + 1) = n + 1 + 1 + 1"
    "s ! (n + 1 + 1) = c3" "s ! (n + 1 + 1 + 1) = c4" "n + 1 + 1 + 1 + 1 = n + 4" "n + 1 + 1 + 2 = n + 4"
    using nth len by (simp_all add: numeral_eq_Suc)
  note facts = this skip nth
  show ?thesis
    apply (subst base64_decode_loop.simps)
    apply (simp only: facts Let_def if_True if_False c_def add_0 simp_thms)
    apply (cases "c3 = 61"; cases "c4 = 61")
       apply (simp_all only: simp_thms if_True if_False)
    done
qed

subsection \<open>The round trip\<close>

lemma sextet_zero: "unat c div 2 ^ k = 64 * n \<Longrightarrow> sextet k c = 0"
proof -
  assume "unat c div 2 ^ k = 64 * n"
  then have "unat (sextet k c) = 0" by (simp add: unat_sextet)
  then show ?thesis by (simp only: unat_eq_0)
qed

lemma base64_pad:
  "push_bit 6 (push_bit 6 (push_bit 6 (sextet 18 (triple a b 0)) + sextet 12 (triple a b 0)) + sextet 6 (triple a b 0))
     = triple a b 0"
  "push_bit 12 (push_bit 6 (sextet 18 (triple a 0 0)) + sextet 12 (triple a 0 0)) = triple a 0 0"
proof -
  have "unat (triple a b 0) div 2 ^ 0 = 64 * (unat a * 1024 + unat b * 4)" for b
    by (simp add: unat_triple)
  then have 0: "sextet 0 (triple a b 0) = 0" for b by (rule sextet_zero)
  have "unat (triple a 0 0) div 2 ^ 6 = 64 * (unat a * 16)" by (simp add: unat_triple)
  then have 6: "sextet 6 (triple a 0 0) = 0" by (rule sextet_zero)
  have "unat (triple a b 0) < 16777216" for b using triple_bound [of a b 0] by (simp only: unat_triple)
  note eq = triple_eq [OF this]
  show
    "push_bit 6 (push_bit 6 (push_bit 6 (sextet 18 (triple a b 0)) + sextet 12 (triple a b 0)) + sextet 6 (triple a b 0))
     = triple a b 0"
    using eq [of b] by (simp only: 0 add_0_right)
  show "push_bit 12 (push_bit 6 (sextet 18 (triple a 0 0)) + sextet 12 (triple a 0 0)) = triple a 0 0"
    using eq [of 0] by (simp add: 0 6)
qed

lemma base64_decode_text:
  "base64_decode_loop nil (p @ base64_text len xs) (length p) d =
     (length p + length (base64_text len xs), length p + length (base64_text len xs), d @ xs)"
proof (induction len xs arbitrary: p d rule: base64_text.induct)
  case (1 len)
  show ?case by (subst base64_decode_loop.simps) simp
next
  case (2 len a)
  have "\<not> my_isspace_latin1 61" by (simp add: my_isspace_latin1_def)
  then show ?case
    using base64_decode_group [of "symbol 18 (triple a 0 0)" "symbol 12 (triple a 0 0)" 61 61 nil p len "[]" d]
    by (simp add: Let_def symbol_plain pos_symbol base64_pad base64_bytes_triple)
next
  case (3 len a b)
  have "\<not> my_isspace_latin1 61" by (simp add: my_isspace_latin1_def)
  then show ?case
    using base64_decode_group [of "symbol 18 (triple a b 0)" "symbol 12 (triple a b 0)" "symbol 6 (triple a b 0)" 61
        nil p len "[]" d]
    by (simp add: Let_def symbol_plain pos_symbol base64_pad base64_bytes_triple)
next
  case (4 len a b c r)
  define rest where "rest = base64_text ((if len = 76 then 0 else len) + 4) r"
  let ?t = "triple a b c"
  let ?g = "line_break len @ [symbol 18 ?t, symbol 12 ?t, symbol 6 ?t, symbol 0 ?t]"
  have len: "length (p @ ?g) = length p + length (line_break len) + 4" by simp
  have "base64_decode_loop nil ((p @ ?g) @ rest) (length p) d = base64_decode_loop nil ((p @ ?g) @ rest) (length (p @ ?g)) (d @ [a, b, c])"
    using base64_decode_group [of "symbol 18 ?t" "symbol 12 ?t" "symbol 6 ?t" "symbol 0 ?t" nil p len rest d]
      triple_eq [of ?t] triple_bound [of a b c]
    unfolding len by (simp add: symbol_plain pos_symbol base64_bytes_triple unat_triple)
  also have "\<dots> = (length (p @ ?g) + length rest, length (p @ ?g) + length rest, (d @ [a, b, c]) @ r)"
    unfolding rest_def by (rule 4)
  finally show ?case by (simp add: Let_def rest_def)
qed

subsection \<open>Sizes\<close>

lemma length_base64_text:
  "len = 4 * m \<Longrightarrow> m \<le> 19 \<Longrightarrow>
   length (base64_text len xs) =
     4 * ((length xs + 2) div 3) + (if xs = [] then 0 else (m + (length xs + 2) div 3 - 1) div 19)"
proof (induction len xs arbitrary: m rule: base64_text.induct)
  case (4 len a b c r)
  define k where "k = (length r + 2) div 3"
  have IH: "length (base64_text ((if len = 76 then 0 else len) + 4) r) =
      4 * k + (if r = [] then 0 else ((if m = 19 then 0 else m) + 1 + k - 1) div 19)"
    unfolding k_def by (rule 4) (use 4(2,3) in auto)
  have k: "(length (a # b # c # r) + 2) div 3 = Suc k" by (simp add: k_def)
  have nil: "(if r = [] then 0 else n) = (if k = 0 then 0 else n)" for n :: nat
    by (cases r) (auto simp: k_def)
  show ?case
    unfolding base64_text.simps k Let_def length_append IH nil using 4(2,3)
    by (cases "m = 19"; cases "k = 0") (simp_all add: line_break_def)
qed (auto simp: line_break_def Let_def)

lemma base64_needed_length:
  assumes "length (my_base64_encode s) < 2 ^ 31"
  shows "my_base64_needed_encoded_length (int (length s)) = int (length (my_base64_encode s))"
proof -
  define k where "k = (length s + 2) div 3"
  have k: "(int (length s) + 2) sdiv 3 = int k"
    using int_sdiv [of "length s + 2" 3] by (simp add: k_def add.commute)
  have nl: "(int k * 4 - 1) sdiv 76 = int (if s = [] then 0 else (k - 1) div 19)"
  proof (cases "s = []")
    case False
    then have "0 < k" by (cases s) (auto simp: k_def)
    then obtain j where "k = Suc j" by (cases k) auto
    then have 4: "(k * 4 - 1) div 4 = k - 1" and int: "int k * 4 - 1 = int (k * 4 - 1)" by simp_all
    have "(k * 4 - 1) div 76 = (k * 4 - 1) div 4 div 19"
      by (simp only: div_mult2_eq [symmetric]) simp
    then have "int (k * 4 - 1) sdiv 76 = int ((k - 1) div 19)"
      using int_sdiv [of "k * 4 - 1" 76] by (simp only: 4 of_nat_numeral)
    then show ?thesis using False by (simp only: int if_False)
  qed (simp add: k_def signed_divide_int_def)
  have "length (base64_text 0 s) = 4 * k + (if s = [] then 0 else (k - 1) div 19)"
    using length_base64_text [of 0 0 s] by (simp add: k_def)
  then have l: "length (my_base64_encode s) = 4 * k + (if s = [] then 0 else (k - 1) div 19) + 1"
    by (simp add: my_base64_encode_def base64_encode_loop_text)
  then have b: "4 * k < 2 ^ 31" using assms by linarith
  moreover have "length s + 2 < 3 * k + 3" unfolding k_def by presburger
  ultimately have w: "long_wrap (int (length s) + 2) = int (length s) + 2" "long_wrap (int k * 4) = int k * 4"
    "long_wrap (int k * 4 - 1) = int k * 4 - 1" by (simp_all add: long_wrap_small)
  have "int k * 4 + int (if s = [] then 0 else (k - 1) div 19) + 1 = int (length (my_base64_encode s))"
    using l by simp
  then show ?thesis
    using assms unfolding my_base64_needed_encoded_length_def Let_def w(1) k w(2,3) nl by (simp add: long_wrap_small)
qed

lemma base64_decode_loop_end:
  "i \<le> length s \<Longrightarrow>
   \<exists>src d'. base64_decode_loop nil s i d = (length s, src, d @ d') \<and> 4 * length d' \<le> 3 * (length s - i) \<and>
     src \<le> length s + 1"
proof (induction "length s - i" arbitrary: i d rule: less_induct)
  case less
  define i1 where "i1 = skip_space s i"
  define i2 where "i2 = skip_space s (i1 + 1)"
  define i3 where "i3 = skip_space s (i2 + 1)"
  define i4 where "i4 = skip_space s (i3 + 1)"
  note eq = base64_decode_loop.simps [of nil s i d, unfolded Let_def, folded i1_def, folded i2_def, folded i3_def,
      folded i4_def]
  have b1: "i \<le> i1" "i1 \<le> length s"
    using less(2) skip_space_ge [of i s] skip_space_le [of i s] by (auto simp: i1_def)
  have b2: "i1 < length s \<Longrightarrow> i1 < i2 \<and> i2 \<le> length s"
    using skip_space_ge [of "i1 + 1" s] skip_space_le [of "i1 + 1" s] by (auto simp: i2_def)
  have b3: "i2 < length s \<Longrightarrow> i2 < i3 \<and> i3 \<le> length s"
    using skip_space_ge [of "i2 + 1" s] skip_space_le [of "i2 + 1" s] by (auto simp: i3_def)
  have b4: "i3 < length s \<Longrightarrow> i3 < i4 \<and> i4 \<le> length s"
    using skip_space_ge [of "i3 + 1" s] skip_space_le [of "i3 + 1" s] by (auto simp: i4_def)
  note bounds = b1 b2 b3 b4
  show ?case
  proof (cases "i < length s \<and> i1 \<noteq> length s \<and> i2 \<noteq> length s \<and> i3 \<noteq> length s \<and> s ! i3 \<noteq> 61 \<and>
      i4 \<noteq> length s \<and> s ! i4 \<noteq> 61")
    case True
    then have less4: "i4 < length s" "i + 3 \<le> i4" using bounds by auto
    then have step: "length s - (i4 + 1) < length s - i" "i4 + 1 \<le> length s" by linarith+
    define e where "e = base64_bytes
      (push_bit 6 (push_bit 6 (push_bit 6 (0 + pos nil (s ! i1)) + pos nil (s ! i2)) + pos nil (s ! i3)) + pos nil (s ! i4))"
    obtain src d' where "base64_decode_loop nil s (i4 + 1) (d @ e) = (length s, src, (d @ e) @ d')"
      "4 * length d' \<le> 3 * (length s - (i4 + 1))" "src \<le> length s + 1"
      using less(1) [OF step, of "d @ e"] by blast
    moreover have "base64_decode_loop nil s i d = base64_decode_loop nil s (i4 + 1) (d @ e)"
      using True by (subst eq) (simp add: e_def)
    moreover have "length e = 3" by (simp add: e_def base64_bytes_def)
    ultimately show ?thesis
      using less4 by (intro exI [of _ src] exI [of _ "e @ d'"]) simp
  next
    case False
    then consider "\<not> i < length s" | "i < length s" "i1 = length s \<or> i2 = length s \<or> i3 = length s"
      | "i < length s" "i1 \<noteq> length s" "i2 \<noteq> length s" "i3 \<noteq> length s" "s ! i3 = 61"
      | "i < length s" "i1 \<noteq> length s" "i2 \<noteq> length s" "i3 \<noteq> length s" "s ! i3 \<noteq> 61" "i4 = length s"
      | "i < length s" "i1 \<noteq> length s" "i2 \<noteq> length s" "i3 \<noteq> length s" "s ! i3 \<noteq> 61" "i4 \<noteq> length s" "s ! i4 = 61"
      by blast
    then show ?thesis
    proof cases
      case 3
      then have "i + 3 \<le> length s" "i3 < length s" using bounds by auto
      with 3 show ?thesis by (subst eq) (simp add: base64_bytes_def)
    next
      case 5
      then have "i + 4 \<le> length s" "i4 < length s" using bounds by auto
      with 5 show ?thesis by (subst eq) (simp add: base64_bytes_def)
    next
      case 1
      with less(2) show ?thesis by (subst eq) simp
    next
      case 2
      then show ?thesis by (subst eq) auto
    next
      case 4
      then show ?thesis by (subst eq) simp
    qed
  qed
qed

lemma base64_text_no_nul: "0 \<notin> set (base64_text len xs)"
proof -
  have last: "symbol k c \<noteq> 0" for k c
  proof -
    have "base64_table ! 64 = 0" by (simp add: base64_table_def)
    moreover have "unat (sextet k c) \<noteq> 64" "unat (sextet k c) < 65"
      using mod_less_divisor [of 64 "unat c div 2 ^ k"] unfolding unat_sextet by linarith+
    ultimately show ?thesis
      using nth_eq_iff_index_eq [OF base64_table_distinct, of "unat (sextet k c)" 64]
      by (simp add: symbol_def length_base64_table)
  qed
  then have "0 \<noteq> symbol k c" for k c by metis
  then show ?thesis
    by (induction len xs rule: base64_text.induct) (auto simp: Let_def line_break_def)
qed

subsection \<open>Properties\<close>

text \<open>
  C20: Decoding the text that \<open>my_base64_encode\<close> writes for any data, line breaks and padding included,
  returns the length of the data, leaves the end pointer at the end of the text and stores the data.
\<close>

theorem base64_roundtrip:
  "my_base64_decode nil (butlast (my_base64_encode s)) =
     (int (length s), length (butlast (my_base64_encode s)), s)"
  using base64_decode_text [of nil "[]" 0 s "[]"]
  by (simp add: my_base64_decode_def my_base64_encode_def base64_encode_loop_text)

text \<open>
  C31: \<open>my_base64_encode\<close> stores exactly \<open>my_base64_needed_encoded_length\<close> bytes if and only if what it stores has
  at most \<open>INT_MAX\<close> bytes; beyond that the computation of the length in 32 bits overflows. The only zero byte among
  the stored ones is the terminator.
\<close>

theorem base64_encode_fits:
  "(int (length (my_base64_encode s)) = my_base64_needed_encoded_length (int (length s)) \<longleftrightarrow>
      length (my_base64_encode s) < 2 ^ 31) \<and>
   last (my_base64_encode s) = 0 \<and> 0 \<notin> set (butlast (my_base64_encode s))"
proof -
  have "my_base64_needed_encoded_length (int (length s)) < 2 ^ 31"
    unfolding my_base64_needed_encoded_length_def Let_def using long_wrap_less by simp
  then have "int (length (my_base64_encode s)) = my_base64_needed_encoded_length (int (length s)) \<longleftrightarrow>
      length (my_base64_encode s) < 2 ^ 31"
    using base64_needed_length [of s] by auto
  then show ?thesis by (simp add: base64_text_no_nul [of 0 s] my_base64_encode_def base64_encode_loop_text)
qed

text \<open>
  C32: On any input, \<open>my_base64_decode\<close> returns the number of bytes it stored, never -1, and this
  number is at most three quarters of the length of the text; the end pointer is at most one past the end. For a
  text of less than 715827883 bytes that bound is what \<open>my_base64_needed_decoded_length\<close> returns. From there on its
  multiplication by three overflows, and up to 2^32 / 3 bytes the result is not positive.
\<close>

theorem base64_decode_fits:
  "\<exists>n src d. my_base64_decode nil s = (n, src, d) \<and> n = int (length d) \<and> 4 * n \<le> 3 * int (length s) \<and>
     src \<le> length s + 1 \<and>
     (length s < 715827883 \<longrightarrow> n \<le> my_base64_needed_decoded_length (int (length s)) \<and>
        my_base64_needed_decoded_length (int (length s)) = int (length s * 3 div 4)) \<and>
     (715827883 \<le> length s \<and> 3 * length s < 2 ^ 32 \<longrightarrow> my_base64_needed_decoded_length (int (length s)) \<le> 0)"
proof -
  obtain src d where "base64_decode_loop nil s 0 [] = (length s, src, d)" "4 * length d \<le> 3 * length s"
    "src \<le> length s + 1"
    using base64_decode_loop_end [of 0 s nil "[]"] by auto
  moreover have "my_base64_needed_decoded_length (int (length s)) = int (length s * 3 div 4)" if "length s < 715827883"
  proof -
    have "long_wrap (int (length s) * 3) = int (length s * 3)" using that by (simp add: long_wrap_small)
    then show ?thesis using int_sdiv [of "length s * 3" 4] by (simp only: my_base64_needed_decoded_length_def of_nat_numeral)
  qed
  moreover have "my_base64_needed_decoded_length (int (length s)) \<le> 0" if "715827883 \<le> length s" "3 * length s < 2 ^ 32"
  proof -
    have "long_wrap (int (length s) * 3) = int (length s) * 3 - 4294967296" using that by (intro long_wrap_negative) simp_all
    then show ?thesis using that by (simp add: my_base64_needed_decoded_length_def sdiv_nonpos)
  qed
  ultimately show ?thesis by (auto simp: my_base64_decode_def)
qed

theorem base64_decode_fits_witness:
  "my_base64_needed_decoded_length 4 = 3 \<and> (\<exists>n src d. my_base64_decode 0 (map of_char ''QUJD'') = (n, src, d) \<and> n = int (length d) \<and> n \<le> 3)"
proof -
  have "length (map of_char ''QUJD'' :: bytes) = 4" by simp
  with base64_decode_fits [of 0 "map of_char ''QUJD''"] show ?thesis
    by (auto simp: my_base64_needed_decoded_length_def long_wrap_small signed_divide_int_def)
qed

end
