(* ===== verification/Compress.thy ===== *)
theory Compress
  imports Bytes
begin

text \<open>
  Packet compression: \<^verbatim>\<open>mysys/my_compress.c\<close>. zlib's \<open>compress\<close> and \<open>uncompress\<close> are parameters:
  \<open>compress bound src\<close> is \<open>Inr out\<close> for \<open>Z_OK\<close> and \<open>Inl n\<close> for an error that leaves \<open>n\<close> in
  \<open>destLen\<close>; \<open>uncompress bound src\<close> likewise. The allocator is a parameter \<open>malloc\<close>, true where
  the request of that size succeeds. What the theorems use of zlib is the predicate \<open>zlib_ok\<close>. A \<open>size_t\<close>
  has 32 bits, so sizes are computed modulo 2^32; a \<^const>\<open>None\<close> is an access outside a block.
\<close>

type_synonym codec = "nat \<Rightarrow> bytes \<Rightarrow> nat + bytes"

definition MIN_COMPRESS_LENGTH :: nat where
  "MIN_COMPRESS_LENGTH = 50"

text \<open>The size of the buffer for the compressed data; the product wraps around for more than 35791394 bytes.\<close>

definition compress_room :: "nat \<Rightarrow> nat" where
  "compress_room len = (len * 120 mod 2 ^ 32 div 100 + 12) mod 2 ^ 32"

text \<open>The result is \<open>compbuf\<close>, the new \<open>*len\<close> and the new \<open>*complen\<close>.\<close>

definition my_compress_alloc :: "(nat \<Rightarrow> bool) \<Rightarrow> codec \<Rightarrow> bytes \<Rightarrow> bytes option \<times> nat \<times> nat" where
  "my_compress_alloc malloc compress packet =
     (let len = length packet; complen = compress_room len in
      if \<not> malloc complen then (None, len, complen) else
      case compress complen packet of
        Inl tmp_complen \<Rightarrow> (None, len, tmp_complen)
      | Inr compbuf \<Rightarrow>
          let complen = length compbuf in
          if complen \<ge> len then (None, len, 0) else (Some compbuf, complen, len))"

text \<open>The result is the return value, the \<open>*len\<close> bytes now at \<open>packet\<close>, and \<open>*complen\<close>.\<close>

definition my_compress :: "(nat \<Rightarrow> bool) \<Rightarrow> codec \<Rightarrow> bytes \<Rightarrow> bool \<times> bytes \<times> nat" where
  "my_compress malloc compress packet =
     (if length packet < MIN_COMPRESS_LENGTH then (False, packet, 0)
      else case my_compress_alloc malloc compress packet of
        (None, len, complen) \<Rightarrow> (if complen \<noteq> 0 then False else True, packet, complen)
      | (Some compbuf, len, complen) \<Rightarrow> (False, take len compbuf, complen))"

definition my_uncompress :: "(nat \<Rightarrow> bool) \<Rightarrow> codec \<Rightarrow> bytes \<Rightarrow> nat \<Rightarrow> bool \<times> bytes \<times> nat" where
  "my_uncompress malloc uncompress packet complen =
     (if complen \<noteq> 0 then
        if \<not> malloc complen then (True, packet, complen) else
        case uncompress complen packet of
          Inl tmp_complen \<Rightarrow> (True, packet, tmp_complen)
        | Inr out \<Rightarrow> (False, out, length out)
      else (False, packet, length packet))"

definition BLOB_HEADER :: nat where
  "BLOB_HEADER = 12"

text \<open>The result is the error code, or the packed blob; \<^const>\<open>None\<close> is a write past the end of a blob whose size wrapped.\<close>

definition packfrm :: "(nat \<Rightarrow> bool) \<Rightarrow> codec \<Rightarrow> bytes \<Rightarrow> (nat + bytes) option" where
  "packfrm malloc compress data =
     (case my_compress malloc compress data of
        (True, _) \<Rightarrow> Some (Inl 1)
      | (False, cdata, comp_len) \<Rightarrow>
          let org_len = length cdata; blob_len = (BLOB_HEADER + org_len) mod 2 ^ 32 in
          if \<not> malloc blob_len then Some (Inl 2)
          else if blob_len < BLOB_HEADER + org_len then None
          else Some (Inr (int4store 1 @ int4store (of_nat (length data)) @ int4store (of_nat org_len) @ cdata)))"

text \<open>\<^const>\<open>None\<close> is a read past the end of the blob.\<close>

definition unpackfrm :: "(nat \<Rightarrow> bool) \<Rightarrow> codec \<Rightarrow> bytes \<Rightarrow> (nat + bytes) option" where
  "unpackfrm malloc uncompress pack_data =
     (case (uint4korr pack_data, uint4korr (drop 4 pack_data), uint4korr (drop 8 pack_data)) of
        (Some ver, Some orglen, Some complen) \<Rightarrow>
          if ver \<noteq> 1 then Some (Inl 1)
          else if \<not> malloc (max (unat orglen) (unat complen)) then Some (Inl 2)
          else if length pack_data < BLOB_HEADER + unat complen then None
          else (case my_uncompress malloc uncompress (take (unat complen) (drop BLOB_HEADER pack_data)) (unat orglen) of
                  (True, _) \<Rightarrow> Some (Inl 3)
                | (False, data, orglen) \<Rightarrow> Some (Inr data))
      | _ \<Rightarrow> None)"

subsection \<open>zlib\<close>

text \<open>
  Documented behaviour of zlib: \<open>uncompress\<close> of what \<open>compress\<close> produced, with room for the original,
  gives the original back; neither writes more than its bound.
\<close>

definition zlib_ok :: "codec \<Rightarrow> codec \<Rightarrow> bool" where
  "zlib_ok compress uncompress \<longleftrightarrow>
     (\<forall>bound src out. compress bound src = Inr out \<longrightarrow>
        (\<forall>n \<ge> length src. uncompress n out = Inr src)) \<and>
     (\<forall>bound src out. compress bound src = Inr out \<longrightarrow> length out \<le> bound) \<and>
     (\<forall>bound src out. uncompress bound src = Inr out \<longrightarrow> length out \<le> bound)"

text \<open>A run-length codec: an instance of the contract that really shortens data.\<close>

definition rle_compress :: codec where
  "rle_compress bound src =
     (if src \<noteq> [] \<and> length src < 256 \<and> src = replicate (length src) (hd src) \<and> 3 \<le> bound
      then Inr [1, hd src, of_nat (length src)]
      else if length src < bound then Inr (0 # src) else Inl 0)"

definition rle_uncompress :: codec where
  "rle_uncompress bound src =
     (let out = (case src of
          [a, b, c] \<Rightarrow> if a = 1 then replicate (unat c) b else [b, c]
        | a # r \<Rightarrow> r | [] \<Rightarrow> [])
      in if length out \<le> bound then Inr out else Inl 0)"

lemma rle_zlib_ok: "zlib_ok rle_compress rle_uncompress"
proof -
  have "rle_uncompress n out = Inr src" if c: "rle_compress bound src = Inr out" "length src \<le> n" for bound src out n
  proof (cases "src \<noteq> [] \<and> length src < 256 \<and> src = replicate (length src) (hd src) \<and> 3 \<le> bound")
    case True
    then have out: "out = [1, hd src, of_nat (length src)]" using c(1) by (simp add: rle_compress_def)
    have "unat (of_nat (length src) :: uchar) = length src" using True by (intro unat_of_nat_small) simp
    moreover have "replicate (length src) (hd src) = src" using True by simp
    ultimately show ?thesis using c(2) by (simp add: rle_uncompress_def out)
  next
    case False
    then have "out = 0 # src" using c(1) by (auto simp: rle_compress_def split: if_splits)
    with c(2) show ?thesis by (auto simp: rle_uncompress_def split: list.split)
  qed
  then show ?thesis by (auto simp: zlib_ok_def rle_compress_def rle_uncompress_def Let_def split: if_splits)
qed

subsection \<open>Round trips\<close>

lemma compress_room_eq: "compress_room len = len * 120 mod 2 ^ 32 div 100 + 12"
proof -
  have "len * 120 mod 2 ^ 32 div 100 \<le> 2 ^ 32 div 100" by (intro div_le_mono) simp
  then show ?thesis by (simp add: compress_room_def)
qed

lemma compress_room_pos [simp]: "0 < compress_room len"
  by (simp add: compress_room_eq)

lemma compress_room_60: "compress_room 60 = 84"
  by (simp add: compress_room_def)

lemma my_compress_cases:
  obtains "length packet < 50" "my_compress malloc compress packet = (False, packet, 0)"
  | "50 \<le> length packet" "\<not> malloc (compress_room (length packet))"
      "my_compress malloc compress packet = (False, packet, compress_room (length packet))"
  | n where "50 \<le> length packet" "malloc (compress_room (length packet))"
      "compress (compress_room (length packet)) packet = Inl n"
      "my_compress malloc compress packet = (n = 0, packet, n)"
  | out where "50 \<le> length packet" "malloc (compress_room (length packet))"
      "compress (compress_room (length packet)) packet = Inr out" "length packet \<le> length out"
      "my_compress malloc compress packet = (True, packet, 0)"
  | out where "50 \<le> length packet" "malloc (compress_room (length packet))"
      "compress (compress_room (length packet)) packet = Inr out" "length out < length packet"
      "my_compress malloc compress packet = (False, out, length packet)"
proof -
  consider "length packet < 50" | "50 \<le> length packet" "\<not> malloc (compress_room (length packet))"
    | n where "50 \<le> length packet" "malloc (compress_room (length packet))"
      "compress (compress_room (length packet)) packet = Inl n"
    | out where "50 \<le> length packet" "malloc (compress_room (length packet))"
      "compress (compress_room (length packet)) packet = Inr out" "length packet \<le> length out"
    | out where "50 \<le> length packet" "malloc (compress_room (length packet))"
      "compress (compress_room (length packet)) packet = Inr out" "length out < length packet"
    by (metis linorder_not_less sum.exhaust)
  then show thesis
    by cases (use that in \<open>auto simp: my_compress_def my_compress_alloc_def MIN_COMPRESS_LENGTH_def Let_def\<close>)
qed

definition alloc_compress_ok :: "(nat \<Rightarrow> bool) \<Rightarrow> codec \<Rightarrow> bytes \<Rightarrow> bool" where
  "alloc_compress_ok malloc compress packet \<longleftrightarrow>
     malloc (compress_room (length packet)) \<and>
     (\<exists>out. compress (compress_room (length packet)) packet = Inr out)"

lemma my_compress_uncompress:
  assumes "zlib_ok compress uncompress" "alloc_compress_ok malloc compress packet"
    and "my_compress malloc compress packet = (err, sent, complen)" "malloc' (length packet)"
  shows "(err \<longrightarrow> sent = packet \<and> complen = 0) \<and>
     my_uncompress malloc' uncompress sent complen = (False, packet, length packet)"
proof (cases rule: my_compress_cases [of packet malloc compress])
  case (5 out)
  then have "uncompress (length packet) out = Inr packet" using assms(1) by (simp add: zlib_ok_def)
  with 5 assms(3,4) show ?thesis by (auto simp: my_uncompress_def)
qed (use assms(2,3,4) in \<open>auto simp: my_uncompress_def alloc_compress_ok_def\<close>)

lemma int4store_read: "uint4korr (int4store a @ r) = Some a"
  by (simp add: c4.dec_enc_exact unat_mask_32)

lemma length_int4store: "length (int4store a) = 4"
  by (rule c4.length_enc)

lemma unpackfrm_blob:
  assumes "length data < 2 ^ 32" "length cdata < 2 ^ 32" "\<And>n. malloc n"
  shows "unpackfrm malloc uncompress
      (int4store 1 @ int4store (of_nat (length data)) @ int4store (of_nat (length cdata)) @ cdata) =
    (case my_uncompress malloc uncompress cdata (length data) of
       (True, _) \<Rightarrow> Some (Inl 3) | (False, out, _) \<Rightarrow> Some (Inr out))" (is "unpackfrm _ _ ?blob = _")
proof -
  have d4: "drop 4 ?blob = int4store (of_nat (length data)) @ int4store (of_nat (length cdata)) @ cdata"
    by (simp add: length_int4store)
  have d8: "drop 8 ?blob = int4store (of_nat (length cdata)) @ cdata" and d12: "drop 12 ?blob = cdata"
    by (simp_all add: length_int4store)
  have "unat (of_nat (length data) :: uint32) = length data" "unat (of_nat (length cdata) :: uint32) = length cdata"
    using assms by (auto intro!: unat_of_nat_small)
  then show ?thesis
    unfolding unpackfrm_def d4 d8 int4store_read BLOB_HEADER_def d12
    using assms(3) by (simp add: length_int4store split: prod.split)
qed

subsection \<open>Properties\<close>

text \<open>
  C21: With memory and a zlib that can compress the packet into the buffer of the size computed for it, the bytes that
  \<open>my_compress\<close> leaves, with the length it reports (0 when the data was sent as it is, an error return included), are
  turned back into the packet by \<open>my_uncompress\<close>. Above 35791394 bytes the size wraps around in 32 bits; the
  round trip still holds whenever the compressed data fits into the smaller buffer.
\<close>

theorem compress_roundtrip:
  assumes "zlib_ok compress uncompress" "alloc_compress_ok malloc compress packet" "malloc' (length packet)"
    and "my_compress malloc compress packet = (err, sent, complen)"
  shows "(err \<longrightarrow> sent = packet \<and> complen = 0) \<and> length sent \<le> length packet \<and>
     my_uncompress malloc' uncompress sent complen = (False, packet, length packet)"
proof -
  have "length sent \<le> length packet"
    using assms(4) by (cases rule: my_compress_cases [of packet malloc compress]) auto
  with my_compress_uncompress [where malloc' = malloc', OF assms(1,2,4,3)] show ?thesis by blast
qed

theorem compress_roundtrip_witness:
  "my_compress (\<lambda>_. True) rle_compress (replicate 60 7) = (False, [1, 7, 60], 60) \<and>
   my_uncompress (\<lambda>_. True) rle_uncompress [1, 7, 60] 60 = (False, replicate 60 7, 60)"
proof -
  have c: "rle_compress 84 (replicate 60 7) = Inr [1, 7, 60]" by (simp add: rle_compress_def)
  then have m: "my_compress (\<lambda>_. True) rle_compress (replicate 60 7) = (False, [1, 7, 60], 60)"
    by (simp add: my_compress_def my_compress_alloc_def MIN_COMPRESS_LENGTH_def Let_def compress_room_60)
  have "alloc_compress_ok (\<lambda>_. True) rle_compress (replicate 60 7)"
    using c by (simp add: alloc_compress_ok_def compress_room_60)
  with m show ?thesis
    using compress_roundtrip [OF rle_zlib_ok _ _ m, of "\<lambda>_. True"] by simp
qed

text \<open>
  When the compression buffer cannot be allocated, \<open>my_compress\<close> reports success with a non-zero
  \<open>complen\<close> although the data was left as it was, so that a receiver would try to decompress it.
\<close>

theorem my_compress_out_of_memory:
  assumes "50 \<le> length packet" "\<not> malloc (compress_room (length packet))"
  shows "\<exists>complen. my_compress malloc compress packet = (False, packet, complen) \<and> 0 < complen"
proof (cases rule: my_compress_cases [of packet malloc compress])
  case 2
  then show ?thesis using compress_room_pos by blast
qed (use assms in auto)

theorem my_compress_out_of_memory_witness:
  "\<exists>complen. my_compress (\<lambda>_. False) rle_compress (replicate 50 0) = (False, replicate 50 0, complen) \<and> 0 < complen"
  using my_compress_out_of_memory [of "replicate 50 0" "\<lambda>_. False" rle_compress] by simp

text \<open>
  C33: A blob that \<open>packfrm\<close> makes of at least \<open>MIN_COMPRESS_LENGTH\<close> bytes is unpacked to the original;
  data below that length is packed without compression and still handed to \<open>uncompress\<close> by
  \<open>unpackfrm\<close>, which fails with code 3 whenever zlib rejects it. The sizes of the compression buffer and of the
  blob are computed in 32 bits; the blob is one for which neither made the code fail.
\<close>

theorem packfrm_roundtrip:
  assumes "zlib_ok compress uncompress" "alloc_compress_ok malloc compress data" "\<And>n. malloc' n"
    and "length data < 2 ^ 32" "packfrm malloc compress data = Some (Inr blob)"
  shows "unpackfrm malloc' uncompress blob =
    (if 50 \<le> length data then Some (Inr data)
     else if data = [] then Some (Inr [])
     else case uncompress (length data) data of Inl _ \<Rightarrow> Some (Inl 3) | Inr out \<Rightarrow> Some (Inr out))"
proof -
  obtain err sent complen where c: "my_compress malloc compress data = (err, sent, complen)"
    by (metis prod.exhaust)
  then have blob: "\<not> err" "blob = int4store 1 @ int4store (of_nat (length data)) @ int4store (of_nat (length sent)) @ sent"
    using assms(5) by (auto simp: packfrm_def Let_def split: if_splits bool.splits)
  have "length sent \<le> length data"
    using c by (cases rule: my_compress_cases [of data malloc compress]) auto
  then have un: "unpackfrm malloc' uncompress blob =
      (case my_uncompress malloc' uncompress sent (length data) of
         (True, _) \<Rightarrow> Some (Inl 3) | (False, out, _) \<Rightarrow> Some (Inr out))"
    unfolding blob(2) using assms(3,4) by (intro unpackfrm_blob) auto
  have long: "unpackfrm malloc' uncompress blob = Some (Inr data)" if "50 \<le> length data"
  proof (cases rule: my_compress_cases [of data malloc compress])
    case (5 out)
    then have "complen = length data" using c by simp
    then show ?thesis
      using un my_compress_uncompress [where malloc' = malloc', OF assms(1,2) c assms(3)] by simp
  qed (use that c blob(1) assms(2) in \<open>auto simp: alloc_compress_ok_def\<close>)
  have "sent = data" if "length data < 50"
    using that c by (cases rule: my_compress_cases [of data malloc compress]) auto
  with long un assms(3) show ?thesis
    by (auto simp: my_uncompress_def split: sum.split)
qed

theorem packfrm_roundtrip_witness:
  "\<exists>blob. packfrm (\<lambda>_. True) rle_compress (replicate 60 7) = Some (Inr blob) \<and>
     unpackfrm (\<lambda>_. True) rle_uncompress blob = Some (Inr (replicate 60 7))"
proof -
  have c: "rle_compress 84 (replicate 60 7) = Inr [1, 7, 60]" by (simp add: rle_compress_def)
  then have p: "packfrm (\<lambda>_. True) rle_compress (replicate 60 7) =
      Some (Inr (int4store 1 @ int4store 60 @ int4store 3 @ [1, 7, 60]))"
    by (simp add: packfrm_def my_compress_def my_compress_alloc_def MIN_COMPRESS_LENGTH_def Let_def compress_room_60 BLOB_HEADER_def)
  have "alloc_compress_ok (\<lambda>_. True) rle_compress (replicate 60 7)"
    using c by (simp add: alloc_compress_ok_def compress_room_60)
  with p show ?thesis
    using packfrm_roundtrip [OF rle_zlib_ok _ _ _ p, of "\<lambda>_. True"] by simp
qed

end
