(* ===== verification/Vio.thy ===== *)
theory Vio
  imports Prelude
begin

text \<open>
  The connection layer: \<^verbatim>\<open>vio/viosocket.c\<close> and \<^verbatim>\<open>vio/vio.c\<close> for sockets on a POSIX system. A Vio is
  a record; the system calls on its descriptor are a parameter \<open>kernel\<close>, and the kernel's state for
  the descriptor (with \<open>errno\<close>) is a field of the record. The function pointers of the C struct are the
  record \<open>vio_ops\<close>, which the packet layer calls.

  The two contracts the packet layer relies on are the locales \<open>vio_bounds\<close> (a transfer never
  exceeds the request, whatever fails) and \<open>stream_vio\<close> (a connection without failures delivers its
  stream in order, in pieces of any size). Both are interpreted on the functions of this theory over a
  scripted stream socket.
\<close>

subsection \<open>System calls\<close>

datatype errno = E_NONE | SOCKET_EAGAIN | SOCKET_EINTR | SOCKET_EWOULDBLOCK | SOCKET_ETIMEDOUT | E_OTHER

record 's kernel =
  k_read :: "'s \<Rightarrow> nat \<Rightarrow> bytes option \<times> 's"
  k_write :: "'s \<Rightarrow> bytes \<Rightarrow> nat option \<times> 's"
  k_errno :: "'s \<Rightarrow> errno"
  k_setfl :: "'s \<Rightarrow> uint32 \<Rightarrow> int \<times> 's"
  k_getfl :: "'s \<Rightarrow> uint32"
  k_shutdown :: "'s \<Rightarrow> bool \<times> 's"
  k_close :: "'s \<Rightarrow> bool \<times> 's"
  k_poll :: "'s \<Rightarrow> int \<times> bool \<times> 's"

subsection \<open>The Vio\<close>

datatype enum_vio_type = VIO_CLOSED | VIO_TYPE_TCPIP | VIO_TYPE_SOCKET

datatype vio_read_fn = Read_plain | Read_buff

record 's vio =
  sys :: 's
  sd :: int
  localhost :: bool
  fcntl_mode :: uint32
  vtype :: enum_vio_type
  read_buffer :: "bytes option"
  read_pos :: nat
  read_end :: nat
  read_fn :: vio_read_fn

definition VIO_LOCALHOST :: uint32 where "VIO_LOCALHOST = 1"
definition VIO_BUFFERED_READ :: uint32 where "VIO_BUFFERED_READ = 2"
definition VIO_READ_BUFFER_SIZE :: nat where "VIO_READ_BUFFER_SIZE = 16384"
definition VIO_UNBUFFERED_READ_MIN_SIZE :: nat where "VIO_UNBUFFERED_READ_MIN_SIZE = 2048"
definition O_NONBLOCK :: uint32 where "O_NONBLOCK = 0x800"

definition vio_errno :: "'s kernel \<Rightarrow> 's vio \<Rightarrow> errno" where
  "vio_errno k vio = k_errno k (sys vio)"

definition vio_read :: "'s kernel \<Rightarrow> 's vio \<Rightarrow> nat \<Rightarrow> bytes option \<times> 's vio" where
  "vio_read k vio sz = (let (r, s) = k_read k (sys vio) sz in (r, vio\<lparr>sys := s\<rparr>))"

text \<open>
  The outer option is \<^const>\<open>None\<close> where the C function would use a null or too short
  \<open>read_buffer\<close>.
\<close>

definition vio_read_buff :: "'s kernel \<Rightarrow> 's vio \<Rightarrow> nat \<Rightarrow> (bytes option \<times> 's vio) option" where
  "vio_read_buff k vio sz =
     (if read_pos vio < read_end vio then
        let rc = min (read_end vio - read_pos vio) sz in
        case read_buffer vio of
          None \<Rightarrow> None
        | Some b \<Rightarrow>
            if length b < read_end vio then None
            else Some (Some (take rc (drop (read_pos vio) b)), vio\<lparr>read_pos := read_pos vio + rc\<rparr>)
      else if sz < VIO_UNBUFFERED_READ_MIN_SIZE then
        case read_buffer vio of
          None \<Rightarrow> None
        | Some b \<Rightarrow>
            (case vio_read k vio VIO_READ_BUFFER_SIZE of
               (Some bs, vio) \<Rightarrow>
                 if bs = [] then Some (Some [], vio)
                 else if length b < length bs then None
                 else
                   let vio = vio\<lparr>read_buffer := Some (bs @ drop (length bs) b)\<rparr> in
                   if sz < length bs
                   then Some (Some (take sz bs), vio\<lparr>read_pos := sz, read_end := length bs\<rparr>)
                   else Some (Some bs, vio)
             | (None, vio) \<Rightarrow> Some (None, vio))
      else Some (vio_read k vio sz))"

definition vio_write :: "'s kernel \<Rightarrow> 's vio \<Rightarrow> bytes \<Rightarrow> nat option \<times> 's vio" where
  "vio_write k vio buf = (let (r, s) = k_write k (sys vio) buf in (r, vio\<lparr>sys := s\<rparr>))"

definition vio_blocking :: "'s kernel \<Rightarrow> 's vio \<Rightarrow> bool \<Rightarrow> int \<times> 's vio" where
  "vio_blocking k vio set_blocking_mode =
     (if sd vio \<ge> 0 then
        let old_fcntl = fcntl_mode vio;
            vio = vio\<lparr>fcntl_mode := (if set_blocking_mode then old_fcntl AND NOT O_NONBLOCK else old_fcntl OR O_NONBLOCK)\<rparr>
        in if old_fcntl \<noteq> fcntl_mode vio then
             let (r, s) = k_setfl k (sys vio) (fcntl_mode vio);
                 vio = vio\<lparr>sys := s\<rparr>
             in (r, if r = - 1 then vio\<lparr>fcntl_mode := old_fcntl\<rparr> else vio)
           else (0, vio)
      else (0, vio))"

definition vio_is_blocking :: "'s vio \<Rightarrow> bool" where
  "vio_is_blocking vio \<longleftrightarrow> fcntl_mode vio AND O_NONBLOCK = 0"

definition vio_should_retry :: "'s kernel \<Rightarrow> 's vio \<Rightarrow> bool" where
  "vio_should_retry k vio \<longleftrightarrow> k_errno k (sys vio) \<in> {SOCKET_EAGAIN, SOCKET_EINTR, SOCKET_EWOULDBLOCK}"

definition vio_was_interrupted :: "'s kernel \<Rightarrow> 's vio \<Rightarrow> bool" where
  "vio_was_interrupted k vio \<longleftrightarrow>
     k_errno k (sys vio) \<in> {SOCKET_EAGAIN, SOCKET_EINTR, SOCKET_EWOULDBLOCK, SOCKET_ETIMEDOUT}"

definition vio_close :: "'s kernel \<Rightarrow> 's vio \<Rightarrow> int \<times> 's vio" where
  "vio_close k vio =
     (let (r, s) =
        (if vtype vio \<noteq> VIO_CLOSED then
           let (e1, s) = k_shutdown k (sys vio); (e2, s) = k_close k s
           in (if e1 \<or> e2 then - 1 else 0, s)
         else (0, sys vio))
      in (r, vio\<lparr>sys := s, vtype := VIO_CLOSED, sd := - 1\<rparr>))"

text \<open>
  \<open>vio_init\<close> for the socket types. \<open>have_read_buff\<close> is the build flag \<open>HAVE_VIO_READ_BUFF\<close>;
  \<open>m\<close> is the fresh block \<open>my_malloc\<close> returns for the read buffer.
\<close>

definition vio_init :: "bool \<Rightarrow> bytes option \<Rightarrow> 's \<Rightarrow> enum_vio_type \<Rightarrow> int \<Rightarrow> uint32 \<Rightarrow> 's vio" where
  "vio_init have_read_buff m s type fd flags =
     (let flags = (if have_read_buff then flags else flags AND NOT VIO_BUFFERED_READ);
          local = (flags AND VIO_LOCALHOST \<noteq> 0);
          buffer = (if flags AND VIO_BUFFERED_READ \<noteq> 0 then m else None);
          flags = (if flags AND VIO_BUFFERED_READ \<noteq> 0 \<and> m = None then flags AND NOT VIO_BUFFERED_READ else flags)
      in \<lparr>sys = s, sd = fd, localhost = local, fcntl_mode = 0, vtype = type, read_buffer = buffer,
          read_pos = 0, read_end = 0,
          read_fn = (if flags AND VIO_BUFFERED_READ \<noteq> 0 then Read_buff else Read_plain)\<rparr>)"

definition vio_reset :: "bool \<Rightarrow> bytes option \<Rightarrow> 's vio \<Rightarrow> enum_vio_type \<Rightarrow> int \<Rightarrow> uint32 \<Rightarrow> 's vio" where
  "vio_reset have_read_buff m vio type fd flags = vio_init have_read_buff m (sys vio) type fd flags"

definition vio_new :: "'s kernel \<Rightarrow> bool \<Rightarrow> bool \<Rightarrow> bytes option \<Rightarrow> 's \<Rightarrow> int \<Rightarrow> enum_vio_type \<Rightarrow> uint32 \<Rightarrow> 's vio option" where
  "vio_new k have_read_buff malloc_ok m s fd type flags =
     (if malloc_ok then
        let vio = vio_init have_read_buff m s type fd flags;
            (_, s) = k_setfl k (sys vio) 0
        in Some (vio\<lparr>sys := s, fcntl_mode := k_getfl k s\<rparr>)
      else None)"

definition vio_delete :: "'s kernel \<Rightarrow> 's vio option \<Rightarrow> 's vio option" where
  "vio_delete k vio =
     (case vio of
        None \<Rightarrow> None
      | Some vio \<Rightarrow> Some (if vtype vio \<noteq> VIO_CLOSED then snd (vio_close k vio) else vio))"

text \<open>\<open>res\<close> and \<open>revents\<close> of \<open>poll\<close>; the result 0 means there is data.\<close>

definition vio_poll_read :: "'s kernel \<Rightarrow> 's vio \<Rightarrow> bool \<times> 's vio" where
  "vio_poll_read k vio =
     (let (res, revents, s) = k_poll k (sys vio); vio = vio\<lparr>sys := s\<rparr>
      in if res \<le> 0 then (if res < 0 then False else True, vio)
         else (if revents then False else True, vio))"

subsection \<open>The function pointers\<close>

record 'v vio_ops =
  op_read :: "'v \<Rightarrow> nat \<Rightarrow> (bytes option \<times> 'v) option"
  op_write :: "'v \<Rightarrow> bytes \<Rightarrow> nat option \<times> 'v"
  op_blocking :: "'v \<Rightarrow> bool \<Rightarrow> int \<times> 'v"
  op_is_blocking :: "'v \<Rightarrow> bool"
  op_should_retry :: "'v \<Rightarrow> bool"
  op_was_interrupted :: "'v \<Rightarrow> bool"
  op_errno :: "'v \<Rightarrow> errno"
  op_poll :: "'v \<Rightarrow> int \<times> bool \<times> 'v"

definition socket_ops :: "'s kernel \<Rightarrow> 's vio vio_ops" where
  "socket_ops k =
     \<lparr>op_read = (\<lambda>vio n. case read_fn vio of Read_buff \<Rightarrow> vio_read_buff k vio n | Read_plain \<Rightarrow> Some (vio_read k vio n)),
      op_write = vio_write k, op_blocking = vio_blocking k, op_is_blocking = vio_is_blocking,
      op_should_retry = vio_should_retry k, op_was_interrupted = vio_was_interrupted k, op_errno = vio_errno k,
      op_poll = (\<lambda>vio. let (res, revents, s) = k_poll k (sys vio) in (res, revents, vio\<lparr>sys := s\<rparr>))\<rparr>"

subsection \<open>The contracts of a connection\<close>

locale vio_bounds =
  fixes ops :: "'v vio_ops" and inv :: "'v \<Rightarrow> bool"
  assumes read_defined: "inv v \<Longrightarrow> \<exists>r v'. op_read ops v n = Some (r, v') \<and> inv v'"
    and read_bound: "inv v \<Longrightarrow> op_read ops v n = Some (Some bs, v') \<Longrightarrow> length bs \<le> n"
    and write_inv: "inv v \<Longrightarrow> op_write ops v bs = (r, v') \<Longrightarrow> inv v'"
    and write_bound: "inv v \<Longrightarrow> op_write ops v bs = (Some n, v') \<Longrightarrow> n \<le> length bs"
    and blocking_inv: "inv v \<Longrightarrow> op_blocking ops v b = (res, v') \<Longrightarrow> inv v'"
    and poll_inv: "inv v \<Longrightarrow> op_poll ops v = (res, e, v') \<Longrightarrow> inv v'"

text \<open>
  A connection that fails only finitely often: every failed call uses up some of \<open>fuel\<close>, and end of
  file is not mistaken for an interrupted call.
\<close>

locale vio_progress = vio_bounds +
  fixes fuel :: "'v \<Rightarrow> nat"
  assumes write_fuel: "inv v \<Longrightarrow> op_write ops v bs = (r, v') \<Longrightarrow> fuel v' \<le> fuel v"
    and write_progress: "inv v \<Longrightarrow> bs \<noteq> [] \<Longrightarrow> op_write ops v bs = (r, v') \<Longrightarrow> r = None \<or> r = Some 0 \<Longrightarrow> fuel v' < fuel v"
    and read_fuel: "inv v \<Longrightarrow> op_read ops v n = Some (rd, v') \<Longrightarrow> fuel v' \<le> fuel v"
    and read_progress: "inv v \<Longrightarrow> op_read ops v n = Some (None, v') \<Longrightarrow> fuel v' < fuel v"
    and read_eof: "inv v \<Longrightarrow> 0 < n \<Longrightarrow> op_read ops v n = Some (Some [], v') \<Longrightarrow>
      \<not> op_should_retry ops v' \<and> op_errno ops v' \<noteq> SOCKET_EINTR"
    and blocking_fuel: "inv v \<Longrightarrow> op_blocking ops v b = (res, v') \<Longrightarrow> fuel v' \<le> fuel v"

text \<open>A connection with a bounded amount of incoming data, \<open>pending\<close>, which reads use up.\<close>

locale vio_finite = vio_progress +
  fixes pending :: "'v \<Rightarrow> nat"
  assumes read_pending: "inv v \<Longrightarrow> op_read ops v n = Some (Some bs, v') \<Longrightarrow> pending v' + length bs \<le> pending v"
    and fail_pending: "inv v \<Longrightarrow> op_read ops v n = Some (None, v') \<Longrightarrow> pending v' \<le> pending v"
    and blocking_pending: "inv v \<Longrightarrow> op_blocking ops v b = (res, v') \<Longrightarrow> pending v' \<le> pending v"

locale stream_vio =
  fixes ops :: "'v vio_ops" and inv :: "'v \<Rightarrow> bool" and incoming outgoing :: "'v \<Rightarrow> bytes"
  assumes stream_read: "inv v \<Longrightarrow> 0 < n \<Longrightarrow> incoming v \<noteq> [] \<Longrightarrow>
      \<exists>bs v'. op_read ops v n = Some (Some bs, v') \<and> bs \<noteq> [] \<and> length bs \<le> n \<and>
        incoming v = bs @ incoming v' \<and> outgoing v' = outgoing v \<and> inv v'"
    and stream_write: "inv v \<Longrightarrow> bs \<noteq> [] \<Longrightarrow>
      \<exists>n v'. op_write ops v bs = (Some n, v') \<and> 0 < n \<and> n \<le> length bs \<and>
        outgoing v' = outgoing v @ take n bs \<and> incoming v' = incoming v \<and> inv v'"

subsection \<open>A scripted stream socket\<close>

text \<open>
  A connected socket as the manual pages of \<open>read\<close> and \<open>write\<close> describe it: two byte queues and a
  script that decides, call by call, how much is transferred or which error is raised.
\<close>

datatype event = Chunk nat | Fail errno

record sock =
  sk_in :: bytes
  sk_out :: bytes
  sk_script :: "event list"
  sk_errno :: errno
  sk_flags :: uint32

definition chunk_size :: "event list \<Rightarrow> nat \<Rightarrow> nat" where
  "chunk_size evs n = (case evs of Chunk c # _ \<Rightarrow> min n (max 1 c) | _ \<Rightarrow> n)"

definition sock_read :: "sock \<Rightarrow> nat \<Rightarrow> bytes option \<times> sock" where
  "sock_read s n =
     (case sk_script s of
        Fail e # evs \<Rightarrow> (None, s\<lparr>sk_script := evs, sk_errno := e\<rparr>)
      | evs \<Rightarrow> let c = chunk_size evs n
               in (Some (take c (sk_in s)), s\<lparr>sk_in := drop c (sk_in s), sk_script := tl evs, sk_errno := E_NONE\<rparr>))"

definition sock_write :: "sock \<Rightarrow> bytes \<Rightarrow> nat option \<times> sock" where
  "sock_write s bs =
     (case sk_script s of
        Fail e # evs \<Rightarrow> (None, s\<lparr>sk_script := evs, sk_errno := e\<rparr>)
      | evs \<Rightarrow> let c = chunk_size evs (length bs)
               in (Some c, s\<lparr>sk_out := sk_out s @ take c bs, sk_script := tl evs\<rparr>))"

definition sock_kernel :: "sock kernel" where
  "sock_kernel =
     \<lparr>k_read = sock_read, k_write = sock_write, k_errno = sk_errno,
      k_setfl = (\<lambda>s m. (0, s\<lparr>sk_flags := m\<rparr>)), k_getfl = sk_flags,
      k_shutdown = (\<lambda>s. (False, s)), k_close = (\<lambda>s. (False, s)),
      k_poll = (\<lambda>s. (if sk_in s = [] then 0 else 1, sk_in s \<noteq> [], s))\<rparr>"

subsection \<open>The socket functions keep the contracts\<close>

definition vio_wf :: "sock vio \<Rightarrow> bool" where
  "vio_wf vio \<longleftrightarrow> read_pos vio \<le> read_end vio \<and> 
     (case read_buffer vio of
        None \<Rightarrow> read_fn vio = Read_plain \<and> read_end vio = 0
      | Some b \<Rightarrow> length b = VIO_READ_BUFFER_SIZE \<and> read_end vio \<le> VIO_READ_BUFFER_SIZE) \<and>
     (read_fn vio = Read_plain \<longrightarrow> read_pos vio = read_end vio)"

definition no_failure :: "sock vio \<Rightarrow> bool" where
  "no_failure vio \<longleftrightarrow> (\<forall>e\<in>set (sk_script (sys vio)). \<exists>c. e = Chunk c)"

definition vio_incoming :: "sock vio \<Rightarrow> bytes" where
  "vio_incoming vio =
     (case read_buffer vio of
        None \<Rightarrow> [] | Some b \<Rightarrow> take (read_end vio - read_pos vio) (drop (read_pos vio) b)) @ sk_in (sys vio)"

definition vio_outgoing :: "sock vio \<Rightarrow> bytes" where
  "vio_outgoing vio = sk_out (sys vio)"

lemma chunk_size_le: "chunk_size evs n \<le> n"
  by (auto simp: chunk_size_def split: list.split event.split)

lemma chunk_size_pos: "0 < n \<Longrightarrow> 0 < chunk_size evs n"
  by (auto simp: chunk_size_def split: list.split event.split)

lemma sock_read_spec:
  assumes "sock_read s n = (r, s')"
  shows "sk_out s' = sk_out s" "set (sk_script s') \<subseteq> set (sk_script s)"
    "\<And>bs. r = Some bs \<Longrightarrow> sk_in s = bs @ sk_in s' \<and> length bs \<le> n \<and> (0 < n \<and> sk_in s \<noteq> [] \<longrightarrow> bs \<noteq> [])"
    "r = None \<Longrightarrow> sk_in s' = sk_in s \<and> (\<exists>e. Fail e \<in> set (sk_script s))"
  using assms chunk_size_le [of "sk_script s" n] chunk_size_pos [of n "sk_script s"]
  by (cases "sk_script s"; auto simp: sock_read_def Let_def split: event.splits)+

lemma vio_wf_sys [simp]: "vio_wf (vio\<lparr>sys := s\<rparr>) = vio_wf vio" "vio_wf (vio\<lparr>fcntl_mode := m\<rparr>) = vio_wf vio"
  by (simp_all add: vio_wf_def split: option.split)

lemma vio_wf_buffer:
  assumes "vio_wf vio" "read_fn vio = Read_buff"
  obtains b where "read_buffer vio = Some b" "length b = VIO_READ_BUFFER_SIZE"
    "read_pos vio \<le> read_end vio" "read_end vio \<le> VIO_READ_BUFFER_SIZE"
  using assms by (auto simp: vio_wf_def split: option.splits)

text \<open>What a read may do: deliver the next part of the incoming stream, or fail and leave it.\<close>

definition read_result :: "sock vio \<Rightarrow> nat \<Rightarrow> bytes option \<Rightarrow> sock vio \<Rightarrow> bool" where
  "read_result vio n r vio' \<longleftrightarrow>
     vio_wf vio' \<and> vio_outgoing vio' = vio_outgoing vio \<and>
     set (sk_script (sys vio')) \<subseteq> set (sk_script (sys vio)) \<and>
     (case r of
        Some bs \<Rightarrow> vio_incoming vio = bs @ vio_incoming vio' \<and> length bs \<le> n \<and>
          (0 < n \<and> vio_incoming vio \<noteq> [] \<longrightarrow> bs \<noteq> [])
      | None \<Rightarrow> vio_incoming vio' = vio_incoming vio \<and> \<not> no_failure vio)"

lemma vio_read_result:
  assumes "vio_wf vio" "read_pos vio = read_end vio" "vio_read sock_kernel vio n = (r, vio')"
  shows "read_result vio n r vio'"
proof -
  obtain s where s: "sock_read (sys vio) n = (r, s)" and v: "vio' = vio\<lparr>sys := s\<rparr>"
    using assms(3) by (auto simp: vio_read_def sock_kernel_def split: prod.splits)
  have inc: "vio_incoming vio = sk_in (sys vio)" "vio_incoming vio' = sk_in s"
    using assms(2) by (simp_all add: vio_incoming_def v split: option.split)
  have fail: "\<not> no_failure vio" if "Fail e \<in> set (sk_script (sys vio))" for e
    using that by (auto simp: no_failure_def)
  note spec = sock_read_spec [OF s]
  have "vio_wf vio'" "vio_outgoing vio' = vio_outgoing vio" "set (sk_script (sys vio')) \<subseteq> set (sk_script (sys vio))"
    using assms(1) spec(1,2) by (simp_all add: v vio_outgoing_def)
  note keep = this
  show ?thesis
  proof (cases r)
    case None
    with keep spec(4) fail show ?thesis unfolding read_result_def inc by (simp only: option.case) blast
  next
    case (Some bs)
    with keep spec(3) [OF Some] show ?thesis unfolding read_result_def inc by (simp only: option.case) metis
  qed
qed

lemma vio_fill_result:
  assumes wf: "vio_wf vio" and fn: "read_fn vio = Read_buff"
    and b: "read_buffer vio = Some b" "length b = VIO_READ_BUFFER_SIZE"
    and empty: "read_pos vio = read_end vio" and n: "n < VIO_UNBUFFERED_READ_MIN_SIZE"
    and rd: "sock_read (sys vio) VIO_READ_BUFFER_SIZE = (Some bs, s)"
  shows "\<exists>r vio'. vio_read_buff sock_kernel vio n = Some (r, vio') \<and> read_result vio n r vio'"
proof -
  note spec = sock_read_spec [OF rd]
  have sp: "sk_in (sys vio) = bs @ sk_in s" "length bs \<le> VIO_READ_BUFFER_SIZE"
    "0 < VIO_READ_BUFFER_SIZE \<and> sk_in (sys vio) \<noteq> [] \<longrightarrow> bs \<noteq> []"
    using spec(3) [OF refl] by blast+
  have inc: "vio_incoming vio = bs @ sk_in s"
    using sp(1) empty b(1) by (simp add: vio_incoming_def)
  have len: "length bs \<le> length b" using sp(2) b(2) by simp
  have "0 < VIO_READ_BUFFER_SIZE" by (simp add: VIO_READ_BUFFER_SIZE_def)
  with sp have more: "bs = [] \<longrightarrow> sk_in s = []" by auto
  have keep: "sk_out s = sk_out (sys vio)" "set (sk_script s) \<subseteq> set (sk_script (sys vio))" by (rule spec(1,2))+
  have "read_pos vio \<le> read_end vio" "read_end vio \<le> length b"
    using wf b by (simp_all add: vio_wf_def)
  note wf' = this b(2) fn empty
  define vio2 where "vio2 = vio\<lparr>sys := s, read_buffer := Some (bs @ drop (length bs) b)\<rparr>"
  consider "bs = []" | "bs \<noteq> []" "n < length bs" | "bs \<noteq> []" "length bs \<le> n" by linarith
  then show ?thesis
  proof cases
    case 1
    then have "vio_read_buff sock_kernel vio n = Some (Some [], vio\<lparr>sys := s\<rparr>)"
      using rd b(1) empty n by (simp add: vio_read_buff_def vio_read_def sock_kernel_def)
    moreover have "read_result vio n (Some []) (vio\<lparr>sys := s\<rparr>)"
      using 1 wf inc keep more empty b(1) by (auto simp: read_result_def vio_outgoing_def vio_incoming_def)
    ultimately show ?thesis by blast
  next
    case 2
    let ?v = "vio2\<lparr>read_pos := n, read_end := length bs\<rparr>"
    have "vio_incoming vio = take n bs @ vio_incoming ?v"
      using inc 2 by (simp add: vio_incoming_def vio2_def)
    moreover have "vio_wf ?v" using wf' len 2 by (simp add: vio_wf_def vio2_def)
    ultimately have "read_result vio n (Some (take n bs)) ?v"
      using keep 2 by (simp add: read_result_def vio_outgoing_def vio2_def)
    moreover have "vio_read_buff sock_kernel vio n = Some (Some (take n bs), ?v)"
      using rd b(1) empty n len 2 by (simp add: vio_read_buff_def vio_read_def sock_kernel_def vio2_def)
    ultimately show ?thesis by blast
  next
    case 3
    have "vio_incoming vio = bs @ vio_incoming vio2"
      using inc empty by (simp add: vio_incoming_def vio2_def)
    moreover have "vio_wf vio2" using wf' len by (simp add: vio_wf_def vio2_def)
    ultimately have "read_result vio n (Some bs) vio2"
      using keep 3 by (simp add: read_result_def vio_outgoing_def vio2_def)
    moreover have "vio_read_buff sock_kernel vio n = Some (Some bs, vio2)"
      using rd b(1) empty n len 3 by (simp add: vio_read_buff_def vio_read_def sock_kernel_def vio2_def)
    ultimately show ?thesis by blast
  qed
qed

lemma vio_read_buff_result:
  assumes wf: "vio_wf vio" and fn: "read_fn vio = Read_buff"
  shows "\<exists>r vio'. vio_read_buff sock_kernel vio n = Some (r, vio') \<and> read_result vio n r vio'"
proof -
  obtain b where b: "read_buffer vio = Some b" "length b = VIO_READ_BUFFER_SIZE"
    "read_pos vio \<le> read_end vio" "read_end vio \<le> VIO_READ_BUFFER_SIZE"
    by (rule vio_wf_buffer [OF wf fn])
  consider "read_pos vio < read_end vio"
    | "read_pos vio = read_end vio" "\<not> n < VIO_UNBUFFERED_READ_MIN_SIZE"
    | "read_pos vio = read_end vio" "n < VIO_UNBUFFERED_READ_MIN_SIZE"
    using b(3) by linarith
  then show ?thesis
  proof cases
    case 1
    let ?rc = "min (read_end vio - read_pos vio) n"
    have "take (read_end vio - read_pos vio) (drop (read_pos vio) b) =
        take ?rc (drop (read_pos vio) b) @
        take (read_end vio - (read_pos vio + ?rc)) (drop (read_pos vio + ?rc) b)"
      using take_split [of ?rc "read_end vio - read_pos vio" "drop (read_pos vio) b"]
      by (simp only: drop_drop diff_diff_left min.cobounded1 add.commute [of ?rc])
    moreover define vio' where "vio' = vio\<lparr>read_pos := read_pos vio + ?rc\<rparr>"
    ultimately have "vio_incoming vio = take ?rc (drop (read_pos vio) b) @ vio_incoming vio'"
      using b(1) by (simp add: vio_incoming_def)
    moreover have "vio_wf vio'" using 1 b fn by (simp add: vio'_def vio_wf_def)
    ultimately have "read_result vio n (Some (take ?rc (drop (read_pos vio) b))) vio'"
      using 1 b by (auto simp: read_result_def vio'_def vio_outgoing_def)
    moreover have "vio_read_buff sock_kernel vio n = Some (Some (take ?rc (drop (read_pos vio) b)), vio')"
      using 1 b by (simp add: vio_read_buff_def Let_def vio'_def)
    ultimately show ?thesis by blast
  next
    case 2
    then show ?thesis
      using vio_read_result [OF wf 2(1), of n] by (simp add: vio_read_buff_def) (metis prod.exhaust)
  next
    case 3
    obtain r s where r: "sock_read (sys vio) VIO_READ_BUFFER_SIZE = (r, s)" by (metis prod.exhaust)
    show ?thesis
    proof (cases r)
      case None
      then have "vio_read_buff sock_kernel vio n = Some (None, vio\<lparr>sys := s\<rparr>)"
        using r b(1) 3 by (simp add: vio_read_buff_def vio_read_def sock_kernel_def)
      moreover have "read_result vio n None (vio\<lparr>sys := s\<rparr>)"
        using vio_read_result [OF wf 3(1), of VIO_READ_BUFFER_SIZE] r None
        by (simp add: vio_read_def sock_kernel_def read_result_def)
      ultimately show ?thesis by blast
    next
      case (Some bs)
      then show ?thesis using vio_fill_result [OF wf fn b(1,2) 3] r by blast
    qed
  qed
qed

lemma socket_read_result:
  assumes "vio_wf vio"
  shows "\<exists>r vio'. op_read (socket_ops sock_kernel) vio n = Some (r, vio') \<and> read_result vio n r vio'"
proof (cases "read_fn vio")
  case Read_plain
  then have "read_pos vio = read_end vio" using assms by (simp add: vio_wf_def)
  moreover obtain r vio' where "vio_read sock_kernel vio n = (r, vio')" by (metis prod.exhaust)
  ultimately show ?thesis using vio_read_result [OF assms] Read_plain by (auto simp: socket_ops_def)
next
  case Read_buff
  then show ?thesis using vio_read_buff_result [OF assms] by (simp add: socket_ops_def)
qed

lemma socket_write_spec:
  assumes "op_write (socket_ops sock_kernel) vio bs = (r, vio')"
  shows "\<exists>s. vio' = vio\<lparr>sys := s\<rparr> \<and> sk_in s = sk_in (sys vio) \<and> set (sk_script s) \<subseteq> set (sk_script (sys vio)) \<and>
     (case r of Some n \<Rightarrow> sk_out s = sk_out (sys vio) @ take n bs \<and> n \<le> length bs \<and> (bs \<noteq> [] \<longrightarrow> 0 < n)
      | None \<Rightarrow> \<not> no_failure vio)"
proof -
  obtain s where s: "sock_write (sys vio) bs = (r, s)" and v: "vio' = vio\<lparr>sys := s\<rparr>"
    using assms by (auto simp: socket_ops_def vio_write_def sock_kernel_def split: prod.splits)
  have "0 < length bs" if "bs \<noteq> []" using that by simp
  note c = chunk_size_le [of "sk_script (sys vio)" "length bs"] chunk_size_pos [OF this, of "sk_script (sys vio)"]
  show ?thesis
    using s c by (intro exI [of _ s]) (auto simp: v sock_write_def no_failure_def Let_def split: list.splits event.splits)
qed

lemma vio_blocking_wf: "vio_wf vio \<Longrightarrow> vio_blocking sock_kernel vio b = (r, vio') \<Longrightarrow> vio_wf vio'"
  by (auto simp: vio_blocking_def sock_kernel_def Let_def split: if_splits)

interpretation sockv: vio_bounds "socket_ops sock_kernel" vio_wf
proof
  fix v :: "sock vio" and n and bs :: bytes and v' r res b e
  assume inv: "vio_wf v"
  show "\<exists>r v'. op_read (socket_ops sock_kernel) v n = Some (r, v') \<and> vio_wf v'"
    using socket_read_result [OF inv, of n] by (auto simp: read_result_def)
  show "length bs \<le> n" if "op_read (socket_ops sock_kernel) v n = Some (Some bs, v')"
    using socket_read_result [OF inv, of n] that by (auto simp: read_result_def)
  show "vio_wf v'" if "op_write (socket_ops sock_kernel) v bs = (r, v')"
    using inv socket_write_spec [OF that] by auto
  show "n \<le> length bs" if "op_write (socket_ops sock_kernel) v bs = (Some n, v')"
    using socket_write_spec [OF that] by auto
  show "vio_wf v'" if "op_blocking (socket_ops sock_kernel) v b = (res, v')"
    using inv that vio_blocking_wf by (auto simp: socket_ops_def)
  show "vio_wf v'" if "op_poll (socket_ops sock_kernel) v = (res, e, v')"
    using inv that by (auto simp: socket_ops_def sock_kernel_def)
qed

definition vio_fuel :: "sock vio \<Rightarrow> nat" where
  "vio_fuel vio = length (sk_script (sys vio))"

lemma sock_read_fuel:
  assumes "sock_read s n = (r, s')"
  shows "length (sk_script s') \<le> length (sk_script s)"
    "r = None \<Longrightarrow> length (sk_script s') < length (sk_script s)"
    "r = Some bs \<Longrightarrow> sk_errno s' = E_NONE"
  using assms by (auto simp: sock_read_def Let_def split: list.splits event.splits)

lemma socket_read_sys:
  assumes "op_read (socket_ops sock_kernel) vio n = Some (r, vio')"
  shows "(\<exists>bs. r = Some bs \<and> sys vio' = sys vio \<and> read_pos vio < read_end vio \<and> length bs = min (read_end vio - read_pos vio) n) \<or>
     (\<exists>m r'. sock_read (sys vio) m = (r', sys vio') \<and> (r = None \<longleftrightarrow> r' = None))"
  using assms
  by (auto simp: socket_ops_def vio_read_buff_def vio_read_def sock_kernel_def Let_def
      split: vio_read_fn.splits option.splits prod.splits if_splits) (metis not_None_eq)+

lemma socket_read_fuel:
  assumes "op_read (socket_ops sock_kernel) vio n = Some (r, vio')"
  shows "vio_fuel vio' \<le> vio_fuel vio" "r = None \<Longrightarrow> vio_fuel vio' < vio_fuel vio"
    "0 < n \<Longrightarrow> r = Some [] \<Longrightarrow> sk_errno (sys vio') = E_NONE"
  using socket_read_sys [OF assms] sock_read_fuel by (fastforce simp: vio_fuel_def)+

lemma socket_write_fuel:
  assumes "op_write (socket_ops sock_kernel) vio bs = (r, vio')"
  shows "vio_fuel vio' \<le> vio_fuel vio" "bs \<noteq> [] \<Longrightarrow> r = None \<or> r = Some 0 \<Longrightarrow> vio_fuel vio' < vio_fuel vio"
  using assms chunk_size_pos [of "length bs" "sk_script (sys vio)"]
  by (auto simp: socket_ops_def vio_write_def sock_kernel_def sock_write_def vio_fuel_def Let_def
      split: list.splits event.splits)

interpretation sockp: vio_progress "socket_ops sock_kernel" vio_wf vio_fuel
proof
  fix v :: "sock vio" and n and bs :: bytes and v' r rd res b
  show "vio_fuel v' \<le> vio_fuel v" if "op_write (socket_ops sock_kernel) v bs = (r, v')"
    using socket_write_fuel [OF that] by simp
  show "vio_fuel v' < vio_fuel v" if "bs \<noteq> []" "op_write (socket_ops sock_kernel) v bs = (r, v')" "r = None \<or> r = Some 0"
    using socket_write_fuel [OF that(2)] that by simp
  show "vio_fuel v' \<le> vio_fuel v" if "op_read (socket_ops sock_kernel) v n = Some (rd, v')"
    using socket_read_fuel [OF that] by simp
  show "vio_fuel v' < vio_fuel v" if "op_read (socket_ops sock_kernel) v n = Some (None, v')"
    using socket_read_fuel [OF that] by simp
  show "\<not> op_should_retry (socket_ops sock_kernel) v' \<and> op_errno (socket_ops sock_kernel) v' \<noteq> SOCKET_EINTR"
    if "0 < n" "op_read (socket_ops sock_kernel) v n = Some (Some [], v')"
    using socket_read_fuel(3) [OF that(2)] that(1)
    by (simp add: socket_ops_def vio_should_retry_def vio_errno_def sock_kernel_def)
  show "vio_fuel v' \<le> vio_fuel v" if "op_blocking (socket_ops sock_kernel) v b = (res, v')"
    using that by (auto simp: socket_ops_def vio_blocking_def sock_kernel_def vio_fuel_def Let_def split: if_splits)
qed

interpretation sockf: vio_finite "socket_ops sock_kernel" vio_wf vio_fuel "\<lambda>v. length (vio_incoming v)"
proof
  fix v :: "sock vio" and n and bs :: bytes and v' res b
  assume inv: "vio_wf v"
  show "length (vio_incoming v') + length bs \<le> length (vio_incoming v)" if "op_read (socket_ops sock_kernel) v n = Some (Some bs, v')"
    using socket_read_result [OF inv, of n] that by (auto simp: read_result_def)
  show "length (vio_incoming v') \<le> length (vio_incoming v)" if "op_read (socket_ops sock_kernel) v n = Some (None, v')"
    using socket_read_result [OF inv, of n] that by (auto simp: read_result_def)
  show "length (vio_incoming v') \<le> length (vio_incoming v)" if "op_blocking (socket_ops sock_kernel) v b = (res, v')"
    using that by (auto simp: socket_ops_def vio_blocking_def sock_kernel_def vio_incoming_def Let_def split: if_splits option.splits)
qed

definition vio_live :: "sock vio \<Rightarrow> bool" where
  "vio_live vio \<longleftrightarrow> vio_wf vio \<and> no_failure vio"

interpretation socks: stream_vio "socket_ops sock_kernel" vio_live vio_incoming vio_outgoing
proof
  fix v :: "sock vio" and n and bs :: bytes
  assume inv: "vio_live v"
  show "\<exists>bs v'. op_read (socket_ops sock_kernel) v n = Some (Some bs, v') \<and> bs \<noteq> [] \<and> length bs \<le> n \<and>
      vio_incoming v = bs @ vio_incoming v' \<and> vio_outgoing v' = vio_outgoing v \<and> vio_live v'"
    if n: "0 < n" and more: "vio_incoming v \<noteq> []"
  proof -
    obtain r v' where r: "op_read (socket_ops sock_kernel) v n = Some (r, v')" "read_result v n r v'"
      using socket_read_result [of v n] inv by (auto simp: vio_live_def)
    then obtain bs where "r = Some bs" using inv by (cases r) (auto simp: read_result_def vio_live_def)
    moreover from r(2) have "no_failure v'" using inv by (auto simp: read_result_def vio_live_def no_failure_def)
    ultimately show ?thesis using r n more by (auto simp: read_result_def vio_live_def)
  qed
  show "\<exists>n v'. op_write (socket_ops sock_kernel) v bs = (Some n, v') \<and> 0 < n \<and> n \<le> length bs \<and>
      vio_outgoing v' = vio_outgoing v @ take n bs \<and> vio_incoming v' = vio_incoming v \<and> vio_live v'"
    if bs: "bs \<noteq> []"
  proof -
    obtain r v' where r: "op_write (socket_ops sock_kernel) v bs = (r, v')" by (metis prod.exhaust)
    note spec = socket_write_spec [OF r]
    then obtain n where "r = Some n" using inv by (cases r) (auto simp: vio_live_def)
    with spec r bs inv show ?thesis
      by (auto simp: vio_live_def no_failure_def vio_outgoing_def vio_incoming_def split: option.split)
  qed
qed

subsection \<open>Properties\<close>

text \<open>
  C24: Whether or not the Vio buffers its reads, a read on a well-formed Vio touches no memory outside the
  buffer, keeps the Vio well formed, and either fails leaving the incoming stream as it was, or
  delivers the next at most \<open>n\<close> bytes of it, at least one while there are any.
\<close>

theorem vio_read_stream:
  assumes "vio_wf vio"
  shows "\<exists>r vio'. op_read (socket_ops sock_kernel) vio n = Some (r, vio') \<and> vio_wf vio' \<and>
     (case r of
        Some bs \<Rightarrow> vio_incoming vio = bs @ vio_incoming vio' \<and> length bs \<le> n \<and>
          (0 < n \<and> vio_incoming vio \<noteq> [] \<longrightarrow> bs \<noteq> [])
      | None \<Rightarrow> vio_incoming vio' = vio_incoming vio)"
proof -
  obtain r vio' where rd: "op_read (socket_ops sock_kernel) vio n = Some (r, vio')" and res: "read_result vio n r vio'"
    using socket_read_result [OF assms] by blast
  have "vio_wf vio'" using res unfolding read_result_def by blast
  moreover have "case r of
        Some bs \<Rightarrow> vio_incoming vio = bs @ vio_incoming vio' \<and> length bs \<le> n \<and>
          (0 < n \<and> vio_incoming vio \<noteq> [] \<longrightarrow> bs \<noteq> [])
      | None \<Rightarrow> vio_incoming vio' = vio_incoming vio"
  proof (cases r)
    case None
    show ?thesis using res unfolding read_result_def None option.case by blast
  next
    case (Some bs)
    show ?thesis using res unfolding read_result_def Some option.case by blast
  qed
  ultimately show ?thesis using rd by blast
qed

lemma and_not_and: "(x AND NOT y) AND y = (0 :: 'a::len word)"
  by (rule bit_word_eqI) (auto simp: bit_simps)

lemma vio_init_wf:
  assumes "\<And>b. m = Some b \<Longrightarrow> length b = VIO_READ_BUFFER_SIZE"
  shows "vio_wf (vio_init have_read_buff m s type fd flags)"
  using assms by (auto simp: vio_init_def vio_wf_def Let_def and_not_and split: option.split)

theorem vio_read_stream_witness:
  "\<exists>r vio'. op_read (socket_ops sock_kernel)
       (vio_init True (Some (replicate VIO_READ_BUFFER_SIZE 0))
          \<lparr>sk_in = [1, 2, 3], sk_out = [], sk_script = [Chunk 2], sk_errno = E_NONE, sk_flags = 0\<rparr>
          VIO_TYPE_TCPIP 3 VIO_BUFFERED_READ) 1 = Some (r, vio') \<and> vio_wf vio'"
proof -
  let ?v = "vio_init True (Some (replicate VIO_READ_BUFFER_SIZE 0))
          \<lparr>sk_in = [1, 2, 3], sk_out = [], sk_script = [Chunk 2], sk_errno = E_NONE, sk_flags = 0\<rparr>
          VIO_TYPE_TCPIP 3 VIO_BUFFERED_READ"
  have "vio_wf ?v" by (rule vio_init_wf) auto
  then show ?thesis using vio_read_stream [of ?v 1] by blast
qed

end
