(* ===== verification/Net_Serv.thy ===== *)
theory Net_Serv
  imports Bytes Compress Vio "HOL-Library.Monad_Syntax"
begin

text \<open>
  The packet layer: \<^verbatim>\<open>libmysql/net_serv.c\<close> in the client configuration (\<open>NO_ALARM\<close>,
  \<open>THREAD_SAFE_CLIENT\<close>, \<open>HAVE_COMPRESS\<close>, \<open>HAVE_POLL\<close>, no \<open>MYSQL_SERVER\<close>). This theory holds the
  operations; \<open>Net_Write\<close> and \<open>Net_Read\<close> hold what is proved of them.

  A \<open>NET\<close> is a record. The buffer is the list of its allocated bytes and the pointers into it are
  offsets, so \<open>buff_end\<close> is \<open>max_packet\<close>. Every operation returns an option: \<^const>\<open>None\<close> is a loop
  that does not end, a null pointer or an access outside the buffer. Lengths are natural numbers; the
  sizes the code computes with are below \<open>max_packet_size\<close> plus one packet, which on the supported
  configurations is far below the range of \<open>ulong\<close>. Sequence numbers are kept at their width. What the
  code gets from outside is the record \<open>net_env\<close>: the Vio's functions, the allocator and zlib.
\<close>

subsection \<open>Data\<close>

type_synonym net_errno = nat

definition ER_OUT_OF_RESOURCES :: net_errno where "ER_OUT_OF_RESOURCES = 1041"
definition ER_NET_PACKET_TOO_LARGE :: net_errno where "ER_NET_PACKET_TOO_LARGE = 1153"
definition ER_NET_FCNTL_ERROR :: net_errno where "ER_NET_FCNTL_ERROR = 1155"
definition ER_NET_UNCOMPRESS_ERROR :: net_errno where "ER_NET_UNCOMPRESS_ERROR = 1157"
definition ER_NET_READ_ERROR :: net_errno where "ER_NET_READ_ERROR = 1158"
definition ER_NET_READ_INTERRUPTED :: net_errno where "ER_NET_READ_INTERRUPTED = 1159"
definition ER_NET_ERROR_ON_WRITE :: net_errno where "ER_NET_ERROR_ON_WRITE = 1160"
definition ER_NET_WRITE_INTERRUPTED :: net_errno where "ER_NET_WRITE_INTERRUPTED = 1161"

record 'v net =
  net_vio :: "'v option"
  buff :: "bytes option"
  write_pos :: nat
  net_read_pos :: nat
  remain_in_buf :: nat
  buf_length :: nat
  where_b :: nat
  max_packet :: nat
  max_packet_size :: nat
  pkt_nr :: uint32
  compress_pkt_nr :: uint32
  retry_count :: nat
  reading_or_writing :: nat
  save_char :: uchar
  net_compress :: bool
  last_errno :: net_errno
  net_error :: nat

record 'v net_env =
  env_ops :: "'v vio_ops"
  env_realloc :: "bytes option \<Rightarrow> nat \<Rightarrow> bytes option"
  env_malloc :: "nat \<Rightarrow> bool"
  env_zip :: codec
  env_unzip :: codec

definition MAX_PACKET_LENGTH :: nat where "MAX_PACKET_LENGTH = 256 * 256 * 256 - 1"
definition NET_HEADER_SIZE :: nat where "NET_HEADER_SIZE = 4"
definition COMP_HEADER_SIZE :: nat where "COMP_HEADER_SIZE = 3"
definition IO_SIZE :: nat where "IO_SIZE = 4096"

text \<open>\<open>memcpy\<close> into a block, and a read of one byte.\<close>

definition put_bytes :: "bytes option \<Rightarrow> nat \<Rightarrow> bytes \<Rightarrow> bytes option" where
  "put_bytes b off bs =
     (case b of
        None \<Rightarrow> None
      | Some b \<Rightarrow> if off + length bs \<le> length b then Some (take off b @ bs @ drop (off + length bs) b) else None)"

definition get_bytes :: "bytes option \<Rightarrow> nat \<Rightarrow> nat \<Rightarrow> bytes option" where
  "get_bytes b off n =
     (case b of None \<Rightarrow> None | Some b \<Rightarrow> if off + n \<le> length b then Some (take n (drop off b)) else None)"

definition get_byte :: "bytes option \<Rightarrow> nat \<Rightarrow> uchar option" where
  "get_byte b off = (case b of None \<Rightarrow> None | Some b \<Rightarrow> if off < length b then Some (b ! off) else None)"

definition get_int3 :: "bytes option \<Rightarrow> nat \<Rightarrow> nat option" where
  "get_int3 b off = do { bs \<leftarrow> get_bytes b off 3; n \<leftarrow> uint3korr bs; Some (unat n) }"

subsection \<open>Setting up\<close>

text \<open>\<open>my_net_local_init\<close> of \<^verbatim>\<open>libmysql/libmysql.c\<close>; the timeouts have no field here.\<close>

definition my_net_local_init :: "nat \<Rightarrow> nat \<Rightarrow> 'v net \<Rightarrow> 'v net" where
  "my_net_local_init net_buffer_length max_allowed_packet net =
     net\<lparr>max_packet := net_buffer_length, retry_count := 1,
         max_packet_size := max net_buffer_length max_allowed_packet\<rparr>"

definition my_net_init :: "(nat \<Rightarrow> bytes option) \<Rightarrow> nat \<Rightarrow> nat \<Rightarrow> 'v net \<Rightarrow> 'v option \<Rightarrow> bool \<times> 'v net" where
  "my_net_init malloc net_buffer_length max_allowed_packet net vio =
     (let net = my_net_local_init net_buffer_length max_allowed_packet (net\<lparr>net_vio := vio\<rparr>) in
      case malloc (max_packet net + NET_HEADER_SIZE + COMP_HEADER_SIZE) of
        None \<Rightarrow> (True, net\<lparr>buff := None\<rparr>)
      | Some b \<Rightarrow>
          (False, net\<lparr>buff := Some b, net_error := 0, pkt_nr := 0, compress_pkt_nr := 0, write_pos := 0,
                      net_read_pos := 0, net_compress := False, reading_or_writing := 0, where_b := 0,
                      remain_in_buf := 0, last_errno := 0\<rparr>))"

definition net_end :: "'v net \<Rightarrow> 'v net" where
  "net_end net = net\<lparr>buff := None\<rparr>"

definition net_realloc :: "'v net_env \<Rightarrow> 'v net \<Rightarrow> nat \<Rightarrow> bool \<times> 'v net" where
  "net_realloc env net len =
     (if len \<ge> max_packet_size net then
        (True, net\<lparr>net_error := 1, last_errno := ER_NET_PACKET_TOO_LARGE\<rparr>)
      else
        let pkt_length = (len + IO_SIZE - 1) div IO_SIZE * IO_SIZE in
        case env_realloc env (buff net) (pkt_length + NET_HEADER_SIZE + COMP_HEADER_SIZE) of
          None \<Rightarrow> (True, net\<lparr>net_error := 1, last_errno := ER_OUT_OF_RESOURCES\<rparr>)
        | Some b \<Rightarrow> (False, net\<lparr>buff := Some b, write_pos := 0, max_packet := pkt_length\<rparr>))"

subsection \<open>Writing\<close>

text \<open>
  The retry loop around \<open>vio_blocking(vio, TRUE)\<close>, shared by reading and writing: whether the mode was
  set, and the Vio. It ends because \<open>retry_count\<close> grows to its limit.
\<close>

function set_blocking :: "'v vio_ops \<Rightarrow> nat \<Rightarrow> nat \<Rightarrow> 'v \<Rightarrow> bool \<times> 'v" where
  "set_blocking ops limit retry v =
     (let (r, v) = op_blocking ops v True in
      if r < 0 then
        if op_should_retry ops v \<and> retry < limit then set_blocking ops limit (retry + 1) v else (False, v)
      else (True, v))"
  by auto
termination
  by (relation "measure (\<lambda>(ops, limit, retry, v). limit - retry)") auto

declare set_blocking.simps [simp del]

text \<open>
  The write loop of \<open>net_real_write\<close>. The result is the Vio, the bytes not yet written, whether the
  alarm was set, and the error if the loop was left with one.
\<close>

partial_function (option) write_loop ::
  "'v vio_ops \<Rightarrow> nat \<Rightarrow> bool \<Rightarrow> nat \<Rightarrow> 'v \<Rightarrow> bytes \<Rightarrow> ('v \<times> bytes \<times> bool \<times> net_errno option) option" where
  "write_loop ops limit alarmed retry v rest =
     (if rest = [] then Some (v, [], alarmed, None) else
      let (r, v) = op_write ops v rest in
      if r \<noteq> None \<and> r \<noteq> Some 0 then write_loop ops limit alarmed retry v (drop (the r) rest)
      else
        let interrupted = op_should_retry ops v in
        if (interrupted \<or> r = Some 0) \<and> \<not> alarmed then
          let (ok, v) = set_blocking ops limit retry v in
          if ok then write_loop ops limit True 0 v rest
          else Some (v, rest, True, Some ER_NET_PACKET_TOO_LARGE)
        else if alarmed \<and> interrupted \<and> retry < limit then write_loop ops limit alarmed (retry + 1) v rest
        else if op_errno ops v = SOCKET_EINTR
        then write_loop ops limit alarmed (if alarmed \<and> interrupted then retry + 1 else retry) v rest
        else Some (v, rest, alarmed, Some (if interrupted then ER_NET_WRITE_INTERRUPTED else ER_NET_ERROR_ON_WRITE)))"

text \<open>The compressed packet \<open>b\<close> that \<open>net_real_write\<close> builds.\<close>

definition compressed_packet :: "'v net_env \<Rightarrow> uint32 \<Rightarrow> bytes \<Rightarrow> bytes" where
  "compressed_packet env nr packet =
     (let (err, comp_data, complen) = my_compress (env_malloc env) (env_zip env) packet;
          complen = (if err then 0 else complen)
      in int3store (of_nat (length comp_data)) @ [ucast nr] @ int3store (of_nat complen) @ comp_data)"

definition net_real_write :: "'v net_env \<Rightarrow> 'v net \<Rightarrow> bytes \<Rightarrow> (int \<times> 'v net) option" where
  "net_real_write env net packet =
     (case net_vio net of
        None \<Rightarrow> None
      | Some v \<Rightarrow>
          let net_blocking = op_is_blocking (env_ops env) v in
          if net_error net = 2 then Some (- 1, net)
          else if net_compress net \<and> \<not> env_malloc env (length packet + NET_HEADER_SIZE + COMP_HEADER_SIZE) then
            Some (1, net\<lparr>net_error := 2, last_errno := ER_OUT_OF_RESOURCES, reading_or_writing := 0\<rparr>)
          else do {
            let out = (if net_compress net then compressed_packet env (compress_pkt_nr net) packet else packet);
            let net = (if net_compress net then net\<lparr>compress_pkt_nr := compress_pkt_nr net + 1\<rparr> else net);
            (v, rest, alarmed, err) \<leftarrow> write_loop (env_ops env) (retry_count net) False 0 v out;
            let net = (case err of Some e \<Rightarrow> net\<lparr>net_error := 2, last_errno := e\<rparr> | None \<Rightarrow> net);
            let v = (if alarmed then snd (op_blocking (env_ops env) v net_blocking) else v);
            Some (if rest \<noteq> [] then 1 else 0, net\<lparr>net_vio := Some v, reading_or_writing := 0\<rparr>)
          })"

text \<open>The loop of \<open>net_write_buff\<close> that sends full sized blocks under compression.\<close>

function write_blocks :: "'v net_env \<Rightarrow> 'v net \<Rightarrow> bytes \<Rightarrow> (bool \<times> 'v net \<times> bytes) option" where
  "write_blocks env net packet =
     (if length packet > MAX_PACKET_LENGTH then do {
        (r, net) \<leftarrow> net_real_write env net (take MAX_PACKET_LENGTH packet);
        if r \<noteq> 0 then Some (True, net, packet)
        else write_blocks env net (drop MAX_PACKET_LENGTH packet)
      } else Some (False, net, packet))"
  by auto
termination
  by (relation "measure (\<lambda>(env, net, packet). length packet)") (auto simp: MAX_PACKET_LENGTH_def)

declare write_blocks.simps [simp del]

definition net_left_length :: "'v net \<Rightarrow> nat" where
  "net_left_length net =
     (if net_compress net \<and> max_packet net > MAX_PACKET_LENGTH then MAX_PACKET_LENGTH - write_pos net
      else max_packet net - write_pos net)"

text \<open>The tail of \<open>net_write_buff\<close>: the rest of the packet is copied behind \<open>write_pos\<close>.\<close>

definition net_store_rest :: "'v net \<Rightarrow> bytes \<Rightarrow> (bool \<times> 'v net) option" where
  "net_store_rest net packet = do {
     b \<leftarrow> put_bytes (buff net) (write_pos net) packet;
     Some (False, net\<lparr>buff := Some b, write_pos := write_pos net + length packet\<rparr>)
   }"

text \<open>The first step on a full buffer: fill it up and send it.\<close>

definition net_send_filled :: "'v net_env \<Rightarrow> 'v net \<Rightarrow> bytes \<Rightarrow> nat \<Rightarrow> (bool \<times> 'v net \<times> bytes) option" where
  "net_send_filled env net packet left_length =
     (if write_pos net \<noteq> 0 then do {
        b \<leftarrow> put_bytes (buff net) (write_pos net) (take left_length packet);
        let net = net\<lparr>buff := Some b\<rparr>;
        out \<leftarrow> get_bytes (buff net) 0 (write_pos net + left_length);
        (r, net) \<leftarrow> net_real_write env net out;
        if r \<noteq> 0 then Some (True, net, packet)
        else Some (False, net\<lparr>write_pos := 0\<rparr>, drop left_length packet)
      } else Some (False, net, packet))"

definition net_write_buff :: "'v net_env \<Rightarrow> 'v net \<Rightarrow> bytes \<Rightarrow> (bool \<times> 'v net) option" where
  "net_write_buff env net packet =
     (let left_length = net_left_length net in
      if length packet > left_length then do {
        (err, net, packet) \<leftarrow> net_send_filled env net packet left_length;
        if err then Some (True, net) else do {
          (err, net, packet) \<leftarrow> (if net_compress net then write_blocks env net packet else Some (False, net, packet));
          if err then Some (True, net)
          else if length packet > max_packet net then do {
            (r, net) \<leftarrow> net_real_write env net packet;
            Some (r \<noteq> 0, net)
          } else net_store_rest net packet
        }
      } else net_store_rest net packet)"

definition net_flush :: "'v net_env \<Rightarrow> 'v net \<Rightarrow> (bool \<times> 'v net) option" where
  "net_flush env net = do {
     (err, net) \<leftarrow>
       (if write_pos net \<noteq> 0 then do {
          out \<leftarrow> get_bytes (buff net) 0 (write_pos net);
          (r, net) \<leftarrow> net_real_write env net out;
          Some (r \<noteq> 0, net\<lparr>write_pos := 0\<rparr>)
        } else Some (False, net));
     Some (err, if net_compress net then net\<lparr>pkt_nr := compress_pkt_nr net\<rparr> else net)
   }"

text \<open>One physical packet: header, then two pieces of the payload.\<close>

definition packet_header :: "nat \<Rightarrow> uint32 \<Rightarrow> bytes" where
  "packet_header len nr = int3store (of_nat len) @ [ucast nr]"

function my_net_write_loop :: "'v net_env \<Rightarrow> 'v net \<Rightarrow> bytes \<Rightarrow> (bool \<times> 'v net) option" where
  "my_net_write_loop env net packet =
     (if length packet \<ge> MAX_PACKET_LENGTH then do {
        let nr = pkt_nr net;
        let net = net\<lparr>pkt_nr := pkt_nr net + 1\<rparr>;
        (err, net) \<leftarrow> net_write_buff env net (packet_header MAX_PACKET_LENGTH nr);
        if err then Some (True, net) else do {
          (err, net) \<leftarrow> net_write_buff env net (take MAX_PACKET_LENGTH packet);
          if err then Some (True, net) else my_net_write_loop env net (drop MAX_PACKET_LENGTH packet)
        }
      } else do {
        let nr = pkt_nr net;
        let net = net\<lparr>pkt_nr := pkt_nr net + 1\<rparr>;
        (err, net) \<leftarrow> net_write_buff env net (packet_header (length packet) nr);
        if err then Some (True, net) else net_write_buff env net packet
      })"
  by auto
termination
  by (relation "measure (\<lambda>(env, net, packet). length packet)") (auto simp: MAX_PACKET_LENGTH_def)

declare my_net_write_loop.simps [simp del]

definition my_net_write :: "'v net_env \<Rightarrow> 'v net \<Rightarrow> bytes \<Rightarrow> (bool \<times> 'v net) option" where
  "my_net_write env net packet =
     (if net_vio net = None then Some (False, net) else my_net_write_loop env net packet)"

text \<open>
  \<open>net_write_command\<close>: \<open>pre\<close> is the command byte, which follows the header of the first physical packet
  only. A command header that does not fit the first packet makes the C code compute a negative
  length, \<^const>\<open>None\<close> here.
\<close>

function net_write_command_loop ::
  "'v net_env \<Rightarrow> 'v net \<Rightarrow> bytes \<Rightarrow> bytes \<Rightarrow> bytes \<Rightarrow> (bool \<times> 'v net) option" where
  "net_write_command_loop env net pre header packet =
     (let len = length pre + length header + length packet;
          first = MAX_PACKET_LENGTH - length pre - length header in
      if len \<ge> MAX_PACKET_LENGTH then
        if length pre + length header > MAX_PACKET_LENGTH then None else do {
        let nr = pkt_nr net;
        let net = net\<lparr>pkt_nr := pkt_nr net + 1\<rparr>;
        (err, net) \<leftarrow> net_write_buff env net (packet_header MAX_PACKET_LENGTH nr @ pre);
        if err then Some (True, net) else do {
          (err, net) \<leftarrow> net_write_buff env net header;
          if err then Some (True, net) else do {
            (err, net) \<leftarrow> net_write_buff env net (take first packet);
            if err then Some (True, net) else net_write_command_loop env net [] [] (drop first packet)
          }
        }
      } else do {
        let nr = pkt_nr net;
        let net = net\<lparr>pkt_nr := pkt_nr net + 1\<rparr>;
        (err, net) \<leftarrow> net_write_buff env net (packet_header len nr @ pre);
        if err then Some (True, net) else do {
          (err, net) \<leftarrow> (if header \<noteq> [] then net_write_buff env net header else Some (False, net));
          if err then Some (True, net) else do {
            (err, net) \<leftarrow> net_write_buff env net packet;
            if err then Some (True, net) else net_flush env net
          }
        }
      })"
  by auto
termination
  by (relation "measure (\<lambda>(env, net, pre, header, packet). length pre + length header + length packet)")
     (auto simp: MAX_PACKET_LENGTH_def)

declare net_write_command_loop.simps [simp del]

definition net_write_command :: "'v net_env \<Rightarrow> 'v net \<Rightarrow> uchar \<Rightarrow> bytes \<Rightarrow> bytes \<Rightarrow> (bool \<times> 'v net) option" where
  "net_write_command env net command header packet = net_write_command_loop env net [command] header packet"

subsection \<open>Reading\<close>

definition net_data_is_ready :: "'v vio_ops \<Rightarrow> 'v \<Rightarrow> int \<times> 'v" where
  "net_data_is_ready ops v =
     (let (res, revents, v) = op_poll ops v
      in (if res = 0 then 0 else if res < 0 \<or> \<not> revents then 0 else 1, v))"

text \<open>The loop of \<open>net_clear\<close> that throws away what the socket still holds; the flag is the disconnect.\<close>

partial_function (option) net_clear_loop :: "'v vio_ops \<Rightarrow> 'v net \<Rightarrow> 'v \<Rightarrow> (bool \<times> 'v net \<times> 'v) option" where
  "net_clear_loop ops net v =
     (let (ready, v) = net_data_is_ready ops v in
      if ready > 0 then do {
        (r, v) \<leftarrow> op_read ops v (max_packet net);
        if r \<noteq> None \<and> r \<noteq> Some [] then do {
          b \<leftarrow> put_bytes (buff net) 0 (the r);
          net_clear_loop ops (net\<lparr>buff := Some b\<rparr>) v
        } else Some (True, net, v)
      } else Some (False, net, v))"

definition net_clear :: "'v net_env \<Rightarrow> 'v net \<Rightarrow> bool \<Rightarrow> 'v net option" where
  "net_clear env net clear_buffer = do {
     net \<leftarrow>
       (if clear_buffer then
          case net_vio net of
            None \<Rightarrow> None
          | Some v \<Rightarrow> do {
              (eof, net, v) \<leftarrow> net_clear_loop (env_ops env) net v;
              Some ((if eof then net\<lparr>net_error := 2\<rparr> else net)\<lparr>net_vio := Some v\<rparr>)
            }
        else Some net);
     Some (net\<lparr>pkt_nr := 0, compress_pkt_nr := 0, write_pos := 0\<rparr>)
   }"

text \<open>
  The inner loop of \<open>my_real_read\<close>: read \<open>remain\<close> bytes to offset \<open>at\<close> of the buffer. The result is
  the error if there was one, the Vio, the buffer, and the state of the alarm and of the retry count,
  which both live on into the next round.
\<close>

partial_function (option) read_loop ::
  "'v vio_ops \<Rightarrow> nat \<Rightarrow> bool \<Rightarrow> nat \<Rightarrow> 'v \<Rightarrow> bytes option \<Rightarrow> nat \<Rightarrow> nat
     \<Rightarrow> (net_errno option \<times> 'v \<times> bytes option \<times> bool \<times> nat) option" where
  "read_loop ops limit alarmed retry v b off remain =
     (if remain = 0 then Some (None, v, b, alarmed, retry) else
      case op_read ops v remain of
        None \<Rightarrow> None
      | Some (r, v) \<Rightarrow>
          if r \<noteq> None \<and> r \<noteq> Some [] then
            if length (the r) > remain then None else
            case put_bytes b off (the r) of
              None \<Rightarrow> None
            | Some b \<Rightarrow>
                read_loop ops limit alarmed retry v (Some b) (off + length (the r)) (remain - length (the r))
          else
            let interrupted = op_should_retry ops v in
            if (interrupted \<or> r = Some []) \<and> \<not> alarmed then
              let (ok, v) = set_blocking ops limit retry v in
              if ok then read_loop ops limit True 0 v b off remain
              else Some (Some ER_NET_FCNTL_ERROR, v, b, True, retry)
            else if alarmed \<and> interrupted \<and> retry < limit then read_loop ops limit alarmed (retry + 1) v b off remain
            else if op_errno ops v = SOCKET_EINTR
            then read_loop ops limit alarmed (if alarmed \<and> interrupted then retry + 1 else retry) v b off remain
            else Some (Some (if op_was_interrupted ops v then ER_NET_READ_INTERRUPTED else ER_NET_READ_ERROR),
                       v, b, alarmed, retry))"

text \<open>
  What \<open>my_real_read\<close> does at its label \<open>end\<close>, and the part between the two reads: check the sequence
  number, take the lengths from the header, make room. \<^const>\<open>None\<close> as a length is \<open>packet_error\<close>.
\<close>

definition real_read_end :: "'v net_env \<Rightarrow> bool \<Rightarrow> bool \<Rightarrow> 'v net \<Rightarrow> 'v net" where
  "real_read_end env net_blocking alarmed net =
     net\<lparr>net_vio := map_option (\<lambda>v. if alarmed then snd (op_blocking (env_ops env) v net_blocking) else v) (net_vio net),
         reading_or_writing := 0\<rparr>"

definition real_read_header :: "'v net_env \<Rightarrow> 'v net \<Rightarrow> (nat option \<times> nat \<times> 'v net) option" where
  "real_read_header env net = do {
     nr \<leftarrow> get_byte (buff net) (where_b net + 3);
     if nr \<noteq> ucast (pkt_nr net) then Some (None, 0, net) else do {
       let net = net\<lparr>pkt_nr := pkt_nr net + 1, compress_pkt_nr := pkt_nr net + 1\<rparr>;
       complen \<leftarrow> (if net_compress net then get_int3 (buff net) (where_b net + NET_HEADER_SIZE) else Some 0);
       len \<leftarrow> get_int3 (buff net) (where_b net);
       if len = 0 then Some (Some 0, complen, net) else do {
         let helping = max len complen + where_b net;
         if helping \<ge> max_packet net then
           let (err, net) = net_realloc env net helping
           in Some (if err then None else Some len, complen, net)
         else Some (Some len, complen, net)
       }
     }
   }"

definition my_real_read :: "'v net_env \<Rightarrow> 'v net \<Rightarrow> (nat option \<times> nat \<times> 'v net) option" where
  "my_real_read env net =
     (case net_vio net of
        None \<Rightarrow> None
      | Some v \<Rightarrow> do {
          let net_blocking = op_is_blocking (env_ops env) v;
          let remain = (if net_compress net then NET_HEADER_SIZE + COMP_HEADER_SIZE else NET_HEADER_SIZE);
          (err, v, b, alarmed, retry) \<leftarrow>
             read_loop (env_ops env) (retry_count net) False 0 v (buff net) (where_b net) remain;
          let net = net\<lparr>net_vio := Some v, buff := b\<rparr>;
          case err of
            Some e \<Rightarrow> Some (None, 0, real_read_end env net_blocking alarmed (net\<lparr>net_error := 2, last_errno := e\<rparr>))
          | None \<Rightarrow> do {
              (len, complen, net) \<leftarrow> real_read_header env net;
              case len of
                None \<Rightarrow> Some (None, complen, real_read_end env net_blocking alarmed net)
              | Some len \<Rightarrow>
                  if len = 0 then Some (Some 0, complen, real_read_end env net_blocking alarmed net) else do {
                    (err, v, b, alarmed, retry) \<leftarrow>
                       read_loop (env_ops env) (retry_count net) alarmed retry v (buff net) (where_b net) len;
                    let net = net\<lparr>net_vio := Some v, buff := b\<rparr>;
                    case err of
                      Some e \<Rightarrow> Some (None, complen, real_read_end env net_blocking alarmed
                                                    (net\<lparr>net_error := 2, last_errno := e\<rparr>))
                    | None \<Rightarrow> Some (Some len, complen, real_read_end env net_blocking alarmed net)
                  }
            }
        })"

text \<open>The loop that concatenates the physical packets of a long one, entered after a full packet.\<close>

partial_function (option) read_multi :: "'v net_env \<Rightarrow> 'v net \<Rightarrow> nat \<Rightarrow> (nat option \<times> nat \<times> 'v net) option" where
  "read_multi env net total_length = do {
     let net = net\<lparr>where_b := where_b net + MAX_PACKET_LENGTH\<rparr>;
     let total_length = total_length + MAX_PACKET_LENGTH;
     (len, complen, net) \<leftarrow> my_real_read env net;
     if len = Some MAX_PACKET_LENGTH then read_multi env net total_length else Some (len, total_length, net)
   }"

definition my_net_read_plain :: "'v net_env \<Rightarrow> 'v net \<Rightarrow> (nat option \<times> 'v net) option" where
  "my_net_read_plain env net = do {
     (len, complen, net) \<leftarrow> my_real_read env net;
     (len, net) \<leftarrow>
       (if len = Some MAX_PACKET_LENGTH then do {
          let save_pos = where_b net;
          (len, total_length, net) \<leftarrow> read_multi env net 0;
          Some (map_option (\<lambda>len. len + total_length) len, net\<lparr>where_b := save_pos\<rparr>)
        } else Some (len, net));
     let net = net\<lparr>net_read_pos := where_b net\<rparr>;
     case len of
       None \<Rightarrow> Some (None, net)
     | Some len \<Rightarrow> do {
         b \<leftarrow> put_bytes (buff net) (net_read_pos net + len) [0];
         Some (Some len, net\<lparr>buff := Some b\<rparr>)
       }
   }"

text \<open>\<open>memmove\<close> inside a block.\<close>

definition move_bytes :: "bytes option \<Rightarrow> nat \<Rightarrow> nat \<Rightarrow> nat \<Rightarrow> bytes option" where
  "move_bytes b dst from n = do { bs \<leftarrow> get_bytes b from n; put_bytes b dst bs }"

record comp_state =
  cs_buf_length :: nat
  cs_start :: nat
  cs_first :: nat
  cs_multi :: nat

text \<open>Move the data down when the first packet does not start at the beginning of the buffer.\<close>

definition comp_move_down :: "bytes option \<Rightarrow> comp_state \<Rightarrow> (bytes option \<times> comp_state) option" where
  "comp_move_down b c =
     (if cs_first c \<noteq> 0 then do {
        b \<leftarrow> move_bytes b 0 (cs_first c) (cs_buf_length c - cs_first c);
        Some (Some b, c\<lparr>cs_buf_length := cs_buf_length c - cs_first c, cs_start := cs_start c - cs_first c, cs_first := 0\<rparr>)
      } else Some (b, c))"

datatype comp_next = Packet_complete | Packet_continues | Packet_missing

text \<open>The part of the loop that looks for a whole packet in the uncompressed data.\<close>

definition comp_scan :: "bytes option \<Rightarrow> comp_state \<Rightarrow> (comp_next \<times> bytes option \<times> comp_state) option" where
  "comp_scan b c =
     (if cs_buf_length c - cs_start c \<ge> NET_HEADER_SIZE then do {
        read_length \<leftarrow> get_int3 b (cs_start c);
        if read_length = 0 then Some (Packet_complete, b, c\<lparr>cs_start := cs_start c + NET_HEADER_SIZE\<rparr>)
        else if read_length + NET_HEADER_SIZE \<le> cs_buf_length c - cs_start c then do {
          (b, c) \<leftarrow>
            (if cs_multi c \<noteq> 0 then do {
               b \<leftarrow> move_bytes b (cs_first c + cs_start c) (cs_first c + cs_start c + NET_HEADER_SIZE)
                      (cs_buf_length c - cs_start c);
               Some (Some b, c\<lparr>cs_start := cs_start c + read_length, cs_buf_length := cs_buf_length c - NET_HEADER_SIZE\<rparr>)
             } else Some (b, c\<lparr>cs_start := cs_start c + read_length + NET_HEADER_SIZE\<rparr>));
          if read_length \<noteq> MAX_PACKET_LENGTH then Some (Packet_complete, b, c\<lparr>cs_multi := 0\<rparr>)
          else do {
            (b, c) \<leftarrow> comp_move_down b (c\<lparr>cs_multi := NET_HEADER_SIZE\<rparr>);
            Some (Packet_continues, b, c)
          }
        } else Some (Packet_missing, b, c)
      } else Some (Packet_missing, b, c))"

partial_function (option) comp_read_loop ::
  "'v net_env \<Rightarrow> 'v net \<Rightarrow> comp_state \<Rightarrow> (bool \<times> 'v net \<times> comp_state) option" where
  "comp_read_loop env net c = do {
     (next, b, c) \<leftarrow> comp_scan (buff net) c;
     let net = net\<lparr>buff := b\<rparr>;
     case next of
       Packet_complete \<Rightarrow> Some (False, net, c)
     | Packet_continues \<Rightarrow> comp_read_loop env net c
     | Packet_missing \<Rightarrow> do {
         (b, c) \<leftarrow> comp_move_down (buff net) c;
         let net = net\<lparr>buff := b, where_b := cs_buf_length c\<rparr>;
         (packet_len, complen, net) \<leftarrow> my_real_read env net;
         case packet_len of
           None \<Rightarrow> Some (True, net, c)
         | Some packet_len \<Rightarrow> do {
             comp_data \<leftarrow> get_bytes (buff net) (where_b net) packet_len;
             let (err, data, complen) = my_uncompress (env_malloc env) (env_unzip env) comp_data complen;
             if err then Some (True, net\<lparr>net_error := 2, last_errno := ER_NET_UNCOMPRESS_ERROR\<rparr>, c)
             else do {
               b \<leftarrow> put_bytes (buff net) (where_b net) data;
               comp_read_loop env (net\<lparr>buff := Some b\<rparr>) (c\<lparr>cs_buf_length := cs_buf_length c + complen\<rparr>)
             }
           }
       }
   }"

definition my_net_read_compressed :: "'v net_env \<Rightarrow> 'v net \<Rightarrow> (nat option \<times> 'v net) option" where
  "my_net_read_compressed env net = do {
     (net, c) \<leftarrow>
       (if remain_in_buf net \<noteq> 0 then do {
          let start = buf_length net - remain_in_buf net;
          b \<leftarrow> put_bytes (buff net) start [save_char net];
          Some (net\<lparr>buff := Some b\<rparr>, \<lparr>cs_buf_length = buf_length net, cs_start = start, cs_first = start, cs_multi = 0\<rparr>)
        } else Some (net, \<lparr>cs_buf_length = 0, cs_start = 0, cs_first = 0, cs_multi = 0\<rparr>));
     (err, net, c) \<leftarrow> comp_read_loop env net c;
     if err then Some (None, net) else do {
       let len = cs_start c - cs_first c - NET_HEADER_SIZE - cs_multi c;
       let read_pos = cs_first c + NET_HEADER_SIZE;
       ch \<leftarrow> get_byte (buff net) (read_pos + len);
       b \<leftarrow> put_bytes (buff net) (read_pos + len) [0];
       Some (Some len, net\<lparr>net_read_pos := read_pos, buf_length := cs_buf_length c,
                           remain_in_buf := cs_buf_length c - cs_start c, save_char := ch, buff := Some b\<rparr>)
     }
   }"

definition my_net_read :: "'v net_env \<Rightarrow> 'v net \<Rightarrow> (nat option \<times> 'v net) option" where
  "my_net_read env net = (if \<not> net_compress net then my_net_read_plain env net else my_net_read_compressed env net)"

end
