(* ===== verification/Net_Write.thy ===== *)
theory Net_Write
  imports Net_Serv
begin

text \<open>
  What the packet layer writes. Over a connection without failures (\<open>stream_vio\<close>), in whatever pieces
  it accepts data, the bytes sent followed by the bytes still buffered are exactly the logical packets
  written so far, each split and numbered as the protocol asks: every writing operation is a
  refinement of appending to that stream.
\<close>

subsection \<open>The abstract stream\<close>

definition net_out :: "('v \<Rightarrow> bytes) \<Rightarrow> 'v net \<Rightarrow> bytes" where
  "net_out outgoing net =
     (case net_vio net of Some v \<Rightarrow> outgoing v | None \<Rightarrow> []) @
     (case buff net of Some b \<Rightarrow> take (write_pos net) b | None \<Rightarrow> [])"

definition net_in :: "('v \<Rightarrow> bytes) \<Rightarrow> 'v net \<Rightarrow> bytes" where
  "net_in incoming net = (case net_vio net of Some v \<Rightarrow> incoming v | None \<Rightarrow> [])"

text \<open>The physical packets of a logical one: the protocol's framing.\<close>

function frames :: "uint32 \<Rightarrow> bytes \<Rightarrow> bytes" where
  "frames nr p =
     (if length p \<ge> MAX_PACKET_LENGTH
      then packet_header MAX_PACKET_LENGTH nr @ take MAX_PACKET_LENGTH p @ frames (nr + 1) (drop MAX_PACKET_LENGTH p)
      else packet_header (length p) nr @ p)"
  by auto
termination
  by (relation "measure (\<lambda>(nr, p). length p)") (auto simp: MAX_PACKET_LENGTH_def)

declare frames.simps [simp del]

definition frame_count :: "bytes \<Rightarrow> nat" where
  "frame_count p = length p div MAX_PACKET_LENGTH + 1"

definition net_buffer_ok :: "'v net \<Rightarrow> bool" where
  "net_buffer_ok net \<longleftrightarrow>
     (\<exists>b. buff net = Some b \<and> length b = max_packet net + NET_HEADER_SIZE + COMP_HEADER_SIZE \<and>
          write_pos net \<le> max_packet net)"

definition net_ready :: "('v \<Rightarrow> bool) \<Rightarrow> 'v net \<Rightarrow> bool" where
  "net_ready live net \<longleftrightarrow>
     net_buffer_ok net \<and> (\<exists>v. net_vio net = Some v \<and> live v) \<and> net_error net \<noteq> 2 \<and> \<not> net_compress net"

text \<open>The fields writing leaves alone.\<close>

definition net_same :: "'v net \<Rightarrow> 'v net \<Rightarrow> bool" where
  "net_same net net' \<longleftrightarrow>
     pkt_nr net' = pkt_nr net \<and> compress_pkt_nr net' = compress_pkt_nr net \<and> max_packet net' = max_packet net \<and>
     max_packet_size net' = max_packet_size net \<and> where_b net' = where_b net \<and> net_error net' = net_error net \<and>
     retry_count net' = retry_count net \<and> net_compress net' = net_compress net"

lemma net_same_refl [simp]: "net_same net net"
  by (simp add: net_same_def)

lemma net_same_trans: "net_same a b \<Longrightarrow> net_same b c \<Longrightarrow> net_same a c"
  by (simp add: net_same_def)

lemma net_ready_pkt_nr [simp]: "net_ready live (net\<lparr>pkt_nr := k\<rparr>) = net_ready live net"
  by (simp add: net_ready_def net_buffer_ok_def)

lemma net_out_pkt_nr [simp]: "net_out outgoing (net\<lparr>pkt_nr := k\<rparr>) = net_out outgoing net"
  by (simp add: net_out_def split: option.split)

lemma net_in_pkt_nr [simp]: "net_in incoming (net\<lparr>pkt_nr := k\<rparr>) = net_in incoming net"
  by (simp add: net_in_def)

lemma max_packet_length_pos: "0 < MAX_PACKET_LENGTH"
  by (simp add: MAX_PACKET_LENGTH_def)

lemma length_packet_header [simp]: "length (packet_header len nr) = NET_HEADER_SIZE"
  by (simp add: packet_header_def NET_HEADER_SIZE_def c3.length_enc)

lemma put_bytes_Some:
  "put_bytes (Some b) off bs = Some b' \<longleftrightarrow>
     off + length bs \<le> length b \<and> b' = take off b @ bs @ drop (off + length bs) b"
  by (auto simp: put_bytes_def)

subsection \<open>Sending over a stream\<close>

context stream_vio
begin

lemma write_loop_stream:
  "inv v \<Longrightarrow> \<exists>v'. write_loop ops limit alarmed retry v rest = Some (v', [], alarmed, None) \<and>
     outgoing v' = outgoing v @ rest \<and> incoming v' = incoming v \<and> inv v'"
proof (induction "length rest" arbitrary: v rest rule: less_induct)
  case less
  show ?case
  proof (cases "rest = []")
    case True
    then show ?thesis using less.prems by (subst write_loop.simps) simp
  next
    case False
    obtain n v1 where w: "op_write ops v rest = (Some n, v1)" "0 < n" "n \<le> length rest"
      "outgoing v1 = outgoing v @ take n rest" "incoming v1 = incoming v" "inv v1"
      using stream_write [OF less.prems False] by blast
    have "length (drop n rest) < length rest" using False w(2) by (cases rest) simp_all
    then obtain v' where "write_loop ops limit alarmed retry v1 (drop n rest) = Some (v', [], alarmed, None)"
      "outgoing v' = outgoing v1 @ drop n rest" "incoming v' = incoming v1" "inv v'"
      using less.hyps w(6) by blast
    then show ?thesis using False w by (subst write_loop.simps) simp
  qed
qed

definition sends :: "'v net \<Rightarrow> 'v net \<Rightarrow> bytes \<Rightarrow> bool" where
  "sends net net' bs \<longleftrightarrow>
     net_ready inv net' \<and> net_out outgoing net' = net_out outgoing net @ bs \<and>
     net_in incoming net' = net_in incoming net \<and> net_same net net'"

lemma sends_trans: "sends a b xs \<Longrightarrow> sends b c ys \<Longrightarrow> sends a c (xs @ ys)"
  unfolding sends_def using net_same_trans [of a b c] by simp

lemma net_real_write_stream:
  assumes "net_vio net = Some v" "inv v" "net_error net \<noteq> 2" "\<not> net_compress net" "env_ops env = ops"
  shows "\<exists>v'. net_real_write env net p = Some (0, net\<lparr>net_vio := Some v', reading_or_writing := 0\<rparr>) \<and>
     outgoing v' = outgoing v @ p \<and> incoming v' = incoming v \<and> inv v'"
  using write_loop_stream [OF assms(2), of "retry_count net" False 0 p] assms
  by (auto simp: net_real_write_def)

lemma net_store_rest_stream:
  assumes "net_ready inv net" "length p \<le> max_packet net - write_pos net"
  shows "\<exists>net'. net_store_rest net p = Some (False, net') \<and> sends net net' p"
proof -
  obtain b v where b: "buff net = Some b" "length b = max_packet net + NET_HEADER_SIZE + COMP_HEADER_SIZE"
    "write_pos net \<le> max_packet net" "net_vio net = Some v"
    using assms(1) by (auto simp: net_ready_def net_buffer_ok_def)
  let ?b = "take (write_pos net) b @ p @ drop (write_pos net + length p) b"
  let ?net = "net\<lparr>buff := Some ?b, write_pos := write_pos net + length p\<rparr>"
  have put: "put_bytes (buff net) (write_pos net) p = Some ?b"
    using b assms(2) by (simp add: put_bytes_def)
  have "sends net ?net p"
    using assms b
    by (auto simp: sends_def net_ready_def net_buffer_ok_def net_out_def net_in_def net_same_def)
  with put show ?thesis by (simp add: net_store_rest_def)
qed

lemma net_send_filled_stream:
  assumes ready: "net_ready inv net" and env: "env_ops env = ops" and len: "length p > max_packet net - write_pos net"
  shows "\<exists>net1 p1 q. net_send_filled env net p (max_packet net - write_pos net) = Some (False, net1, p1) \<and>
     p = q @ p1 \<and> sends net net1 q \<and> write_pos net1 = 0"
proof (cases "write_pos net = 0")
  case True
  moreover have "sends net net []" using ready by (simp add: sends_def)
  ultimately show ?thesis by (simp add: net_send_filled_def)
next
  case False
  obtain b v where b: "buff net = Some b" "length b = max_packet net + NET_HEADER_SIZE + COMP_HEADER_SIZE"
    "write_pos net \<le> max_packet net" and v: "net_vio net = Some v" "inv v"
    and e: "net_error net \<noteq> 2" "\<not> net_compress net"
    using ready by (auto simp: net_ready_def net_buffer_ok_def)
  define left where "left = max_packet net - write_pos net"
  define b' where "b' = take (write_pos net) b @ take left p @ drop (write_pos net + left) b"
  have len_b': "length b' = length b" and take_b': "take (write_pos net + left) b' = take (write_pos net) b @ take left p"
    using b len by (simp_all add: b'_def left_def)
  have put: "put_bytes (buff net) (write_pos net) (take left p) = Some b'"
    using b len by (simp add: put_bytes_def left_def b'_def)
  have get: "get_bytes (Some b') 0 (write_pos net + left) = Some (take (write_pos net) b @ take left p)"
    using b len_b' take_b' by (simp add: get_bytes_def left_def)
  obtain v' where w: "net_real_write env (net\<lparr>buff := Some b'\<rparr>) (take (write_pos net) b @ take left p) =
      Some (0, net\<lparr>buff := Some b', net_vio := Some v', reading_or_writing := 0\<rparr>)"
    "outgoing v' = outgoing v @ take (write_pos net) b @ take left p" "incoming v' = incoming v" "inv v'"
    using net_real_write_stream [of "net\<lparr>buff := Some b'\<rparr>" v env] v e env by auto
  let ?net = "net\<lparr>buff := Some b', net_vio := Some v', reading_or_writing := 0, write_pos := 0\<rparr>"
  have "sends net ?net (take left p)"
    using w(2-4) b v e len_b' by (auto simp: sends_def net_ready_def net_buffer_ok_def net_out_def net_in_def net_same_def)
  moreover have "net_send_filled env net p left = Some (False, ?net, drop left p)"
    using False put get w(1) by (simp add: net_send_filled_def)
  ultimately show ?thesis
    by (intro exI [of _ ?net] exI [of _ "drop left p"] exI [of _ "take left p"]) (simp add: left_def)
qed

lemma net_write_buff_stream:
  assumes ready: "net_ready inv net" and env: "env_ops env = ops"
  shows "\<exists>net'. net_write_buff env net p = Some (False, net') \<and> sends net net' p"
proof -
  obtain b v where b: "buff net = Some b" "length b = max_packet net + NET_HEADER_SIZE + COMP_HEADER_SIZE"
    "write_pos net \<le> max_packet net" and v: "net_vio net = Some v" "inv v"
    and e: "net_error net \<noteq> 2" "\<not> net_compress net"
    using ready by (auto simp: net_ready_def net_buffer_ok_def)
  define left where "left = max_packet net - write_pos net"
  have left: "net_left_length net = left" using e by (simp add: net_left_length_def left_def)
  show ?thesis
  proof (cases "length p > left")
    case False
    then show ?thesis
      using net_store_rest_stream [OF ready] left by (simp add: net_write_buff_def left_def)
  next
    case True
    obtain net1 p1 q where f: "net_send_filled env net p left = Some (False, net1, p1)" "p = q @ p1"
      "sends net net1 q" "write_pos net1 = 0"
      using net_send_filled_stream [OF ready env True [unfolded left_def]] unfolding left_def by blast
    obtain v1 where r1: "net_ready inv net1" "net_vio net1 = Some v1" "inv v1" "net_error net1 \<noteq> 2" "\<not> net_compress net1"
      using f(3) by (auto simp: sends_def net_ready_def)
    have buff_eq: "net_write_buff env net p =
        (if length p1 > max_packet net1 then do { (r, net) \<leftarrow> net_real_write env net1 p1; Some (r \<noteq> 0, net) }
         else net_store_rest net1 p1)"
      using True f(1) r1(5) by (simp add: net_write_buff_def left)
    show ?thesis
    proof (cases "length p1 > max_packet net1")
      case True
      obtain v' where w: "net_real_write env net1 p1 = Some (0, net1\<lparr>net_vio := Some v', reading_or_writing := 0\<rparr>)"
        "outgoing v' = outgoing v1 @ p1" "incoming v' = incoming v1" "inv v'"
        using net_real_write_stream [OF r1(2-5) env] by blast
      have "sends net1 (net1\<lparr>net_vio := Some v', reading_or_writing := 0\<rparr>) p1"
        using w r1 f(4) by (auto simp: sends_def net_ready_def net_buffer_ok_def net_out_def net_in_def net_same_def)
      then have "sends net (net1\<lparr>net_vio := Some v', reading_or_writing := 0\<rparr>) p"
        unfolding f(2) by (rule sends_trans [OF f(3)])
      with True w(1) show ?thesis by (simp add: buff_eq)
    next
      case False
      then obtain net' where "net_store_rest net1 p1 = Some (False, net')" "sends net1 net' p1"
        using net_store_rest_stream [OF r1(1), of p1] f(4) by auto
      then have "sends net net' p" unfolding f(2) by (intro sends_trans [OF f(3)])
      with False \<open>net_store_rest net1 p1 = Some (False, net')\<close> show ?thesis by (simp add: buff_eq)
    qed
  qed
qed

lemma sends_pkt_nr: "sends a b xs \<Longrightarrow> sends (a\<lparr>pkt_nr := k\<rparr>) (b\<lparr>pkt_nr := k\<rparr>) xs"
  by (simp add: sends_def net_same_def)

lemma sends_ready: "sends a b xs \<Longrightarrow> net_ready inv b"
  by (simp add: sends_def)

lemma frame_count_drop:
  "MAX_PACKET_LENGTH \<le> length p \<Longrightarrow> frame_count p = frame_count (drop MAX_PACKET_LENGTH p) + 1"
  using max_packet_length_pos by (simp add: frame_count_def le_div_geq)

text \<open>Two pieces written one after the other: a header and its payload.\<close>

lemma write_two:
  assumes "net_ready inv net" "env_ops env = ops"
  obtains net1 net2 where "net_write_buff env net h = Some (False, net1)"
    "net_write_buff env net1 p = Some (False, net2)" "sends net net2 (h @ p)" "pkt_nr net2 = pkt_nr net"
proof -
  obtain net1 where 1: "net_write_buff env net h = Some (False, net1)" "sends net net1 h"
    using net_write_buff_stream [OF assms] by blast
  obtain net2 where 2: "net_write_buff env net1 p = Some (False, net2)" "sends net1 net2 p"
    using net_write_buff_stream [OF sends_ready [OF 1(2)] assms(2)] by blast
  have "sends net net2 (h @ p)" using 1 2 sends_trans by blast
  with 1 2 that show thesis by (simp add: sends_def net_same_def)
qed

lemma my_net_write_loop_stream:
  assumes "net_ready inv net" "env_ops env = ops"
  shows "\<exists>net'. my_net_write_loop env net p = Some (False, net') \<and>
     sends (net\<lparr>pkt_nr := pkt_nr net + of_nat (frame_count p)\<rparr>) net' (frames (pkt_nr net) p)"
  using assms(1)
proof (induction "length p" arbitrary: p net rule: less_induct)
  case less
  let ?net = "net\<lparr>pkt_nr := pkt_nr net + 1\<rparr>"
  have ready: "net_ready inv ?net" using less.prems by simp
  show ?case
  proof (cases "MAX_PACKET_LENGTH \<le> length p")
    case False
    obtain net1 net2 where w: "net_write_buff env ?net (packet_header (length p) (pkt_nr net)) = Some (False, net1)"
      "net_write_buff env net1 p = Some (False, net2)"
      "sends ?net net2 (packet_header (length p) (pkt_nr net) @ p)"
      by (rule write_two [OF ready assms(2)])
    then show ?thesis
      using False by (subst my_net_write_loop.simps, subst frames.simps) (simp add: frame_count_def)
  next
    case True
    let ?rest = "drop MAX_PACKET_LENGTH p"
    have shorter: "length ?rest < length p" using True max_packet_length_pos by simp
    obtain net1 net2 where w: "net_write_buff env ?net (packet_header MAX_PACKET_LENGTH (pkt_nr net)) = Some (False, net1)"
      "net_write_buff env net1 (take MAX_PACKET_LENGTH p) = Some (False, net2)"
      "sends ?net net2 (packet_header MAX_PACKET_LENGTH (pkt_nr net) @ take MAX_PACKET_LENGTH p)"
      "pkt_nr net2 = pkt_nr ?net"
      by (rule write_two [OF ready assms(2)])
    obtain net' where l: "my_net_write_loop env net2 ?rest = Some (False, net')"
      "sends (net2\<lparr>pkt_nr := pkt_nr net2 + of_nat (frame_count ?rest)\<rparr>) net' (frames (pkt_nr net2) ?rest)"
      using less.hyps [OF shorter sends_ready [OF w(3)]] by blast
    have nr: "pkt_nr net2 + of_nat (frame_count ?rest) = pkt_nr net + of_nat (frame_count p)"
      using frame_count_drop [OF True] w(4) by simp
    have "sends (net\<lparr>pkt_nr := pkt_nr net + of_nat (frame_count p)\<rparr>) net'
        ((packet_header MAX_PACKET_LENGTH (pkt_nr net) @ take MAX_PACKET_LENGTH p) @ frames (pkt_nr net2) ?rest)"
      using sends_trans [OF sends_pkt_nr [OF w(3)] l(2)] by (simp add: nr)
    with True w l(1) show ?thesis
      by (subst my_net_write_loop.simps, subst frames.simps) simp
  qed
qed

lemma net_flush_stream:
  assumes ready: "net_ready inv net" and env: "env_ops env = ops"
  shows "\<exists>net'. net_flush env net = Some (False, net') \<and> sends net net' [] \<and> write_pos net' = 0"
proof (cases "write_pos net = 0")
  case True
  then show ?thesis using ready by (simp add: net_flush_def sends_def net_ready_def)
next
  case False
  obtain b v where b: "buff net = Some b" "length b = max_packet net + NET_HEADER_SIZE + COMP_HEADER_SIZE"
    "write_pos net \<le> max_packet net" and v: "net_vio net = Some v" "inv v"
    and e: "net_error net \<noteq> 2" "\<not> net_compress net"
    using ready by (auto simp: net_ready_def net_buffer_ok_def)
  have get: "get_bytes (buff net) 0 (write_pos net) = Some (take (write_pos net) b)"
    using b by (simp add: get_bytes_def)
  obtain v' where w: "net_real_write env net (take (write_pos net) b) =
      Some (0, net\<lparr>net_vio := Some v', reading_or_writing := 0\<rparr>)"
    "outgoing v' = outgoing v @ take (write_pos net) b" "incoming v' = incoming v" "inv v'"
    using net_real_write_stream [OF v e env] by blast
  let ?net = "net\<lparr>net_vio := Some v', reading_or_writing := 0, write_pos := 0\<rparr>"
  have "sends net ?net []"
    using w(2-4) b v e by (auto simp: sends_def net_ready_def net_buffer_ok_def net_out_def net_in_def net_same_def)
  moreover have "net_flush env net = Some (False, ?net)"
    using False get w(1) e by (simp add: net_flush_def)
  ultimately show ?thesis by (intro exI [of _ ?net]) simp
qed

text \<open>A command is the logical packet of its command byte, its header and its data, flushed.\<close>

lemma net_write_command_loop_stream:
  assumes "net_ready inv net" "env_ops env = ops" "length pre + length header \<le> MAX_PACKET_LENGTH"
  shows "\<exists>net'. net_write_command_loop env net pre header p = Some (False, net') \<and> write_pos net' = 0 \<and>
     sends (net\<lparr>pkt_nr := pkt_nr net + of_nat (frame_count (pre @ header @ p))\<rparr>) net'
       (frames (pkt_nr net) (pre @ header @ p))"
  using assms(1,3)
proof (induction "length (pre @ header @ p)" arbitrary: pre header p net rule: less_induct)
  case less
  let ?net = "net\<lparr>pkt_nr := pkt_nr net + 1\<rparr>" and ?all = "pre @ header @ p"
  have ready: "net_ready inv ?net" using less.prems by simp
  show ?case
  proof (cases "MAX_PACKET_LENGTH \<le> length ?all")
    case False
    let ?h = "packet_header (length ?all) (pkt_nr net) @ pre"
    obtain net1 net2 where w: "net_write_buff env ?net ?h = Some (False, net1)"
      "net_write_buff env net1 header = Some (False, net2)" "sends ?net net2 (?h @ header)"
      by (rule write_two [OF ready assms(2)])
    obtain net1' where "net_write_buff env ?net ?h = Some (False, net1')" "sends ?net net1' ?h"
      using net_write_buff_stream [OF ready assms(2)] by blast
    with w(1) have s1: "sends ?net net1 ?h" by simp
    define net3 where "net3 = (if header = [] then net1 else net2)"
    have s3: "sends ?net net3 (?h @ header)" using w(3) s1 by (cases "header = []") (simp_all add: net3_def)
    obtain net4 where n4: "net_write_buff env net3 p = Some (False, net4)" "sends net3 net4 p"
      using net_write_buff_stream [OF sends_ready [OF s3] assms(2)] by blast
    obtain net5 where n5: "net_flush env net4 = Some (False, net5)" "sends net4 net5 []" "write_pos net5 = 0"
      using net_flush_stream [OF sends_ready [OF n4(2)] assms(2)] by blast
    have "sends ?net net5 ((?h @ header) @ p @ [])"
      using sends_trans [OF s3 sends_trans [OF n4(2) n5(2)]] .
    moreover have "net_write_command_loop env net pre header p = Some (False, net5)"
      using False w n4(1) n5(1) by (subst net_write_command_loop.simps) (simp add: net3_def add.assoc split: if_splits)
    ultimately show ?thesis
      using False n5(3) by (subst frames.simps) (simp add: frame_count_def)
  next
    case True
    let ?first = "MAX_PACKET_LENGTH - length pre - length header"
    let ?h = "packet_header MAX_PACKET_LENGTH (pkt_nr net) @ pre" and ?rest = "drop ?first p"
    obtain net1 net2 where w: "net_write_buff env ?net ?h = Some (False, net1)"
      "net_write_buff env net1 header = Some (False, net2)" "sends ?net net2 (?h @ header)"
      "pkt_nr net2 = pkt_nr ?net"
      by (rule write_two [OF ready assms(2)])
    obtain net3 where n3: "net_write_buff env net2 (take ?first p) = Some (False, net3)" "sends net2 net3 (take ?first p)"
      using net_write_buff_stream [OF sends_ready [OF w(3)] assms(2)] by blast
    define all where "all = ?all"
    have rest: "?rest = drop MAX_PACKET_LENGTH all" and "take MAX_PACKET_LENGTH all = pre @ header @ take ?first p"
      using less.prems(2) by (simp_all add: all_def)
    then have s3: "sends ?net net3 (packet_header MAX_PACKET_LENGTH (pkt_nr net) @ take MAX_PACKET_LENGTH all)"
      using sends_trans [OF w(3) n3(2)] by simp
    have True': "MAX_PACKET_LENGTH \<le> length all" using True by (simp add: all_def)
    have "length ([] @ [] @ ?rest) < length ?all"
      using True' max_packet_length_pos unfolding rest all_def [symmetric] by simp
    then obtain net' where l: "net_write_command_loop env net3 [] [] ?rest = Some (False, net')" "write_pos net' = 0"
      "sends (net3\<lparr>pkt_nr := pkt_nr net3 + of_nat (frame_count ?rest)\<rparr>) net' (frames (pkt_nr net3) ?rest)"
      using less.hyps [OF _ sends_ready [OF n3(2)], of "[]" "[]" ?rest] by auto
    have nr3: "pkt_nr net3 = pkt_nr net + 1" using n3(2) w(4) by (simp add: sends_def net_same_def)
    have nr: "pkt_nr net3 + of_nat (frame_count ?rest) = pkt_nr net + of_nat (frame_count all)"
      using frame_count_drop [OF True', folded rest] nr3 by simp
    have "sends (net\<lparr>pkt_nr := pkt_nr net + of_nat (frame_count all)\<rparr>) net'
        ((packet_header MAX_PACKET_LENGTH (pkt_nr net) @ take MAX_PACKET_LENGTH all) @ frames (pkt_nr net3) ?rest)"
      using sends_trans [OF sends_pkt_nr [OF s3] l(3)] unfolding nr by simp
    moreover have "frames (pkt_nr net) all =
        (packet_header MAX_PACKET_LENGTH (pkt_nr net) @ take MAX_PACKET_LENGTH all) @ frames (pkt_nr net3) ?rest"
      using True' unfolding nr3 rest by (subst frames.simps) (simp only: if_True append_assoc)
    moreover have "net_write_command_loop env net pre header p = Some (False, net')"
      using True less.prems(2) w n3(1) l(1) by (subst net_write_command_loop.simps) (simp add: add.assoc)
    ultimately show ?thesis using l(2) unfolding all_def [symmetric] by simp
  qed
qed

end

subsection \<open>Writing when the connection fails\<close>

definition net_wf :: "('v \<Rightarrow> bool) \<Rightarrow> 'v net \<Rightarrow> bool" where
  "net_wf ok net \<longleftrightarrow>
     net_buffer_ok net \<and> (\<exists>v. net_vio net = Some v \<and> ok v) \<and>
     (net_compress net \<and> max_packet net > MAX_PACKET_LENGTH \<longrightarrow> write_pos net \<le> MAX_PACKET_LENGTH)"

context vio_progress
begin

lemma set_blocking_inv:
  "set_blocking ops limit retry v = (okb, v') \<Longrightarrow> inv v \<Longrightarrow> inv v' \<and> fuel v' \<le> fuel v"
proof (induction "limit - retry" arbitrary: retry v rule: less_induct)
  case less
  obtain r v1 where b: "op_blocking ops v True = (r, v1)" by (metis prod.exhaust)
  have 1: "inv v1" "fuel v1 \<le> fuel v" using blocking_inv [OF less.prems(2) b] blocking_fuel [OF less.prems(2) b] .
  show ?case
  proof (cases "r < 0 \<and> op_should_retry ops v1 \<and> retry < limit")
    case True
    then have "set_blocking ops limit (retry + 1) v1 = (okb, v')"
      using less.prems(1) b by (subst (asm) set_blocking.simps) simp
    with less.hyps [of "retry + 1" v1] True 1 show ?thesis by fastforce
  next
    case False
    then have "v' = v1" using less.prems(1) b by (subst (asm) set_blocking.simps) (auto split: if_splits)
    with 1 show ?thesis by simp
  qed
qed

lemma write_loop_total:
  "inv v \<Longrightarrow> \<exists>v' rest' alarmed' err. write_loop ops limit alarmed retry v rest = Some (v', rest', alarmed', err) \<and>
     inv v' \<and> (rest' = [] \<longleftrightarrow> err = None)"
proof (induction "length rest + fuel v" arbitrary: v rest alarmed retry rule: less_induct)
  case less
  show ?case
  proof (cases "rest = []")
    case True
    then show ?thesis using less.prems by (subst write_loop.simps) simp
  next
    case False
    obtain r v1 where w: "op_write ops v rest = (r, v1)" by (metis prod.exhaust)
    have 1: "inv v1" "fuel v1 \<le> fuel v" using write_inv [OF less.prems w] write_fuel [OF less.prems w] .
    show ?thesis
    proof (cases "r \<noteq> None \<and> r \<noteq> Some 0")
      case True
      then have "length (drop (the r) rest) < length rest" using False by (cases rest) auto
      then have "length (drop (the r) rest) + fuel v1 < length rest + fuel v" using 1(2) by linarith
      from less.hyps [OF this 1(1), of alarmed retry] show ?thesis
        using False True w by (subst write_loop.simps) simp
    next
      case fail: False
      then have "fuel v1 < fuel v" using write_progress [OF less.prems False w] by auto
      then have again: "\<exists>v' rest' alarmed' err. write_loop ops limit al rt v2 rest = Some (v', rest', alarmed', err) \<and>
          inv v' \<and> (rest' = [] \<longleftrightarrow> err = None)" if "inv v2" "fuel v2 \<le> fuel v1" for al rt v2
        using less.hyps [of rest v2 al rt] that by auto
      obtain okb v2 where sb: "set_blocking ops limit retry v1 = (okb, v2)" by (metis prod.exhaust)
      have 2: "inv v2" "fuel v2 \<le> fuel v1" using set_blocking_inv [OF sb 1(1)] by auto
      have eq: "write_loop ops limit alarmed retry v rest =
          (if (op_should_retry ops v1 \<or> r = Some 0) \<and> \<not> alarmed then
             if okb then write_loop ops limit True 0 v2 rest else Some (v2, rest, True, Some ER_NET_PACKET_TOO_LARGE)
           else if alarmed \<and> op_should_retry ops v1 \<and> retry < limit then write_loop ops limit alarmed (retry + 1) v1 rest
           else if op_errno ops v1 = SOCKET_EINTR
           then write_loop ops limit alarmed (if alarmed \<and> op_should_retry ops v1 then retry + 1 else retry) v1 rest
           else Some (v1, rest, alarmed, Some (if op_should_retry ops v1 then ER_NET_WRITE_INTERRUPTED else ER_NET_ERROR_ON_WRITE)))"
        using False fail
        by (subst write_loop.simps) (simp only: w sb Let_def prod.case if_False simp_thms)
      show ?thesis
        unfolding eq using again [OF 2] again [OF 1(1) order_refl] 1(1) 2(1) False by auto
    qed
  qed
qed

lemma net_real_write_total:
  assumes "net_wf inv net" "env_ops env = ops"
  shows "\<exists>r net'. net_real_write env net p = Some (r, net') \<and> net_wf inv net' \<and>
     max_packet net' = max_packet net \<and> net_compress net' = net_compress net \<and>
     write_pos net' = write_pos net \<and> buff net' = buff net \<and> (r \<noteq> 0 \<longleftrightarrow> net_error net' = 2)"
proof -
  obtain v where v: "net_vio net = Some v" "inv v" using assms(1) by (auto simp: net_wf_def)
  define out where "out = (if net_compress net then compressed_packet env (compress_pkt_nr net) p else p)"
  obtain v' rest al err where w: "write_loop ops (retry_count net) False 0 v out = Some (v', rest, al, err)"
    "inv v'" "rest = [] \<longleftrightarrow> err = None"
    using write_loop_total [OF v(2)] by blast
  have inv2: "inv (if al then snd (op_blocking ops v' b) else v')" for b
    using blocking_inv [OF w(2), of b] w(2) by (cases "op_blocking ops v' b") auto
  show ?thesis
    using assms v w inv2
    by (cases "net_error net = 2"; cases "net_compress net"; cases err)
       (auto simp: net_real_write_def net_wf_def net_buffer_ok_def out_def Let_def)
qed

lemma write_blocks_total:
  assumes "env_ops env = ops"
  shows "net_wf inv net \<Longrightarrow> \<exists>err net' p'. write_blocks env net p = Some (err, net', p') \<and> net_wf inv net' \<and>
     max_packet net' = max_packet net \<and> net_compress net' = net_compress net \<and> write_pos net' = write_pos net \<and>
     (err \<longrightarrow> net_error net' = 2) \<and> (\<not> err \<longrightarrow> length p' \<le> MAX_PACKET_LENGTH)"
proof (induction "length p" arbitrary: p net rule: less_induct)
  case less
  show ?case
  proof (cases "length p > MAX_PACKET_LENGTH")
    case False
    then show ?thesis using less.prems by (subst write_blocks.simps) (auto intro: exI [of _ False])
  next
    case True
    obtain r net1 where w: "net_real_write env net (take MAX_PACKET_LENGTH p) = Some (r, net1)" "net_wf inv net1"
      "max_packet net1 = max_packet net" "net_compress net1 = net_compress net" "write_pos net1 = write_pos net"
      "r \<noteq> 0 \<longleftrightarrow> net_error net1 = 2"
      using net_real_write_total [OF less.prems assms] by blast
    have "length (drop MAX_PACKET_LENGTH p) < length p" using True max_packet_length_pos by simp
    from less.hyps [OF this w(2)] show ?thesis
      using True w less.prems by (subst write_blocks.simps) (cases "r = 0"; auto)
  qed
qed

lemma net_send_filled_total:
  assumes wf: "net_wf inv net" and env: "env_ops env = ops" and len: "length p > net_left_length net"
  shows "\<exists>err net' p'. net_send_filled env net p (net_left_length net) = Some (err, net', p') \<and> net_wf inv net' \<and>
     net_compress net' = net_compress net \<and> max_packet net' = max_packet net \<and>
     (err \<longrightarrow> net_error net' = 2) \<and> (\<not> err \<longrightarrow> write_pos net' = 0)"
proof (cases "write_pos net = 0")
  case True
  then show ?thesis using wf by (auto simp: net_send_filled_def intro: exI [of _ False])
next
  case False
  obtain b where b: "buff net = Some b" "length b = max_packet net + NET_HEADER_SIZE + COMP_HEADER_SIZE"
    "write_pos net \<le> max_packet net"
    using wf by (auto simp: net_wf_def net_buffer_ok_def)
  define left where "left = net_left_length net"
  have fits: "write_pos net + left \<le> max_packet net"
    using wf b(3) by (auto simp: left_def net_left_length_def net_wf_def)
  define b' where "b' = take (write_pos net) b @ take left p @ drop (write_pos net + left) b"
  have len_b': "length b' = length b" using b len fits by (simp add: b'_def left_def)
  have put: "put_bytes (buff net) (write_pos net) (take left p) = Some b'"
    using b len fits by (simp add: put_bytes_def b'_def left_def)
  have get: "get_bytes (Some b') 0 (write_pos net + left) = Some (take (write_pos net + left) b')"
    using fits b len_b' by (simp add: get_bytes_def)
  have wf': "net_wf inv (net\<lparr>buff := Some b'\<rparr>)" using wf b len_b' by (simp add: net_wf_def net_buffer_ok_def)
  obtain r net1 where w: "net_real_write env (net\<lparr>buff := Some b'\<rparr>) (take (write_pos net + left) b') = Some (r, net1)"
    "net_wf inv net1" "max_packet net1 = max_packet net" "net_compress net1 = net_compress net"
    "r \<noteq> 0 \<longleftrightarrow> net_error net1 = 2"
    using net_real_write_total [OF wf' env] by fastforce
  have "net_wf inv (net1\<lparr>write_pos := 0\<rparr>)" using w(2) by (auto simp: net_wf_def net_buffer_ok_def)
  then show ?thesis
    using False put get w unfolding left_def [symmetric] by (cases "r = 0") (auto simp: net_send_filled_def)
qed

lemma net_store_rest_total:
  assumes "net_wf inv net" "length p \<le> net_left_length net"
  shows "\<exists>net'. net_store_rest net p = Some (False, net') \<and> net_wf inv net'"
  using assms
  by (auto simp: net_store_rest_def put_bytes_def net_wf_def net_buffer_ok_def net_left_length_def split: if_splits)

lemma net_write_buff_total:
  assumes wf: "net_wf inv net" and env: "env_ops env = ops"
  shows "\<exists>err net'. net_write_buff env net p = Some (err, net') \<and> net_wf inv net' \<and> (err \<longrightarrow> net_error net' = 2)"
proof (cases "length p > net_left_length net")
  case False
  then show ?thesis using net_store_rest_total [OF wf, of p] by (auto simp: net_write_buff_def intro: exI [of _ False])
next
  case True
  obtain err net1 p1 where f: "net_send_filled env net p (net_left_length net) = Some (err, net1, p1)" "net_wf inv net1"
    "err \<longrightarrow> net_error net1 = 2" "\<not> err \<longrightarrow> write_pos net1 = 0"
    using net_send_filled_total [OF wf env True] by blast
  show ?thesis
  proof (cases err)
    case True
    with f \<open>length p > net_left_length net\<close> show ?thesis by (auto simp: net_write_buff_def)
  next
    case False
    obtain err2 net2 p2 where g: "(if net_compress net1 then write_blocks env net1 p1 else Some (False, net1, p1)) =
        Some (err2, net2, p2)" "net_wf inv net2" "err2 \<longrightarrow> net_error net2 = 2" "write_pos net2 = 0"
        "\<not> err2 \<longrightarrow> net_compress net2 \<longrightarrow> length p2 \<le> MAX_PACKET_LENGTH"
      using write_blocks_total [OF env f(2), of p1] f False by (cases "net_compress net1") auto
    have eq: "net_write_buff env net p =
        (if err2 then Some (True, net2)
         else if length p2 > max_packet net2 then do { (r, net) \<leftarrow> net_real_write env net2 p2; Some (r \<noteq> 0, net) }
         else net_store_rest net2 p2)"
      using True f(1) False g(1) by (simp add: net_write_buff_def)
    consider (err) err2 | (direct) "\<not> err2" "length p2 > max_packet net2" | (store) "\<not> err2" "length p2 \<le> max_packet net2"
      by linarith
    then show ?thesis
    proof cases
      case err
      with g(2,3) show ?thesis unfolding eq by (intro exI [of _ True] exI [of _ net2]) simp
    next
      case direct
      obtain r net3 where "net_real_write env net2 p2 = Some (r, net3)" "net_wf inv net3" "r \<noteq> 0 \<longleftrightarrow> net_error net3 = 2"
        using net_real_write_total [OF g(2) env] by blast
      with direct show ?thesis unfolding eq by (intro exI [of _ "r \<noteq> 0"] exI [of _ net3]) simp
    next
      case store
      then have "length p2 \<le> net_left_length net2" using g(4,5) by (auto simp: net_left_length_def)
      then obtain net3 where "net_store_rest net2 p2 = Some (False, net3)" "net_wf inv net3"
        using net_store_rest_total [OF g(2)] by blast
      with store show ?thesis unfolding eq by (intro exI [of _ False] exI [of _ net3]) simp
    qed
  qed
qed

end

subsection \<open>Properties\<close>

text \<open>
  C7: Over a connection without failures, \<open>my_net_write\<close> succeeds for every packet, appends exactly the
  framed packet to what was sent and buffered before, advances the sequence number by the number of
  physical packets, and leaves the handle ready for the next packet.
\<close>

theorem my_net_write_refines:
  assumes "net_ready vio_live net" "env_ops env = socket_ops sock_kernel"
  shows "\<exists>net'. my_net_write env net p = Some (False, net') \<and> net_ready vio_live net' \<and>
     net_out vio_outgoing net' = net_out vio_outgoing net @ frames (pkt_nr net) p \<and>
     pkt_nr net' = pkt_nr net + of_nat (frame_count p)"
proof -
  have "net_vio net \<noteq> None" using assms(1) by (auto simp: net_ready_def)
  then show ?thesis
    using socks.my_net_write_loop_stream [OF assms, of p]
    by (auto simp: my_net_write_def socks.sends_def net_same_def)
qed

definition sample_sock :: "bytes \<Rightarrow> event list \<Rightarrow> sock" where
  "sample_sock input script = \<lparr>sk_in = input, sk_out = [], sk_script = script, sk_errno = E_NONE, sk_flags = 0\<rparr>"

definition sample_net :: "nat \<Rightarrow> sock \<Rightarrow> sock vio net" where
  "sample_net size_max s =
     \<lparr>net_vio = Some (vio_init False None s VIO_TYPE_TCPIP 3 0), buff = Some (replicate 15 0), write_pos = 0,
      net_read_pos = 0, remain_in_buf = 0, buf_length = 0, where_b = 0, max_packet = 8, max_packet_size = size_max,
      pkt_nr = 0, compress_pkt_nr = 0, retry_count = 1, reading_or_writing = 0, save_char = 0,
      net_compress = False, last_errno = 0, net_error = 0\<rparr>"

definition sample_env :: "sock vio net_env" where
  "sample_env = \<lparr>env_ops = socket_ops sock_kernel,
     env_realloc = (\<lambda>p n. Some (take n (case p of None \<Rightarrow> [] | Some b \<Rightarrow> b) @
                               replicate (n - length (case p of None \<Rightarrow> [] | Some b \<Rightarrow> b)) 0)),
     env_malloc = (\<lambda>_. True), env_zip = rle_compress, env_unzip = rle_uncompress\<rparr>"

lemma sample_env_ops: "env_ops sample_env = socket_ops sock_kernel"
  by (simp add: sample_env_def)

lemma sample_vio_wf: "vio_wf (vio_init False None s VIO_TYPE_TCPIP 3 0)"
  by (rule vio_init_wf) simp

lemma sample_vio_sys [simp]: "sys (vio_init h m s t fd fl) = s"
  by (simp add: vio_init_def Let_def)

lemma sample_net_ready:
  "(\<forall>e\<in>set script. \<exists>c. e = Chunk c) \<Longrightarrow> net_ready vio_live (sample_net n (sample_sock input script))"
  using sample_vio_wf
  by (simp add: net_ready_def net_buffer_ok_def sample_net_def vio_live_def no_failure_def sample_sock_def
      NET_HEADER_SIZE_def COMP_HEADER_SIZE_def)

theorem my_net_write_refines_witness:
  "\<exists>net'. my_net_write sample_env (sample_net 100 (sample_sock [] [Chunk 3, Chunk 1])) [1, 2, 3, 4, 5, 6] =
     Some (False, net') \<and> net_out vio_outgoing net' = frames 0 [1, 2, 3, 4, 5, 6]"
proof -
  let ?net = "sample_net 100 (sample_sock [] [Chunk 3, Chunk 1])"
  have "net_ready vio_live ?net" by (rule sample_net_ready) simp
  moreover have "net_out vio_outgoing ?net = []" "pkt_nr ?net = 0"
    by (simp_all add: net_out_def sample_net_def vio_outgoing_def sample_sock_def)
  ultimately show ?thesis
    using my_net_write_refines [of ?net sample_env "[1, 2, 3, 4, 5, 6]"] by (auto simp: sample_env_def)
qed

text \<open>
  C12: Over a connection without failures, \<open>net_write_command\<close> with a header that fits the first packet
  sends everything buffered so far and then the framed packet of command byte, header and data, and
  nothing stays in the buffer.
\<close>

theorem net_write_command_refines:
  assumes "net_ready vio_live net" "env_ops env = socket_ops sock_kernel" "length header < MAX_PACKET_LENGTH"
  shows "\<exists>net' v. net_write_command env net command header p = Some (False, net') \<and> net_vio net' = Some v \<and>
     write_pos net' = 0 \<and> net_ready vio_live net' \<and>
     vio_outgoing v = net_out vio_outgoing net @ frames (pkt_nr net) (command # header @ p)"
proof -
  have "length [command] + length header \<le> MAX_PACKET_LENGTH" using assms(3) by simp
  from socks.net_write_command_loop_stream [OF assms(1,2) this, of p]
  obtain net' where n: "net_write_command_loop env net [command] header p = Some (False, net')" "write_pos net' = 0"
    "net_ready vio_live net'" "net_out vio_outgoing net' = net_out vio_outgoing net @ frames (pkt_nr net) (command # header @ p)"
    by (auto simp: socks.sends_def)
  moreover obtain v where "net_vio net' = Some v" using n(3) by (auto simp: net_ready_def)
  ultimately show ?thesis
    by (auto simp: net_write_command_def net_out_def split: option.splits)
qed

theorem net_write_command_refines_witness:
  "\<exists>net' v. net_write_command sample_env (sample_net 100 (sample_sock [] [Chunk 2])) 3 [] [65, 66] = Some (False, net') \<and>
     net_vio net' = Some v \<and> vio_outgoing v = frames 0 [3, 65, 66]"
proof -
  let ?net = "sample_net 100 (sample_sock [] [Chunk 2])"
  have "net_ready vio_live ?net" by (rule sample_net_ready) simp
  moreover have "net_out vio_outgoing ?net = []" "pkt_nr ?net = 0"
    by (simp_all add: net_out_def sample_net_def vio_outgoing_def sample_sock_def)
  ultimately show ?thesis
    using net_write_command_refines [of ?net sample_env "[]" 3 "[65, 66]"]
    by (auto simp: sample_env_def MAX_PACKET_LENGTH_def)
qed

text \<open>
  C13: Whatever the connection does - any sequence of partial transfers, interruptions and errors - and
  with or without compression, \<open>net_write_buff\<close> returns, stays inside the buffer and keeps the handle
  well formed; an error return always leaves \<open>net->error\<close> at 2, after which nothing is written.
\<close>

theorem net_write_buff_safe:
  assumes "net_wf vio_wf net" "env_ops env = socket_ops sock_kernel"
  shows "\<exists>err net'. net_write_buff env net p = Some (err, net') \<and> net_wf vio_wf net' \<and>
     (err \<longrightarrow> net_error net' = 2 \<and> net_real_write env net' q = Some (- 1, net'))"
proof -
  obtain err net' where n: "net_write_buff env net p = Some (err, net')" "net_wf vio_wf net'" "err \<longrightarrow> net_error net' = 2"
    using sockp.net_write_buff_total [OF assms] by blast
  moreover obtain v where "net_vio net' = Some v" using n(2) by (auto simp: net_wf_def)
  ultimately show ?thesis by (auto simp: net_real_write_def)
qed

theorem net_write_buff_safe_witness:
  "\<exists>err net'. net_write_buff sample_env (sample_net 100 (sample_sock [] [Fail SOCKET_EINTR, Chunk 1, Fail E_OTHER]))
     (replicate 20 7) = Some (err, net') \<and> net_wf vio_wf net'"
proof -
  let ?net = "sample_net 100 (sample_sock [] [Fail SOCKET_EINTR, Chunk 1, Fail E_OTHER])"
  have "net_wf vio_wf ?net"
    using sample_vio_wf
    by (simp add: net_wf_def net_buffer_ok_def sample_net_def NET_HEADER_SIZE_def COMP_HEADER_SIZE_def)
  then show ?thesis
    using net_write_buff_safe [OF _ sample_env_ops, of ?net "replicate 20 7" "[]"] by blast
qed

end
