(* ===== verification/Net_Read.thy ===== *)
theory Net_Read
  imports Net_Write
begin

text \<open>
  What the packet layer reads (uncompressed protocol). Over a connection without failures,
  \<open>my_net_read\<close> returns exactly the logical packet that the framing of \<open>Net_Write\<close> put on the wire,
  however the bytes arrive and however often the buffer has to grow. Over any connection, the read
  ends, stays inside the buffer, and reports an error for a broken or out-of-order packet.
\<close>

definition block_realloc_ok :: "(bytes option \<Rightarrow> nat \<Rightarrow> bytes option) \<Rightarrow> bool" where
  "block_realloc_ok re \<longleftrightarrow>
     (\<forall>b n b'. re (Some b) n = Some b' \<longrightarrow>
        length b' = n \<and> take (min n (length b)) b' = take (min n (length b)) b)"

definition read_buffer_ok :: "'v net \<Rightarrow> bool" where
  "read_buffer_ok net \<longleftrightarrow>
     (\<exists>b. buff net = Some b \<and> length b = max_packet net + NET_HEADER_SIZE + COMP_HEADER_SIZE \<and>
          where_b net \<le> max_packet net)"

text \<open>The fields reading leaves alone.\<close>

definition read_same :: "'v net \<Rightarrow> 'v net \<Rightarrow> bool" where
  "read_same net net' \<longleftrightarrow>
     max_packet_size net' = max_packet_size net \<and> net_compress net' = net_compress net \<and>
     retry_count net' = retry_count net"

lemma read_same_trans: "read_same a b \<Longrightarrow> read_same b c \<Longrightarrow> read_same a c"
  by (simp add: read_same_def)

lemma put_bytes_in:
  "off + length bs \<le> length b \<Longrightarrow> put_bytes (Some b) off bs = Some (take off b @ bs @ drop (off + length bs) b)"
  by (simp add: put_bytes_def)

lemma take_overwrite: "off \<le> length b \<Longrightarrow> n \<le> off \<Longrightarrow> take n (take off b @ bs @ r) = take n b"
  by (simp add: min_def)

lemma overwrite_twice:
  "off + length (x @ y) \<le> length b \<Longrightarrow>
   take (off + length x) (take off b @ x @ drop (off + length x) b) @ y @
     drop (off + length x + length y) (take off b @ x @ drop (off + length x) b) =
   take off b @ (x @ y) @ drop (off + length (x @ y)) b"
  by (simp add: ac_simps)

subsection \<open>Making room\<close>

lemma round_up_ge: "n \<le> (n + IO_SIZE - 1) div IO_SIZE * IO_SIZE"
proof -
  have "n + IO_SIZE - 1 = (n + IO_SIZE - 1) div IO_SIZE * IO_SIZE + (n + IO_SIZE - 1) mod IO_SIZE" by simp
  moreover have "(n + IO_SIZE - 1) mod IO_SIZE < IO_SIZE" by (simp add: IO_SIZE_def)
  ultimately show ?thesis by linarith
qed

lemma net_realloc_cases:
  assumes re: "block_realloc_ok (env_realloc env)" and b: "buff net = Some b"
    and wb: "where_b net \<le> length b" "where_b net \<le> n"
  obtains net' where "net_realloc env net n = (True, net')" "net' = net\<lparr>net_error := 1, last_errno := last_errno net'\<rparr>"
    "n \<ge> max_packet_size net \<or> env_realloc env (buff net) ((n + IO_SIZE - 1) div IO_SIZE * IO_SIZE + NET_HEADER_SIZE + COMP_HEADER_SIZE) = None"
  | net' b' where "net_realloc env net n = (False, net')" "n < max_packet_size net"
    "net' = net\<lparr>buff := Some b', write_pos := 0, max_packet := max_packet net'\<rparr>" "n \<le> max_packet net'"
    "length b' = max_packet net' + NET_HEADER_SIZE + COMP_HEADER_SIZE" "take (where_b net) b' = take (where_b net) b"
    "max_packet net' \<le> n + IO_SIZE"
proof (cases "n \<ge> max_packet_size net")
  case True
  then show thesis using that(1) [of "net\<lparr>net_error := 1, last_errno := ER_NET_PACKET_TOO_LARGE\<rparr>"]
    by (simp add: net_realloc_def)
next
  case small: False
  let ?l = "(n + IO_SIZE - 1) div IO_SIZE * IO_SIZE"
  show thesis
  proof (cases "env_realloc env (buff net) (?l + NET_HEADER_SIZE + COMP_HEADER_SIZE)")
    case None
    then show thesis using that(1) [of "net\<lparr>net_error := 1, last_errno := ER_OUT_OF_RESOURCES\<rparr>"] small
      by (simp add: net_realloc_def)
  next
    case (Some b')
    have ge: "n \<le> ?l" by (rule round_up_ge)
    have le: "?l \<le> n + IO_SIZE" using div_times_less_eq_dividend [of "n + IO_SIZE - 1" IO_SIZE] by linarith
    have len: "length b' = ?l + NET_HEADER_SIZE + COMP_HEADER_SIZE"
      and pre: "take (min (?l + NET_HEADER_SIZE + COMP_HEADER_SIZE) (length b)) b' =
        take (min (?l + NET_HEADER_SIZE + COMP_HEADER_SIZE) (length b)) b"
      using re Some by (simp_all add: block_realloc_ok_def b)
    have "where_b net \<le> min (?l + NET_HEADER_SIZE + COMP_HEADER_SIZE) (length b)" using wb ge by simp
    then have "take (where_b net) b' = take (where_b net) b" by (rule take_eq_mono [OF pre])
    then show thesis
      using that(2) [of "net\<lparr>buff := Some b', write_pos := 0, max_packet := ?l\<rparr>" b'] small Some ge le len
      by (simp add: net_realloc_def)
  qed
qed

subsection \<open>Reading from a stream\<close>

lemma header_fields:
  assumes "h = packet_header len nr" "len \<le> MAX_PACKET_LENGTH"
  shows "uint3korr (take 3 h) = Some (of_nat len)" "unat (of_nat len :: uint32) = len" "h ! 3 = ucast nr"
proof -
  show un: "unat (of_nat len :: uint32) = len"
    using assms(2) by (intro unat_of_nat_small) (simp add: MAX_PACKET_LENGTH_def)
  have l3: "length (int3store (of_nat len)) = 3" by (rule c3.length_enc)
  have "unat (of_nat len :: uint32) < 256 ^ 3" using un assms(2) by (simp add: MAX_PACKET_LENGTH_def)
  from c3.dec_enc_exact [OF this, of "[]"] show "uint3korr (take 3 h) = Some (of_nat len)"
    using l3 by (simp add: assms(1) packet_header_def)
  show "h ! 3 = ucast nr" using l3 by (simp add: assms(1) packet_header_def nth_append)
qed

lemma get_header:
  assumes "off + NET_HEADER_SIZE \<le> length b" "len \<le> MAX_PACKET_LENGTH"
    and "b' = take off b @ packet_header len nr @ drop (off + NET_HEADER_SIZE) b"
  shows "get_byte (Some b') (off + 3) = Some (ucast nr)" "get_int3 (Some b') off = Some len"
proof -
  define h where "h = packet_header len nr"
  have h: "length h = 4" by (simp add: h_def NET_HEADER_SIZE_def)
  note f = header_fields [OF h_def assms(2)]
  have off: "off \<le> length b" "off + 4 \<le> length b'" "length (take off b) = off"
    using assms(1) h by (simp_all add: assms(3) NET_HEADER_SIZE_def h_def [symmetric])
  have d: "drop off b' = h @ drop (off + NET_HEADER_SIZE) b" using off(3) by (simp add: assms(3) h_def)
  have "b' ! (off + 3) = h ! 3" using off(2) h nth_drop [of off b' 3] by (simp add: d nth_append)
  then show "get_byte (Some b') (off + 3) = Some (ucast nr)" using off(2) f(3) by (simp add: get_byte_def)
  have "take 3 (drop off b') = take 3 h" using h by (simp add: d)
  then show "get_int3 (Some b') off = Some len" using off(2) f(1,2) by (simp add: get_int3_def get_bytes_def)
qed

text \<open>What is known of the handle after the header of a packet of \<open>len\<close> bytes was accepted.\<close>

definition header_accepted :: "'v net \<Rightarrow> bytes \<Rightarrow> nat \<Rightarrow> 'v net \<Rightarrow> bytes \<Rightarrow> bool" where
  "header_accepted net b len net' b' \<longleftrightarrow>
     buff net' = Some b' \<and> length b' = max_packet net' + NET_HEADER_SIZE + COMP_HEADER_SIZE \<and>
     where_b net' = where_b net \<and> where_b net + len \<le> max_packet net' \<and>
     take (where_b net) b' = take (where_b net) b \<and> net_vio net' = net_vio net \<and>
     pkt_nr net' = pkt_nr net + 1 \<and> net_error net' = net_error net \<and> write_pos net' \<le> write_pos net \<and> read_same net net'"

lemma real_read_header_plain:
  assumes env: "block_realloc_ok (env_realloc env)" "\<And>b n. env_realloc env (Some b) n \<noteq> None"
    and net: "buff net = Some b" "length b = max_packet net + NET_HEADER_SIZE + COMP_HEADER_SIZE"
      "where_b net \<le> max_packet net" "\<not> net_compress net"
    and hdr: "get_byte (Some b) (where_b net + 3) = Some (ucast (pkt_nr net))" "get_int3 (Some b) (where_b net) = Some len"
    and len: "where_b net + len < max_packet_size net"
  shows "\<exists>net' b'. real_read_header env net = Some (Some len, 0, net') \<and> header_accepted net b len net' b'"
proof -
  let ?net = "net\<lparr>pkt_nr := pkt_nr net + 1, compress_pkt_nr := pkt_nr net + 1\<rparr>"
  have stay: "header_accepted net b len ?net b" if "where_b net + len \<le> max_packet net"
    using that net by (simp add: header_accepted_def read_same_def)
  consider "len = 0" | "len \<noteq> 0" "len + where_b net < max_packet net" | "len \<noteq> 0" "len + where_b net \<ge> max_packet net"
    by linarith
  then show ?thesis
  proof cases
    case 1
    with net hdr stay show ?thesis
      by (intro exI [of _ ?net] exI [of _ b]) (simp add: real_read_header_def)
  next
    case 2
    with net hdr stay show ?thesis
      by (intro exI [of _ ?net] exI [of _ b]) (simp add: real_read_header_def)
  next
    case 3
    have wb: "where_b ?net \<le> length b" "where_b ?net \<le> len + where_b net" and bf: "buff ?net = Some b"
      using net by simp_all
    show ?thesis
    proof (rule net_realloc_cases [OF env(1) bf wb])
      fix net'
      assume "net_realloc env ?net (len + where_b net) = (True, net')"
        "len + where_b net \<ge> max_packet_size ?net \<or>
         env_realloc env (buff ?net) ((len + where_b net + IO_SIZE - 1) div IO_SIZE * IO_SIZE + NET_HEADER_SIZE + COMP_HEADER_SIZE) = None"
      then show ?thesis using env(2) net(1) len by simp
    next
      fix net' b'
      assume r: "net_realloc env ?net (len + where_b net) = (False, net')"
        "net' = ?net\<lparr>buff := Some b', write_pos := 0, max_packet := max_packet net'\<rparr>" "len + where_b net \<le> max_packet net'"
        "length b' = max_packet net' + NET_HEADER_SIZE + COMP_HEADER_SIZE" "take (where_b ?net) b' = take (where_b ?net) b"
      have "real_read_header env net = Some (Some len, 0, net')"
        using 3 net hdr r(1) by (simp add: real_read_header_def)
      moreover have "header_accepted net b len net' b'"
        using r(3-5) by (subst r(2)) (simp add: header_accepted_def read_same_def add.commute)
      ultimately show ?thesis by blast
    qed
  qed
qed

lemma real_read_end_plain: "real_read_end env nb False net = net\<lparr>reading_or_writing := 0\<rparr>"
  by (cases "net_vio net") (simp_all add: real_read_end_def)

text \<open>The first physical packet of \<open>p\<close>: a full one when more follow, the last one otherwise.\<close>

definition first_frame :: "bytes \<Rightarrow> bytes" where
  "first_frame p = (if MAX_PACKET_LENGTH \<le> length p then take MAX_PACKET_LENGTH p else p)"

lemma frames_first:
  "frames nr p = packet_header (length (first_frame p)) nr @ first_frame p @
     (if MAX_PACKET_LENGTH \<le> length p then frames (nr + 1) (drop MAX_PACKET_LENGTH p) else [])"
  by (subst frames.simps) (simp add: first_frame_def)

lemma length_first_frame: "length (first_frame p) = min MAX_PACKET_LENGTH (length p)"
  by (simp add: first_frame_def)

context stream_vio
begin

lemma read_loop_stream:
  "inv v \<Longrightarrow> incoming v = bs @ rem \<Longrightarrow> off + length bs \<le> length b \<Longrightarrow>
   \<exists>v'. read_loop ops limit alarmed retry v (Some b) off (length bs) =
        Some (None, v', Some (take off b @ bs @ drop (off + length bs) b), alarmed, retry) \<and>
     incoming v' = rem \<and> outgoing v' = outgoing v \<and> inv v'"
proof (induction "length bs" arbitrary: v bs off b rule: less_induct)
  case less
  show ?case
  proof (cases "bs = []")
    case True
    then show ?thesis using less.prems by (subst read_loop.simps) simp
  next
    case False
    then have "0 < length bs" "incoming v \<noteq> []" using less.prems by auto
    then obtain x v1 where r: "op_read ops v (length bs) = Some (Some x, v1)" "x \<noteq> []" "length x \<le> length bs"
      "incoming v = x @ incoming v1" "outgoing v1 = outgoing v" "inv v1"
      using stream_read [OF less.prems(1)] by blast
    define y where "y = drop (length x) bs"
    have bs: "bs = x @ y" and in1: "incoming v1 = y @ rem"
      using r(3,4) less.prems(2) by (simp_all add: y_def) (metis append_eq_append_conv_if append_take_drop_id)+
    have shorter: "length y < length bs" using r(2) bs by simp
    let ?b1 = "take off b @ x @ drop (off + length x) b"
    have fits: "off + length x \<le> length b" "(off + length x) + length y \<le> length ?b1"
      using less.prems(3) bs by simp_all
    obtain v' where l: "read_loop ops limit alarmed retry v1 (Some ?b1) (off + length x) (length y) =
        Some (None, v', Some (take (off + length x) ?b1 @ y @ drop (off + length x + length y) ?b1), alarmed, retry)"
      "incoming v' = rem" "outgoing v' = outgoing v1" "inv v'"
      using less.hyps [OF shorter r(6) in1 fits(2)] by blast
    have "off + length (x @ y) \<le> length b" using less.prems(3) bs by simp
    note eq = overwrite_twice [OF this]
    have "read_loop ops limit alarmed retry v (Some b) off (length bs) =
        read_loop ops limit alarmed retry v1 (Some ?b1) (off + length x) (length y)"
      using False r(1-3) put_bytes_in [OF fits(1)] bs
      by (subst read_loop.simps) simp
    also have "\<dots> = Some (None, v', Some (take off b @ bs @ drop (off + length bs) b), alarmed, retry)"
      unfolding l(1) eq bs ..
    finally show ?thesis using l r(5) by auto
  qed
qed

text \<open>One physical packet with the expected number.\<close>

lemma my_real_read_stream:
  assumes env: "env_ops env = ops" "block_realloc_ok (env_realloc env)" "\<And>b n. env_realloc env (Some b) n \<noteq> None"
    and net: "net_vio net = Some v" "inv v" "\<not> net_compress net"
      "buff net = Some b" "length b = max_packet net + NET_HEADER_SIZE + COMP_HEADER_SIZE" "where_b net \<le> max_packet net"
    and inc: "incoming v = packet_header (length d) (pkt_nr net) @ d @ rem" "length d \<le> MAX_PACKET_LENGTH"
      "where_b net + length d < max_packet_size net"
  shows "\<exists>net' b' v'. my_real_read env net = Some (Some (length d), 0, net') \<and>
     header_accepted (net\<lparr>net_vio := net_vio net'\<rparr>) b (length d) net' b' \<and> take (length d) (drop (where_b net) b') = d \<and>
     net_vio net' = Some v' \<and> inv v' \<and> incoming v' = rem \<and> outgoing v' = outgoing v"
proof -
  let ?h = "packet_header (length d) (pkt_nr net)" and ?w = "where_b net"
  define b1 where "b1 = take ?w b @ ?h @ drop (?w + NET_HEADER_SIZE) b"
  have room: "?w + length ?h \<le> length b" using net(5,6) by simp
  obtain v1 where l1: "read_loop ops (retry_count net) False 0 v (Some b) ?w NET_HEADER_SIZE =
      Some (None, v1, Some b1, False, 0)" "incoming v1 = d @ rem" "outgoing v1 = outgoing v" "inv v1"
    using read_loop_stream [OF net(2) inc(1) room, of "retry_count net" False 0] by (auto simp: b1_def)
  have len1: "length b1 = length b" and pre1: "take ?w b1 = take ?w b" using room by (simp_all add: b1_def)
  let ?net1 = "net\<lparr>net_vio := Some v1, buff := Some b1\<rparr>"
  have g: "get_byte (Some b1) (?w + 3) = Some (ucast (pkt_nr net))" "get_int3 (Some b1) ?w = Some (length d)"
    using get_header [OF _ inc(2) b1_def] room by simp_all
  obtain net2 b2 where h: "real_read_header env ?net1 = Some (Some (length d), 0, net2)"
    "header_accepted ?net1 b1 (length d) net2 b2"
    using real_read_header_plain [OF env(2,3), of ?net1 b1 "length d"] net g len1 inc(3) by auto
  have two: "buff net2 = Some b2" "where_b net2 = ?w" "?w + length d \<le> length b2" "retry_count net2 = retry_count net"
    "take ?w b2 = take ?w b" "?w \<le> length b2"
    using h(2) pre1 by (simp_all add: header_accepted_def read_same_def)
  obtain v2 where l2: "read_loop ops (retry_count net) False 0 v1 (Some b2) ?w (length d) =
      Some (None, v2, Some (take ?w b2 @ d @ drop (?w + length d) b2), False, 0)"
    "incoming v2 = rem" "outgoing v2 = outgoing v1" "inv v2"
    using read_loop_stream [OF l1(4,2) two(3), of "retry_count net" False 0] by blast
  define b3 where "b3 = take ?w b2 @ d @ drop (?w + length d) b2"
  have b3: "length b3 = length b2" "take ?w b3 = take ?w b2" "take (length d) (drop ?w b3) = d"
    using two(3,6) by (simp_all add: b3_def)
  show ?thesis
  proof (cases "d = []")
    case True
    then have "my_real_read env net = Some (Some (length d), 0, net2\<lparr>reading_or_writing := 0\<rparr>)"
      using net env(1) l1(1) h(1) by (simp add: my_real_read_def real_read_end_plain)
    moreover have "header_accepted (net\<lparr>net_vio := net_vio net2\<rparr>) b (length d) (net2\<lparr>reading_or_writing := 0\<rparr>) b2"
      using h(2) pre1 by (simp add: header_accepted_def read_same_def)
    moreover have "net_vio net2 = Some v1" using h(2) by (simp add: header_accepted_def)
    ultimately show ?thesis using l1 True by (intro exI [of _ "net2\<lparr>reading_or_writing := 0\<rparr>"] exI) auto
  next
    case False
    let ?net3 = "net2\<lparr>net_vio := Some v2, buff := Some b3, reading_or_writing := 0\<rparr>"
    have "my_real_read env net = Some (Some (length d), 0, ?net3)"
      using False net env(1) l1(1) h(1) two l2(1)
      by (simp add: my_real_read_def real_read_end_plain b3_def)
    moreover have "header_accepted (net\<lparr>net_vio := Some v2\<rparr>) b (length d) ?net3 b3"
      using h(2) b3 two(5) by (simp add: header_accepted_def read_same_def)
    ultimately show ?thesis using l1(3) l2 b3(3) by (intro exI [of _ ?net3] exI [of _ b3] exI [of _ v2]) simp
  qed
qed

text \<open>
  \<open>delivered net b w p rem net'\<close>: the bytes \<open>p\<close> were taken off the stream, which goes on with \<open>rem\<close>, and
  stand at offset \<open>w\<close> of the buffer; what was before them in \<open>b\<close> is still there.
\<close>

definition delivered :: "'v net \<Rightarrow> bytes \<Rightarrow> nat \<Rightarrow> bytes \<Rightarrow> bytes \<Rightarrow> 'v net \<Rightarrow> bool" where
  "delivered net b w p rem net' \<longleftrightarrow>
     (\<exists>b' v'. buff net' = Some b' \<and> length b' = max_packet net' + NET_HEADER_SIZE + COMP_HEADER_SIZE \<and>
        w + length p \<le> max_packet net' \<and> take w b' = take w b \<and> take (length p) (drop w b') = p \<and>
        net_vio net' = Some v' \<and> inv v' \<and> incoming v' = rem \<and> net_error net' = net_error net \<and> read_same net net' \<and>
        write_pos net' \<le> write_pos net \<and> (\<forall>v. net_vio net = Some v \<longrightarrow> outgoing v' = outgoing v))"

lemma delivered_append:
  assumes 1: "delivered net b w x r1 net1" "buff net1 = Some b1"
    and 2: "delivered net1 b1 (w + length x) y r2 net2" and w: "w \<le> length b"
  shows "delivered net b w (x @ y) r2 net2"
proof -
  obtain b2 v2 where b2: "buff net2 = Some b2" "length b2 = max_packet net2 + NET_HEADER_SIZE + COMP_HEADER_SIZE"
    "w + length x + length y \<le> max_packet net2" "take (w + length x) b2 = take (w + length x) b1"
    "take (length y) (drop (w + length x) b2) = y" "net_vio net2 = Some v2" "inv v2" "incoming v2 = r2"
    "net_error net2 = net_error net1" "read_same net1 net2" "write_pos net2 \<le> write_pos net1"
    "\<forall>v. net_vio net1 = Some v \<longrightarrow> outgoing v2 = outgoing v"
    using 2 unfolding delivered_def by blast
  obtain v1 where b1: "take w b1 = take w b" "take (length x) (drop w b1) = x" "net_error net1 = net_error net" "read_same net net1"
    "write_pos net1 \<le> write_pos net" "net_vio net1 = Some v1" "\<forall>v. net_vio net = Some v \<longrightarrow> outgoing v1 = outgoing v"
    using 1 unfolding delivered_def by auto
  have "take w b2 = take w b" using take_eq_mono [OF b2(4), of w] b1(1) by simp
  moreover have "take (length x) (drop w b2) = x"
    using b2(4) b1(2) by (metis add.commute drop_take diff_add_inverse)
  then have "take (length (x @ y)) (drop w b2) = x @ y"
    using b2(5) by (simp add: take_add add.commute)
  moreover have "read_same net net2" using read_same_trans [OF b1(4) b2(10)] .
  ultimately show ?thesis
    unfolding delivered_def using b2 b1(3,5-7) by (intro exI [of _ b2] exI [of _ v2]) (simp add: add.assoc)
qed

lemma my_real_read_delivered:
  assumes env: "env_ops env = ops" "block_realloc_ok (env_realloc env)" "\<And>b n. env_realloc env (Some b) n \<noteq> None"
    and net: "net_vio net = Some v" "inv v" "\<not> net_compress net"
      "buff net = Some b" "length b = max_packet net + NET_HEADER_SIZE + COMP_HEADER_SIZE" "where_b net \<le> max_packet net"
    and inc: "incoming v = packet_header (length d) (pkt_nr net) @ d @ rem" "length d \<le> MAX_PACKET_LENGTH"
      "where_b net + length d < max_packet_size net"
  shows "\<exists>net'. my_real_read env net = Some (Some (length d), 0, net') \<and> delivered net b (where_b net) d rem net' \<and>
     where_b net' = where_b net \<and> pkt_nr net' = pkt_nr net + 1"
proof -
  obtain net' b' v' where r: "my_real_read env net = Some (Some (length d), 0, net')"
    "header_accepted (net\<lparr>net_vio := net_vio net'\<rparr>) b (length d) net' b'" "take (length d) (drop (where_b net) b') = d"
    "net_vio net' = Some v'" "inv v'" "incoming v' = rem" "outgoing v' = outgoing v"
    using my_real_read_stream [OF assms] by blast
  have h: "buff net' = Some b'" "length b' = max_packet net' + NET_HEADER_SIZE + COMP_HEADER_SIZE"
    "where_b net + length d \<le> max_packet net'" "take (where_b net) b' = take (where_b net) b"
    "net_error net' = net_error net" "read_same net net'" "write_pos net' \<le> write_pos net" "where_b net' = where_b net" "pkt_nr net' = pkt_nr net + 1"
    using r(2) by (simp_all add: header_accepted_def read_same_def)
  have "delivered net b (where_b net) d rem net'"
    unfolding delivered_def using h(1-7) r(3-7) net(1) by (intro exI [of _ b'] exI [of _ v']) simp
  with r(1) h(8,9) show ?thesis by blast
qed

lemma read_multi_delivered:
  assumes env: "env_ops env = ops" "block_realloc_ok (env_realloc env)" "\<And>b n. env_realloc env (Some b) n \<noteq> None"
  shows "net_vio net = Some v \<Longrightarrow> inv v \<Longrightarrow> \<not> net_compress net \<Longrightarrow> buff net = Some b \<Longrightarrow>
     length b = max_packet net + NET_HEADER_SIZE + COMP_HEADER_SIZE \<Longrightarrow> where_b net + MAX_PACKET_LENGTH \<le> max_packet net \<Longrightarrow>
     where_b net + MAX_PACKET_LENGTH + length p < max_packet_size net \<Longrightarrow> incoming v = frames (pkt_nr net) p @ rem \<Longrightarrow>
     \<exists>l t net'. read_multi env net tot = Some (Some l, t, net') \<and> l + t = tot + MAX_PACKET_LENGTH + length p \<and>
       delivered net b (where_b net + MAX_PACKET_LENGTH) p rem net' \<and> pkt_nr net' = pkt_nr net + of_nat (frame_count p)"
proof (induction "length p" arbitrary: p net v b tot rule: less_induct)
  case less
  let ?w = "where_b net + MAX_PACKET_LENGTH" and ?net = "net\<lparr>where_b := where_b net + MAX_PACKET_LENGTH\<rparr>"
  let ?rest = "drop MAX_PACKET_LENGTH p"
  let ?rem = "(if MAX_PACKET_LENGTH \<le> length p then frames (pkt_nr net + 1) ?rest else []) @ rem"
  have inc: "incoming v = packet_header (length (first_frame p)) (pkt_nr ?net) @ first_frame p @ ?rem"
    using less.prems(8) frames_first [of "pkt_nr net" p] by simp
  obtain net1 where r: "my_real_read env ?net = Some (Some (length (first_frame p)), 0, net1)"
    "delivered ?net b ?w (first_frame p) ?rem net1" "where_b net1 = ?w" "pkt_nr net1 = pkt_nr net + 1"
    using my_real_read_delivered [OF env _ _ _ _ _ _ inc] less.prems(1-7) by (force simp: length_first_frame)
  have d1: "delivered net b ?w (first_frame p) ?rem net1" using r(2) by (simp add: delivered_def read_same_def)
  show ?case
  proof (cases "MAX_PACKET_LENGTH \<le> length p")
    case False
    then have "first_frame p = p" "length p \<noteq> MAX_PACKET_LENGTH" by (simp_all add: first_frame_def)
    then have "read_multi env net tot = Some (Some (length p), tot + MAX_PACKET_LENGTH, net1)"
      using r(1) by (subst read_multi.simps) simp
    with False d1 r(4) \<open>first_frame p = p\<close> show ?thesis by (simp add: frame_count_def)
  next
    case True
    then have ff: "first_frame p = take MAX_PACKET_LENGTH p" "length (first_frame p) = MAX_PACKET_LENGTH"
      by (simp_all add: first_frame_def)
    obtain b1 v1 where n1: "net_vio net1 = Some v1" "inv v1" "buff net1 = Some b1"
      "length b1 = max_packet net1 + NET_HEADER_SIZE + COMP_HEADER_SIZE" "?w + MAX_PACKET_LENGTH \<le> max_packet net1"
      "incoming v1 = frames (pkt_nr net1) ?rest @ rem" "read_same net net1"
      using d1 True ff r(4) by (auto simp: delivered_def)
    have "length ?rest < length p" using True max_packet_length_pos by simp
    then obtain l t net' where m: "read_multi env net1 (tot + MAX_PACKET_LENGTH) = Some (Some l, t, net')"
      "l + t = tot + MAX_PACKET_LENGTH + MAX_PACKET_LENGTH + length ?rest"
      "delivered net1 b1 (?w + MAX_PACKET_LENGTH) ?rest rem net'"
      "pkt_nr net' = pkt_nr net1 + of_nat (frame_count ?rest)"
      using less.hyps [of ?rest net1 v1 b1 "tot + MAX_PACKET_LENGTH"] n1 r(3) less.prems(3,7) True
      by (auto simp: read_same_def)
    have "read_multi env net tot = read_multi env net1 (tot + MAX_PACKET_LENGTH)"
      using r(1) ff by (subst read_multi.simps) simp
    moreover have "delivered net b ?w (first_frame p @ ?rest) rem net'"
      using m(3) ff(2) less.prems(5,6) by (intro delivered_append [OF d1 n1(3)]) simp_all
    then have "delivered net b ?w p rem net'" using ff(1) by simp
    ultimately show ?thesis
      using m True r(4) frame_count_drop [OF True] by (intro exI [of _ l] exI [of _ t] exI [of _ net']) simp
  qed
qed

lemma my_net_read_plain_stream:
  assumes env: "env_ops env = ops" "block_realloc_ok (env_realloc env)" "\<And>b n. env_realloc env (Some b) n \<noteq> None"
    and net: "net_vio net = Some v" "inv v" "\<not> net_compress net"
      "buff net = Some b" "length b = max_packet net + NET_HEADER_SIZE + COMP_HEADER_SIZE" "where_b net \<le> max_packet net"
    and inc: "incoming v = frames (pkt_nr net) p @ rem" "where_b net + length p < max_packet_size net"
  shows "\<exists>net'. my_net_read env net = Some (Some (length p), net') \<and> delivered net b (where_b net) p rem net' \<and>
     net_read_pos net' = where_b net \<and> where_b net' = where_b net \<and>
     get_byte (buff net') (where_b net + length p) = Some 0 \<and> pkt_nr net' = pkt_nr net + of_nat (frame_count p)"
proof -
  let ?w = "where_b net" and ?rest = "drop MAX_PACKET_LENGTH p"
  let ?rem = "(if MAX_PACKET_LENGTH \<le> length p then frames (pkt_nr net + 1) ?rest else []) @ rem"
  have inc': "incoming v = packet_header (length (first_frame p)) (pkt_nr net) @ first_frame p @ ?rem"
    using inc(1) frames_first [of "pkt_nr net" p] by simp
  obtain net1 where r: "my_real_read env net = Some (Some (length (first_frame p)), 0, net1)"
    "delivered net b ?w (first_frame p) ?rem net1" "where_b net1 = ?w" "pkt_nr net1 = pkt_nr net + 1"
    using my_real_read_delivered [OF env net inc'] inc(2) by (force simp: length_first_frame)
  have "\<exists>net2. (if Some (length (first_frame p)) = Some MAX_PACKET_LENGTH then do {
          let save_pos = where_b net1;
          (len, total_length, net) \<leftarrow> read_multi env net1 0;
          Some (map_option (\<lambda>len. len + total_length) len, net\<lparr>where_b := save_pos\<rparr>)
        } else Some (Some (length (first_frame p)), net1)) = Some (Some (length p), net2) \<and>
      delivered net b ?w p rem net2 \<and> where_b net2 = ?w \<and> pkt_nr net2 = pkt_nr net + of_nat (frame_count p)"
  proof (cases "MAX_PACKET_LENGTH \<le> length p")
    case False
    then show ?thesis using r by (simp add: first_frame_def frame_count_def)
  next
    case True
    then have ff: "first_frame p = take MAX_PACKET_LENGTH p" "length (first_frame p) = MAX_PACKET_LENGTH"
      by (simp_all add: first_frame_def)
    obtain b1 v1 where n1: "net_vio net1 = Some v1" "inv v1" "buff net1 = Some b1"
      "length b1 = max_packet net1 + NET_HEADER_SIZE + COMP_HEADER_SIZE" "?w + MAX_PACKET_LENGTH \<le> max_packet net1"
      "incoming v1 = frames (pkt_nr net1) ?rest @ rem" "read_same net net1"
      using r(2,4) True ff by (auto simp: delivered_def)
    obtain l t net2 where m: "read_multi env net1 0 = Some (Some l, t, net2)" "l + t = MAX_PACKET_LENGTH + length ?rest"
      "delivered net1 b1 (?w + MAX_PACKET_LENGTH) ?rest rem net2" "pkt_nr net2 = pkt_nr net1 + of_nat (frame_count ?rest)"
      using read_multi_delivered [OF env n1(1,2) _ n1(3,4) _ _ n1(6), of 0] n1(5,7) r(3) net(3) inc(2) True
      by (auto simp: read_same_def)
    have "delivered net b ?w (first_frame p @ ?rest) rem net2"
      using m(3) ff(2) net(5,6) by (intro delivered_append [OF r(2) n1(3)]) simp_all
    then have "delivered net b ?w p rem net2" using ff(1) by simp
    then have "delivered net b ?w p rem (net2\<lparr>where_b := ?w\<rparr>)" by (simp add: delivered_def read_same_def)
    then show ?thesis
      using m True ff r(3,4) frame_count_drop [OF True] by (intro exI [of _ "net2\<lparr>where_b := ?w\<rparr>"]) simp
  qed
  then obtain net2 where n2: "my_net_read env net = do {
      let net = net2\<lparr>net_read_pos := where_b net2\<rparr>;
      b \<leftarrow> put_bytes (buff net) (net_read_pos net + length p) [0];
      Some (Some (length p), net\<lparr>buff := Some b\<rparr>) }"
    "delivered net b ?w p rem net2" "where_b net2 = ?w" "pkt_nr net2 = pkt_nr net + of_nat (frame_count p)"
    using net(3) r(1) by (auto simp: my_net_read_def my_net_read_plain_def)
  obtain b2 v2 where d: "buff net2 = Some b2" "length b2 = max_packet net2 + NET_HEADER_SIZE + COMP_HEADER_SIZE"
    "?w + length p \<le> max_packet net2" "take ?w b2 = take ?w b" "take (length p) (drop ?w b2) = p"
    "net_vio net2 = Some v2" "inv v2" "incoming v2 = rem" "net_error net2 = net_error net" "read_same net net2"
    "write_pos net2 \<le> write_pos net" "\<forall>v. net_vio net = Some v \<longrightarrow> outgoing v2 = outgoing v"
    using n2(2) unfolding delivered_def by blast
  define b3 where "b3 = take (?w + length p) b2 @ [0] @ drop (?w + length p + 1) b2"
  have room: "?w + length p + 1 \<le> length b2" using d(2,3) by (simp add: NET_HEADER_SIZE_def)
  have b3: "length b3 = length b2" "take (?w + length p) b3 = take (?w + length p) b2" "b3 ! (?w + length p) = 0"
    using room by (simp_all add: b3_def nth_append)
  let ?net = "net2\<lparr>net_read_pos := ?w, buff := Some b3\<rparr>"
  have "put_bytes (buff net2) (?w + length p) [0] = Some b3" using d(1) room by (simp add: put_bytes_def b3_def)
  then have "my_net_read env net = Some (Some (length p), ?net)" using n2(1,3) by simp
  moreover have "take ?w b3 = take ?w b" "take (length p) (drop ?w b3) = p"
    using take_eq_mono [OF b3(2), of ?w] d(4,5) b3(2) by (simp_all add: take_drop add.commute)
  then have "delivered net b ?w p rem ?net"
    unfolding delivered_def using d b3(1) by (intro exI [of _ b3] exI [of _ v2]) (simp add: read_same_def)
  moreover have "get_byte (buff ?net) (?w + length p) = Some 0" using room b3 by (simp add: get_byte_def)
  ultimately show ?thesis using n2(3,4) by (intro exI [of _ ?net]) simp
qed

text \<open>A packet whose number is not the expected one: an error, and only its header is taken off the stream.\<close>

lemma my_real_read_out_of_order:
  assumes env: "env_ops env = ops"
    and net: "net_vio net = Some v" "inv v" "\<not> net_compress net"
      "buff net = Some b" "length b = max_packet net + NET_HEADER_SIZE + COMP_HEADER_SIZE" "where_b net \<le> max_packet net"
    and inc: "incoming v = packet_header len nr @ rem" "len \<le> MAX_PACKET_LENGTH" "(ucast nr :: uchar) \<noteq> ucast (pkt_nr net)"
  shows "\<exists>net' v'. my_real_read env net = Some (None, 0, net') \<and> net_vio net' = Some v' \<and> incoming v' = rem \<and>
     pkt_nr net' = pkt_nr net \<and> net_error net' = net_error net"
proof -
  let ?w = "where_b net"
  define b1 where "b1 = take ?w b @ packet_header len nr @ drop (?w + NET_HEADER_SIZE) b"
  have room: "?w + length (packet_header len nr) \<le> length b" using net(5,6) by simp
  obtain v1 where l1: "read_loop ops (retry_count net) False 0 v (Some b) ?w NET_HEADER_SIZE =
      Some (None, v1, Some b1, False, 0)" "incoming v1 = rem"
    using read_loop_stream [OF net(2) inc(1) room, of "retry_count net" False 0] by (auto simp: b1_def)
  have g: "get_byte (Some b1) (?w + 3) = Some (ucast nr)" using get_header(1) [OF _ inc(2) b1_def] room by simp
  let ?net = "net\<lparr>net_vio := Some v1, buff := Some b1, reading_or_writing := 0\<rparr>"
  have "my_real_read env net = Some (None, 0, ?net)"
    using net env l1(1) g inc(3) by (simp add: my_real_read_def real_read_header_def real_read_end_plain)
  then show ?thesis using l1(2) by (intro exI [of _ ?net] exI [of _ v1]) simp
qed

end

subsection \<open>Reading from any connection\<close>

definition read_wf :: "('v \<Rightarrow> bool) \<Rightarrow> 'v net \<Rightarrow> bool" where
  "read_wf ok net \<longleftrightarrow> (\<exists>v. net_vio net = Some v \<and> ok v) \<and> read_buffer_ok net"

lemma get_int3_defined: "off + 3 \<le> length b \<Longrightarrow> \<exists>n. get_int3 (Some b) off = Some n"
  by (simp add: get_int3_def get_bytes_def uint3korr_value)

text \<open>How far one read may have moved the handle: the buffer may have grown up to the configured limit.\<close>

definition read_step :: "'v net \<Rightarrow> nat option \<Rightarrow> 'v net \<Rightarrow> bool" where
  "read_step net len net' \<longleftrightarrow>
     where_b net' = where_b net \<and> read_same net net' \<and>
     max_packet net' \<le> max (max_packet net) (max_packet_size net + IO_SIZE) \<and>
     (case len of None \<Rightarrow> True | Some n \<Rightarrow> where_b net + n \<le> max_packet net')"

lemma real_read_header_total:
  assumes env: "block_realloc_ok (env_realloc env)" and net: "read_buffer_ok net"
  shows "\<exists>len complen net'. real_read_header env net = Some (len, complen, net') \<and> read_buffer_ok net' \<and>
     net_vio net' = net_vio net \<and> read_step net len net'"
proof -
  obtain b where b: "buff net = Some b" "length b = max_packet net + NET_HEADER_SIZE + COMP_HEADER_SIZE"
    "where_b net \<le> max_packet net"
    using net by (auto simp: read_buffer_ok_def)
  let ?net = "net\<lparr>pkt_nr := pkt_nr net + 1, compress_pkt_nr := pkt_nr net + 1\<rparr>"
  have room: "where_b net + 3 < length b" "where_b net + 4 + 3 \<le> length b"
    using b by (simp_all add: NET_HEADER_SIZE_def COMP_HEADER_SIZE_def)
  obtain nr where nr: "get_byte (Some b) (where_b net + 3) = Some nr" using room(1) by (auto simp: get_byte_def)
  obtain len where len: "get_int3 (Some b) (where_b net) = Some len"
    using get_int3_defined [of "where_b net" b] room(1) by auto
  obtain cl where cl: "(if net_compress net then get_int3 (Some b) (where_b net + NET_HEADER_SIZE) else Some 0) = Some cl"
    using get_int3_defined [OF room(2)] by (cases "net_compress net") (auto simp: NET_HEADER_SIZE_def)
  let ?h = "max len cl + where_b net"
  have same: "read_buffer_ok ?net" "read_same net ?net" using b by (auto simp: read_buffer_ok_def read_same_def)
  consider (bad) "nr \<noteq> ucast (pkt_nr net)" | (ok) "nr = ucast (pkt_nr net)" "len = 0 \<or> ?h < max_packet net"
    | (grow) "nr = ucast (pkt_nr net)" "len \<noteq> 0" "?h \<ge> max_packet net"
    by linarith
  then show ?thesis
  proof cases
    case bad
    then show ?thesis using b nr net by (simp add: real_read_header_def read_step_def read_same_def)
  next
    case ok
    then have "real_read_header env net = Some (Some len, cl, ?net)"
      using b(1) nr len cl by (cases "net_compress net"; cases "len = 0") (simp_all add: real_read_header_def)
    then show ?thesis using ok same b(3) by (auto simp: read_step_def)
  next
    case grow
    have wb: "where_b ?net \<le> length b" "where_b ?net \<le> ?h" and bf: "buff ?net = Some b" using b by simp_all
    show ?thesis
    proof (rule net_realloc_cases [OF env bf wb])
      fix net' assume r: "net_realloc env ?net ?h = (True, net')" "net' = ?net\<lparr>net_error := 1, last_errno := last_errno net'\<rparr>"
      have "real_read_header env net = Some (None, cl, net')"
        using grow b(1) nr len cl r(1) by (cases "net_compress net") (simp_all add: real_read_header_def)
      moreover have f: "buff net' = buff net" "where_b net' = where_b net" "net_vio net' = net_vio net" "max_packet net' = max_packet net"
        "max_packet_size net' = max_packet_size net" "net_compress net' = net_compress net" "retry_count net' = retry_count net"
        by (subst r(2), simp)+
      then have "read_buffer_ok net'" "net_vio net' = net_vio net" "read_step net None net'"
        using b f by (auto simp: read_buffer_ok_def read_step_def read_same_def)
      ultimately show ?thesis by blast
    next
      fix net' b' assume r: "net_realloc env ?net ?h = (False, net')" "?h < max_packet_size ?net"
        "net' = ?net\<lparr>buff := Some b', write_pos := 0, max_packet := max_packet net'\<rparr>" "?h \<le> max_packet net'"
        "length b' = max_packet net' + NET_HEADER_SIZE + COMP_HEADER_SIZE" "max_packet net' \<le> ?h + IO_SIZE"
      have "real_read_header env net = Some (Some len, cl, net')"
        using grow b(1) nr len cl r(1) by (cases "net_compress net") (simp_all add: real_read_header_def)
      moreover have f: "buff net' = Some b'" "where_b net' = where_b net" "net_vio net' = net_vio net"
        "max_packet_size net' = max_packet_size net" "net_compress net' = net_compress net" "retry_count net' = retry_count net"
        by (subst r(3), simp)+
      then have "read_buffer_ok net'" "net_vio net' = net_vio net" "read_step net (Some len) net'"
        using r(2,4-6) f by (auto simp: read_buffer_ok_def read_step_def read_same_def)
      ultimately show ?thesis by blast
    qed
  qed
qed

context vio_progress
begin

lemma read_loop_total:
  "inv v \<Longrightarrow> off + remain \<le> length b \<Longrightarrow> \<exists>err v' b' alarmed' retry'.
     read_loop ops limit alarmed retry v (Some b) off remain = Some (err, v', Some b', alarmed', retry') \<and>
     inv v' \<and> length b' = length b"
proof (induction "remain + fuel v + (if alarmed then 0 else 1)" arbitrary: v b off remain alarmed retry rule: less_induct)
  case less
  show ?case
  proof (cases "remain = 0")
    case True
    then show ?thesis using less.prems by (subst read_loop.simps) simp
  next
    case False
    obtain r v1 where r: "op_read ops v remain = Some (r, v1)" "inv v1" using read_defined [OF less.prems(1)] by blast
    have f: "fuel v1 \<le> fuel v" using read_fuel [OF less.prems(1) r(1)] .
    show ?thesis
    proof (cases "r \<noteq> None \<and> r \<noteq> Some []")
      case True
      then obtain bs where bs: "r = Some bs" "bs \<noteq> []" by auto
      have le: "length bs \<le> remain" using read_bound [OF less.prems(1)] r(1) bs(1) by blast
      define b1 where "b1 = take off b @ bs @ drop (off + length bs) b"
      have put: "put_bytes (Some b) off bs = Some b1" "length b1 = length b"
        using le less.prems(2) by (simp_all add: put_bytes_def b1_def)
      have "remain - length bs < remain" using bs(2) False by (cases bs) auto
      then have "remain - length bs + fuel v1 + (if alarmed then 0 else 1) < remain + fuel v + (if alarmed then 0 else 1)"
        using f by simp
      from less.hyps [OF this r(2), of "off + length bs" b1 retry] le put(2) less.prems(2)
      obtain err v' b' al rt where "read_loop ops limit alarmed retry v1 (Some b1) (off + length bs) (remain - length bs) =
        Some (err, v', Some b', al, rt)" "inv v'" "length b' = length b" by auto
      then show ?thesis using False r(1) bs le put(1) by (subst read_loop.simps) simp
    next
      case fail: False
      obtain okb v2 where sb: "set_blocking ops limit retry v1 = (okb, v2)" by (metis prod.exhaust)
      have 2: "inv v2" "fuel v2 \<le> fuel v1" using set_blocking_inv [OF sb r(2)] by auto
      have first: "\<exists>err v' b' al' rt'. read_loop ops limit True 0 v2 (Some b) off remain = Some (err, v', Some b', al', rt') \<and>
          inv v' \<and> length b' = length b" if "\<not> alarmed"
        using less.hyps [of remain v2 True off b 0] that 2 f less.prems(2) by auto
      have again: "\<exists>err v' b' al' rt'. read_loop ops limit alarmed rt v1 (Some b) off remain = Some (err, v', Some b', al', rt') \<and>
          inv v' \<and> length b' = length b" if "op_should_retry ops v1 \<or> op_errno ops v1 = SOCKET_EINTR" for rt
      proof -
        have "r = None" using fail read_eof [OF less.prems(1)] r(1) False that by auto
        then have "fuel v1 < fuel v" using read_progress [OF less.prems(1)] r(1) by blast
        then show ?thesis using less.hyps [of remain v1 alarmed off b rt] r(2) less.prems(2) by auto
      qed
      have eq: "read_loop ops limit alarmed retry v (Some b) off remain =
          (if (op_should_retry ops v1 \<or> r = Some []) \<and> \<not> alarmed then
             if okb then read_loop ops limit True 0 v2 (Some b) off remain
             else Some (Some ER_NET_FCNTL_ERROR, v2, Some b, True, retry)
           else if alarmed \<and> op_should_retry ops v1 \<and> retry < limit
           then read_loop ops limit alarmed (retry + 1) v1 (Some b) off remain
           else if op_errno ops v1 = SOCKET_EINTR
           then read_loop ops limit alarmed (if alarmed \<and> op_should_retry ops v1 then retry + 1 else retry) v1 (Some b) off remain
           else Some (Some (if op_was_interrupted ops v1 then ER_NET_READ_INTERRUPTED else ER_NET_READ_ERROR),
                      v1, Some b, alarmed, retry))"
        using False fail
        by (subst read_loop.simps) (simp only: r(1) sb Let_def prod.case option.case if_False simp_thms)
      show ?thesis
        unfolding eq using first again r(2) 2(1) by auto
    qed
  qed
qed

lemma real_read_end_wf:
  "read_wf inv net \<Longrightarrow> read_wf inv (real_read_end env nb al net)" if "env_ops env = ops"
proof -
  assume wf: "read_wf inv net"
  then obtain v where v: "net_vio net = Some v" "inv v" by (auto simp: read_wf_def)
  have "inv (if al then snd (op_blocking ops v nb) else v)"
    using blocking_inv [OF v(2), of nb] v(2) by (cases "op_blocking ops v nb") auto
  then show ?thesis using wf v that by (auto simp: read_wf_def real_read_end_def read_buffer_ok_def)
qed

lemma real_read_end_step: "read_step net len (real_read_end env nb al net') = read_step net len net'"
  by (cases len) (simp_all add: read_step_def real_read_end_def read_same_def)

lemma my_real_read_total:
  assumes env: "env_ops env = ops" "block_realloc_ok (env_realloc env)" and wf: "read_wf inv net"
  shows "\<exists>len complen net'. my_real_read env net = Some (len, complen, net') \<and> read_wf inv net' \<and> read_step net len net'"
proof -
  obtain v b where v: "net_vio net = Some v" "inv v" and b: "buff net = Some b"
    "length b = max_packet net + NET_HEADER_SIZE + COMP_HEADER_SIZE" "where_b net \<le> max_packet net"
    using wf by (auto simp: read_wf_def read_buffer_ok_def)
  define hs where "hs = (if net_compress net then NET_HEADER_SIZE + COMP_HEADER_SIZE else NET_HEADER_SIZE)"
  have "where_b net + hs \<le> length b" using b by (simp add: hs_def)
  then obtain err v1 b1 al rt where l1: "read_loop ops (retry_count net) False 0 v (Some b) (where_b net) hs =
      Some (err, v1, Some b1, al, rt)" "inv v1" "length b1 = length b"
    using read_loop_total [OF v(2)] by blast
  define net1 where "net1 = net\<lparr>net_vio := Some v1, buff := Some b1\<rparr>"
  have wf1: "read_wf inv net1" "read_buffer_ok net1" "read_step net None net1"
    using l1(2,3) b by (auto simp: net1_def read_wf_def read_buffer_ok_def read_step_def read_same_def)
  have start: "read_loop ops (retry_count net) False 0 v (buff net) (where_b net)
      (if net_compress net then NET_HEADER_SIZE + COMP_HEADER_SIZE else NET_HEADER_SIZE) = Some (err, v1, Some b1, al, rt)"
    using l1(1) b(1) by (simp add: hs_def)
  note unf = my_real_read_def v(1) env(1) option.case start bind.bind_lunit prod.case net1_def [symmetric]
  have failed: "read_wf inv (n\<lparr>net_error := 2, last_errno := e\<rparr>)" "read_step net None (n\<lparr>net_error := 2, last_errno := e\<rparr>)"
    if "read_wf inv n" "read_step net len n" for n e len
    using that by (auto simp: read_wf_def read_buffer_ok_def read_step_def read_same_def)
  show ?thesis
  proof (cases err)
    case (Some e)
    then have "my_real_read env net = Some (None, 0, real_read_end env (op_is_blocking ops v) al (net1\<lparr>net_error := 2, last_errno := e\<rparr>))"
      by (simp only: unf Let_def)
    then show ?thesis
      using failed [OF wf1(1,3)] real_read_end_wf [OF env(1)] by (simp add: real_read_end_step)
  next
    case None
    obtain len complen net2 where h: "real_read_header env net1 = Some (len, complen, net2)" "read_buffer_ok net2"
      "net_vio net2 = net_vio net1" "read_step net1 len net2"
      using real_read_header_total [OF env(2) wf1(2)] by blast
    have wf2: "read_wf inv net2" "read_step net len net2"
      using h l1(2) by (auto simp: read_wf_def net1_def read_step_def read_same_def split: option.splits)
    show ?thesis
    proof (cases "len = None \<or> len = Some 0")
      case True
      then have "my_real_read env net = Some (len, complen, real_read_end env (op_is_blocking ops v) al net2)"
        using None by (auto simp only: unf Let_def h(1) simp_thms if_True)
      then show ?thesis using wf2 real_read_end_wf [OF env(1)] by (simp add: real_read_end_step)
    next
      case False
      then obtain n where n: "len = Some n" "n \<noteq> 0" by auto
      obtain b2 where b2: "buff net2 = Some b2" "length b2 = max_packet net2 + NET_HEADER_SIZE + COMP_HEADER_SIZE"
        "where_b net2 \<le> max_packet net2"
        using h(2) by (auto simp: read_buffer_ok_def)
      have "where_b net2 + n \<le> length b2" using wf2(2) n b2(2) by (simp add: read_step_def)
      then obtain err2 v3 b3 al3 rt3 where l2: "read_loop ops (retry_count net2) al rt v1 (Some b2) (where_b net2) n =
          Some (err2, v3, Some b3, al3, rt3)" "inv v3" "length b3 = length b2"
        using read_loop_total [OF l1(2)] by blast
      define net3 where "net3 = net2\<lparr>net_vio := Some v3, buff := Some b3\<rparr>"
      have wf3: "read_wf inv net3" "read_step net len net3"
        using l2 b2 wf2(2) n(1) by (auto simp: net3_def read_wf_def read_buffer_ok_def read_step_def read_same_def)
      have "my_real_read env net =
          (case err2 of Some e \<Rightarrow> Some (None, complen, real_read_end env (op_is_blocking ops v) al3 (net3\<lparr>net_error := 2, last_errno := e\<rparr>))
           | None \<Rightarrow> Some (Some n, complen, real_read_end env (op_is_blocking ops v) al3 net3))"
        using n None by (simp only: unf Let_def h(1) b2(1) l2(1) if_False net3_def)
      then show ?thesis
        using n(1) wf3 failed [OF wf3] real_read_end_wf [OF env(1)] by (cases err2) (auto simp: real_read_end_step)
    qed
  qed
qed

lemma read_multi_total:
  assumes env: "env_ops env = ops" "block_realloc_ok (env_realloc env)"
  shows "read_wf inv net \<Longrightarrow> where_b net + MAX_PACKET_LENGTH \<le> max_packet net \<Longrightarrow>
     max_packet net \<le> K \<Longrightarrow> max_packet_size net + IO_SIZE \<le> K \<Longrightarrow>
     \<exists>len t net'. read_multi env net tot = Some (len, tot + t, net') \<and> read_wf inv net' \<and> read_same net net' \<and>
       (case len of None \<Rightarrow> True | Some n \<Rightarrow> where_b net + n + t \<le> max_packet net')"
proof (induction "K - where_b net" arbitrary: net tot rule: less_induct)
  case less
  let ?w = "where_b net + MAX_PACKET_LENGTH" and ?net = "net\<lparr>where_b := where_b net + MAX_PACKET_LENGTH\<rparr>"
  have "read_wf inv ?net" using less.prems(1,2) by (auto simp: read_wf_def read_buffer_ok_def)
  then obtain len c net1 where r: "my_real_read env ?net = Some (len, c, net1)" "read_wf inv net1" "read_step ?net len net1"
    using my_real_read_total [OF env] by blast
  show ?case
  proof (cases "len = Some MAX_PACKET_LENGTH")
    case False
    then have "read_multi env net tot = Some (len, tot + MAX_PACKET_LENGTH, net1)"
      using r(1) by (subst read_multi.simps) simp
    with r(2,3) show ?thesis
      by (intro exI [of _ len] exI [of _ MAX_PACKET_LENGTH] exI [of _ net1])
         (auto simp: read_step_def read_same_def split: option.splits)
  next
    case True
    have s: "where_b net1 = ?w" "?w + MAX_PACKET_LENGTH \<le> max_packet net1" "max_packet_size net1 = max_packet_size net"
      "max_packet net1 \<le> K" "read_same net net1"
      using r(3) True less.prems(3,4) by (auto simp: read_step_def read_same_def)
    have "K - where_b net1 < K - where_b net" using s max_packet_length_pos by linarith
    from less.hyps [OF this r(2), of "tot + MAX_PACKET_LENGTH"] s less.prems(4)
    obtain l t net' where "read_multi env net1 (tot + MAX_PACKET_LENGTH) = Some (l, tot + MAX_PACKET_LENGTH + t, net')"
      "read_wf inv net'" "read_same net1 net'" "case l of None \<Rightarrow> True | Some n \<Rightarrow> where_b net1 + n + t \<le> max_packet net'"
      by auto
    moreover have "read_multi env net tot = read_multi env net1 (tot + MAX_PACKET_LENGTH)"
      using r(1) True by (subst read_multi.simps) simp
    ultimately show ?thesis
      using s(1) read_same_trans [OF s(5)]
      by (intro exI [of _ l] exI [of _ "MAX_PACKET_LENGTH + t"] exI [of _ net']) (auto split: option.splits)
  qed
qed

lemma my_net_read_plain_total:
  assumes env: "env_ops env = ops" "block_realloc_ok (env_realloc env)" and wf: "read_wf inv net"
  shows "\<exists>len net'. my_net_read_plain env net = Some (len, net') \<and> (\<exists>v. net_vio net' = Some v \<and> inv v) \<and>
     (case len of None \<Rightarrow> True
      | Some n \<Rightarrow> read_buffer_ok net' \<and> net_read_pos net' + n \<le> max_packet net' \<and> get_byte (buff net') (net_read_pos net' + n) = Some 0)"
proof -
  obtain len c net1 where r: "my_real_read env net = Some (len, c, net1)" "read_wf inv net1" "read_step net len net1"
    using my_real_read_total [OF assms] by blast
  have "\<exists>len2 net2. (if len = Some MAX_PACKET_LENGTH then do {
          let save_pos = where_b net1;
          (len, total_length, net) \<leftarrow> read_multi env net1 0;
          Some (map_option (\<lambda>len. len + total_length) len, net\<lparr>where_b := save_pos\<rparr>)
        } else Some (len, net1)) = Some (len2, net2) \<and> (\<exists>v. net_vio net2 = Some v \<and> inv v) \<and>
      (case len2 of None \<Rightarrow> True | Some n \<Rightarrow> read_wf inv net2 \<and> where_b net2 + n \<le> max_packet net2)"
  proof (cases "len = Some MAX_PACKET_LENGTH")
    case False
    with r show ?thesis by (cases len) (auto simp: read_step_def read_wf_def)
  next
    case True
    let ?K = "max (max_packet net1) (max_packet_size net1 + IO_SIZE)"
    have "where_b net1 + MAX_PACKET_LENGTH \<le> max_packet net1" using r(3) True by (simp add: read_step_def)
    then obtain l t net2 where m: "read_multi env net1 0 = Some (l, t, net2)" "read_wf inv net2"
      "case l of None \<Rightarrow> True | Some n \<Rightarrow> where_b net1 + n + t \<le> max_packet net2"
      using read_multi_total [OF env r(2), of ?K 0] by auto
    then show ?thesis
      using True by (cases l) (auto simp: read_wf_def read_buffer_ok_def)
  qed
  then obtain len2 net2 where n2: "my_net_read_plain env net = (let net = net2\<lparr>net_read_pos := where_b net2\<rparr> in
        case len2 of None \<Rightarrow> Some (None, net)
        | Some len \<Rightarrow> do {
            b \<leftarrow> put_bytes (buff net) (net_read_pos net + len) [0];
            Some (Some len, net\<lparr>buff := Some b\<rparr>) })"
    and v2: "\<exists>v. net_vio net2 = Some v \<and> inv v"
    and l2: "case len2 of None \<Rightarrow> True | Some n \<Rightarrow> read_wf inv net2 \<and> where_b net2 + n \<le> max_packet net2"
    using r(1) by (auto simp: my_net_read_plain_def)
  show ?thesis
  proof (cases len2)
    case None
    then show ?thesis using n2 v2 by simp
  next
    case (Some n)
    then obtain b where b: "buff net2 = Some b" "length b = max_packet net2 + NET_HEADER_SIZE + COMP_HEADER_SIZE"
      "where_b net2 \<le> max_packet net2" "where_b net2 + n \<le> max_packet net2"
      using l2 by (auto simp: read_wf_def read_buffer_ok_def)
    define b' where "b' = take (where_b net2 + n) b @ [0] @ drop (where_b net2 + n + 1) b"
    have room: "where_b net2 + n + 1 \<le> length b" using b by (simp add: NET_HEADER_SIZE_def)
    then have b': "put_bytes (Some b) (where_b net2 + n) [0] = Some b'" "length b' = length b" "b' ! (where_b net2 + n) = 0"
      by (simp_all add: put_bytes_def b'_def nth_append)
    have "my_net_read_plain env net = Some (Some n, net2\<lparr>net_read_pos := where_b net2, buff := Some b'\<rparr>)"
      using n2 Some b(1) b'(1) by simp
    then show ?thesis using v2 b b' room by (auto simp: read_buffer_ok_def get_byte_def)
  qed
qed

end

subsection \<open>Properties\<close>

definition read_ready :: "('v net_env) \<Rightarrow> ('v \<Rightarrow> bool) \<Rightarrow> 'v net \<Rightarrow> bool" where
  "read_ready env ok net \<longleftrightarrow>
     read_wf ok net \<and> \<not> net_compress net \<and> block_realloc_ok (env_realloc env) \<and>
     (\<forall>b n. env_realloc env (Some b) n \<noteq> None)"

text \<open>The bytes of the packet \<open>my_net_read\<close> has returned.\<close>

definition net_packet :: "'v net \<Rightarrow> nat \<Rightarrow> bytes option" where
  "net_packet net len = get_bytes (buff net) (net_read_pos net) len"

lemma net_read_framed:
  assumes "read_ready env vio_live net" "env_ops env = socket_ops sock_kernel"
    and "net_in vio_incoming net = frames (pkt_nr net) p @ rem" "where_b net + length p < max_packet_size net"
  shows "\<exists>net'. my_net_read env net = Some (Some (length p), net') \<and> net_packet net' (length p) = Some p \<and>
     get_byte (buff net') (net_read_pos net' + length p) = Some 0 \<and> net_in vio_incoming net' = rem \<and>
     pkt_nr net' = pkt_nr net + of_nat (frame_count p) \<and> read_ready env vio_live net' \<and>
     where_b net' = where_b net \<and> max_packet_size net' = max_packet_size net \<and> net_read_pos net' = where_b net \<and>
     net_error net' = net_error net \<and> (write_pos net = 0 \<longrightarrow> write_pos net' = 0 \<and> net_out vio_outgoing net' = net_out vio_outgoing net)"
proof -
  obtain v b where v: "net_vio net = Some v" "vio_live v" and b: "buff net = Some b"
    "length b = max_packet net + NET_HEADER_SIZE + COMP_HEADER_SIZE" "where_b net \<le> max_packet net"
    using assms(1) by (auto simp: read_ready_def read_wf_def read_buffer_ok_def)
  have env: "block_realloc_ok (env_realloc env)" "\<not> net_compress net" "env_realloc env (Some x) n \<noteq> None" for x n
    using assms(1) by (auto simp: read_ready_def)
  have inc: "vio_incoming v = frames (pkt_nr net) p @ rem" using assms(3) v(1) by (simp add: net_in_def)
  obtain net' where r: "my_net_read env net = Some (Some (length p), net')" "socks.delivered net b (where_b net) p rem net'"
    "net_read_pos net' = where_b net" "where_b net' = where_b net" "get_byte (buff net') (where_b net + length p) = Some 0"
    "pkt_nr net' = pkt_nr net + of_nat (frame_count p)"
    using socks.my_net_read_plain_stream [OF assms(2) env(1,3) v env(2) b inc assms(4)] by blast
  then show ?thesis
    using env b(3) unfolding socks.delivered_def
    by (intro exI [of _ net'])
       (auto simp: net_packet_def get_bytes_def net_in_def net_out_def read_ready_def read_wf_def read_buffer_ok_def read_same_def v(1) b(1))
qed

text \<open>
  C2: If the stream starts with the framing of a logical packet \<open>p\<close>, numbered from the expected
  sequence number, then \<open>my_net_read\<close> returns its length, \<open>net->read_pos\<close> points to exactly \<open>p\<close> followed
  by a zero byte, the stream goes on after the packet, and the sequence number has advanced by the
  number of physical packets; whatever the sizes of the reads and however often the buffer grows.
\<close>

theorem my_net_read_refines:
  assumes "read_ready env vio_live net" "env_ops env = socket_ops sock_kernel"
    and "net_in vio_incoming net = frames (pkt_nr net) p @ rem" "where_b net + length p < max_packet_size net"
  shows "\<exists>net'. my_net_read env net = Some (Some (length p), net') \<and> net_packet net' (length p) = Some p \<and>
     get_byte (buff net') (net_read_pos net' + length p) = Some 0 \<and> net_in vio_incoming net' = rem \<and>
     pkt_nr net' = pkt_nr net + of_nat (frame_count p) \<and> read_ready env vio_live net'"
  using net_read_framed [OF assms] by blast

lemma sample_realloc_ok: "block_realloc_ok (env_realloc sample_env)" "env_realloc sample_env (Some b) n \<noteq> None"
  by (auto simp: block_realloc_ok_def sample_env_def)

lemma sample_read_wf: "read_wf vio_wf (sample_net n (sample_sock input script))"
  using sample_vio_wf
  by (simp add: read_wf_def read_buffer_ok_def sample_net_def NET_HEADER_SIZE_def COMP_HEADER_SIZE_def)

lemma sample_read_ready:
  "(\<forall>e\<in>set script. \<exists>c. e = Chunk c) \<Longrightarrow> read_ready sample_env vio_live (sample_net n (sample_sock input script))"
  using sample_net_ready [of script n input] sample_read_wf [of n input script] sample_realloc_ok
  by (simp add: read_ready_def net_ready_def read_wf_def)

lemma sample_net_in [simp]: "net_in vio_incoming (sample_net n (sample_sock input script)) = input"
  by (simp add: net_in_def sample_net_def vio_incoming_def sample_sock_def vio_init_def Let_def)

theorem my_net_read_refines_witness:
  "\<exists>net'. my_net_read sample_env (sample_net 100 (sample_sock (frames 0 (replicate 20 5) @ [9]) [Chunk 1, Chunk 30])) =
     Some (Some 20, net') \<and> net_packet net' 20 = Some (replicate 20 5) \<and> net_in vio_incoming net' = [9]"
proof -
  let ?net = "sample_net 100 (sample_sock (frames 0 (replicate 20 5) @ [9]) [Chunk 1, Chunk 30])"
  have "read_ready sample_env vio_live ?net" by (rule sample_read_ready) simp
  moreover have "pkt_nr ?net = 0" "where_b ?net + 20 < max_packet_size ?net" by (simp_all add: sample_net_def)
  ultimately show ?thesis
    using my_net_read_refines [OF _ sample_env_ops, of ?net "replicate 20 5" "[9]"] by auto
qed

text \<open>
  C1: Round trip over the wire: what one side sends with \<open>net_write_command\<close> from an empty buffer, the
  other side gets back from \<open>my_net_read\<close> byte for byte - command, header and data - when its sequence
  number agrees, and both sequence numbers agree again afterwards.
\<close>

theorem net_command_roundtrip:
  assumes w: "net_ready vio_live net" "env_ops env = socket_ops sock_kernel" "length header < MAX_PACKET_LENGTH"
      "net_out vio_outgoing net = []"
    and sent: "net_write_command env net command header data = Some (err, net1)" "net_vio net1 = Some v1"
    and r: "read_ready env' vio_live peer" "env_ops env' = socket_ops sock_kernel" "net_in vio_incoming peer = vio_outgoing v1"
      "pkt_nr peer = pkt_nr net" "where_b peer + length header + length data + 1 < max_packet_size peer"
  shows "\<not> err \<and> (\<exists>peer'. my_net_read env' peer = Some (Some (1 + length header + length data), peer') \<and>
     net_packet peer' (1 + length header + length data) = Some (command # header @ data) \<and>
     net_in vio_incoming peer' = [] \<and> pkt_nr peer' = pkt_nr net1)"
proof -
  let ?p = "command # header @ data"
  have "length [command] + length header \<le> MAX_PACKET_LENGTH" using w(3) by simp
  from socks.net_write_command_loop_stream [OF w(1,2) this, of data]
  obtain net' where n: "net_write_command_loop env net [command] header data = Some (False, net')" "write_pos net' = 0"
    "net_ready vio_live net'" "net_out vio_outgoing net' = frames (pkt_nr net) ?p"
    "pkt_nr net' = pkt_nr net + of_nat (frame_count ?p)"
    using w(4) by (auto simp: socks.sends_def net_same_def)
  then have s: "\<not> err" "net1 = net'" using sent(1) by (auto simp: net_write_command_def)
  have out: "vio_outgoing v1 = frames (pkt_nr peer) ?p @ []"
    using n(2,4) s(2) sent(2) r(4) by (simp add: net_out_def split: option.splits)
  have "net_in vio_incoming peer = frames (pkt_nr peer) ?p @ []" using out r(3) by simp
  from net_read_framed [OF r(1,2) this] show ?thesis using s n(5) r(4,5) by auto
qed

theorem net_command_roundtrip_witness:
  "\<exists>net1 v1 peer'. net_write_command sample_env (sample_net 100 (sample_sock [] [Chunk 2])) 3 [] [65, 66] = Some (False, net1) \<and>
     net_vio net1 = Some v1 \<and>
     my_net_read sample_env (sample_net 100 (sample_sock (vio_outgoing v1) [Chunk 5])) = Some (Some 3, peer') \<and>
     net_packet peer' 3 = Some [3, 65, 66]"
proof -
  let ?net = "sample_net 100 (sample_sock [] [Chunk 2])" and ?peer = "\<lambda>xs. sample_net 100 (sample_sock xs [Chunk 5])"
  have w: "net_ready vio_live ?net" by (rule sample_net_ready) simp
  have out: "net_out vio_outgoing ?net = []" by (simp add: net_out_def sample_net_def vio_outgoing_def sample_sock_def)
  have r: "read_ready sample_env vio_live (?peer xs)" for xs by (rule sample_read_ready) simp
  have nr: "pkt_nr (?peer xs) = pkt_nr ?net" "where_b (?peer xs) + length [] + length [65, 66::uchar] + 1 < max_packet_size (?peer xs)" for xs
    by (simp_all add: sample_net_def)
  have "length [3::uchar] + length [] \<le> MAX_PACKET_LENGTH" by (simp add: MAX_PACKET_LENGTH_def)
  from socks.net_write_command_loop_stream [OF w sample_env_ops this, of "[65, 66]"]
  obtain net1 where n: "net_write_command sample_env ?net 3 [] [65, 66] = Some (False, net1)" "net_ready vio_live net1"
    by (auto simp: net_write_command_def socks.sends_def)
  then obtain v1 where v1: "net_vio net1 = Some v1" by (auto simp: net_ready_def)
  have "length ([]::bytes) < MAX_PACKET_LENGTH" by (simp add: MAX_PACKET_LENGTH_def)
  from net_command_roundtrip [OF w sample_env_ops this out n(1) v1 r sample_env_ops sample_net_in nr]
  show ?thesis using n(1) v1 by (simp add: numeral_3_eq_3) blast
qed

text \<open>
  C4: Whatever arrives and however the connection behaves - truncated packets, arbitrary header bytes,
  interrupted calls, errors, end of file, a failing allocator - reading an uncompressed packet ends, never
  touches a byte outside the buffer, and either reports \<open>packet_error\<close> or leaves a zero-terminated packet
  that lies inside the buffer.
\<close>

theorem my_net_read_safe:
  assumes "read_wf vio_wf net" "env_ops env = socket_ops sock_kernel" "block_realloc_ok (env_realloc env)" "\<not> net_compress net"
  shows "\<exists>len net'. my_net_read env net = Some (len, net') \<and>
     (case len of None \<Rightarrow> True
      | Some n \<Rightarrow> read_buffer_ok net' \<and> (\<exists>p. net_packet net' n = Some p \<and> length p = n) \<and>
          get_byte (buff net') (net_read_pos net' + n) = Some 0)"
proof -
  obtain len net' where r: "my_net_read env net = Some (len, net')"
    "case len of None \<Rightarrow> True
     | Some n \<Rightarrow> read_buffer_ok net' \<and> net_read_pos net' + n \<le> max_packet net' \<and> get_byte (buff net') (net_read_pos net' + n) = Some 0"
    using sockp.my_net_read_plain_total [OF assms(2,3,1)] assms(4) by (auto simp: my_net_read_def)
  then show ?thesis
    by (intro exI [of _ len] exI [of _ net']) (auto simp: net_packet_def get_bytes_def read_buffer_ok_def split: option.splits)
qed

theorem my_net_read_safe_witness:
  "\<exists>len net'. my_net_read sample_env (sample_net 100 (sample_sock [255, 255, 255, 0, 1, 2] [Fail SOCKET_EINTR, Chunk 1, Fail E_OTHER])) =
     Some (len, net')"
proof -
  let ?net = "sample_net 100 (sample_sock [255, 255, 255, 0, 1, 2] [Fail SOCKET_EINTR, Chunk 1, Fail E_OTHER])"
  have "\<not> net_compress ?net" by (simp add: sample_net_def)
  then show ?thesis
    using my_net_read_safe [OF sample_read_wf sample_env_ops sample_realloc_ok(1), of 100 "[255, 255, 255, 0, 1, 2]"] by blast
qed

text \<open>
  C23: A packet out of order is refused: if the low byte of the expected sequence number differs from the
  number in the header, \<open>my_net_read\<close> returns \<open>packet_error\<close>, only the header has been consumed, and the
  sequence number is unchanged.
\<close>

theorem my_net_read_out_of_order:
  assumes "read_ready env vio_live net" "env_ops env = socket_ops sock_kernel"
    and "net_in vio_incoming net = packet_header len nr @ rem" "len \<le> MAX_PACKET_LENGTH"
    and "(ucast nr :: uchar) \<noteq> ucast (pkt_nr net)"
  shows "\<exists>net'. my_net_read env net = Some (None, net') \<and> net_in vio_incoming net' = rem \<and> pkt_nr net' = pkt_nr net"
proof -
  obtain v b where v: "net_vio net = Some v" "vio_live v" and b: "buff net = Some b"
    "length b = max_packet net + NET_HEADER_SIZE + COMP_HEADER_SIZE" "where_b net \<le> max_packet net"
    and c: "\<not> net_compress net"
    using assms(1) by (auto simp: read_ready_def read_wf_def read_buffer_ok_def)
  have inc: "vio_incoming v = packet_header len nr @ rem" using assms(3) v(1) by (simp add: net_in_def)
  from socks.my_real_read_out_of_order [OF assms(2) v c b inc assms(4,5)] show ?thesis
    using c by (auto simp: my_net_read_def my_net_read_plain_def net_in_def)
qed

theorem my_net_read_out_of_order_witness:
  "\<exists>net'. my_net_read sample_env (sample_net 100 (sample_sock (packet_header 1 7 @ [65]) [Chunk 1])) = Some (None, net') \<and>
     net_in vio_incoming net' = [65]"
proof -
  let ?net = "sample_net 100 (sample_sock (packet_header 1 7 @ [65]) [Chunk 1])"
  have "read_ready sample_env vio_live ?net" by (rule sample_read_ready) simp
  moreover have "(ucast (7::uint32) :: uchar) \<noteq> ucast (pkt_nr ?net)" by (simp add: sample_net_def)
  moreover have "1 \<le> MAX_PACKET_LENGTH" by (simp add: MAX_PACKET_LENGTH_def)
  ultimately show ?thesis
    using my_net_read_out_of_order [OF _ sample_env_ops, of ?net 1 7 "[65]"] by auto
qed

end
