(* ===== verification/Sha1.thy ===== *)
theory Sha1
  imports Bytes "HOL-Library.Monad_Syntax"
begin

text \<open>
  \<^verbatim>\<open>mysys/sha1.c\<close>: the incremental SHA-1 of the client. The first part translates the file; a store
  or a read outside the message block is \<^const>\<open>None\<close>. The second part states the function of
  FIPS 180-1 on a whole message, and the third shows that feeding a message in pieces of any size
  computes it.
\<close>

subsection \<open>The code\<close>

definition SHA1_HASH_SIZE :: nat where "SHA1_HASH_SIZE = 20"

record SHA1_CONTEXT =
  Length :: ulonglong
  Intermediate_Hash :: "uint32 list"
  Computed :: bool
  Corrupted :: int
  Message_Block_Index :: nat
  Message_Block :: bytes

definition SHA1CircularShift :: "nat \<Rightarrow> uint32 \<Rightarrow> uint32" where
  "SHA1CircularShift bits word = (push_bit bits word OR drop_bit (32 - bits) word)"

definition sha_const_key :: "uint32 list" where
  "sha_const_key = [0x67452301, 0xEFCDAB89, 0x98BADCFE, 0x10325476, 0xC3D2E1F0]"

definition mysql_sha1_reset :: "SHA1_CONTEXT \<Rightarrow> SHA1_CONTEXT" where
  "mysql_sha1_reset context = context\<lparr>Length := 0, Message_Block_Index := 0, Intermediate_Hash := sha_const_key,
     Computed := False, Corrupted := 0\<rparr>"

text \<open>The words of the block, and the 64 further words of the schedule.\<close>

definition block_word :: "bytes \<Rightarrow> nat \<Rightarrow> uint32" where
  "block_word block t =
     (let idx = t * 4 in
      push_bit 24 (ucast (block ! idx)) OR push_bit 16 (ucast (block ! (idx + 1))) OR
      push_bit 8 (ucast (block ! (idx + 2))) OR ucast (block ! (idx + 3)))"

fun schedule_loop :: "nat \<Rightarrow> uint32 list \<Rightarrow> uint32 list" where
  "schedule_loop 0 W = W"
| "schedule_loop (Suc n) W =
     (let t = length W in
      schedule_loop n (W @ [SHA1CircularShift 1 (W ! (t - 3) XOR W ! (t - 8) XOR W ! (t - 14) XOR W ! (t - 16))]))"

definition sha_K :: "uint32 list" where
  "sha_K = [0x5A827999, 0x6ED9EBA1, 0x8F1BBCDC, 0xCA62C1D6]"

type_synonym sha_vars = "uint32 \<times> uint32 \<times> uint32 \<times> uint32 \<times> uint32"

definition loop1 :: "uint32 list \<Rightarrow> sha_vars \<Rightarrow> sha_vars" where
  "loop1 W = fold (\<lambda>t (A, B, C, D, E).
     let temp = SHA1CircularShift 5 A + ((B AND C) OR ((NOT B) AND D)) + E + W ! t + sha_K ! 0
     in (temp, A, SHA1CircularShift 30 B, C, D)) [0..<20]"

definition loop2 :: "uint32 list \<Rightarrow> sha_vars \<Rightarrow> sha_vars" where
  "loop2 W = fold (\<lambda>t (A, B, C, D, E).
     let temp = SHA1CircularShift 5 A + (B XOR C XOR D) + E + W ! t + sha_K ! 1
     in (temp, A, SHA1CircularShift 30 B, C, D)) [20..<40]"

definition loop3 :: "uint32 list \<Rightarrow> sha_vars \<Rightarrow> sha_vars" where
  "loop3 W = fold (\<lambda>t (A, B, C, D, E).
     let temp = SHA1CircularShift 5 A + ((B AND C) OR (B AND D) OR (C AND D)) + E + W ! t + sha_K ! 2
     in (temp, A, SHA1CircularShift 30 B, C, D)) [40..<60]"

definition loop4 :: "uint32 list \<Rightarrow> sha_vars \<Rightarrow> sha_vars" where
  "loop4 W = fold (\<lambda>t (A, B, C, D, E).
     let temp = SHA1CircularShift 5 A + (B XOR C XOR D) + E + W ! t + sha_K ! 3
     in (temp, A, SHA1CircularShift 30 B, C, D)) [60..<80]"

definition SHA1ProcessMessageBlock :: "SHA1_CONTEXT \<Rightarrow> SHA1_CONTEXT option" where
  "SHA1ProcessMessageBlock context =
     (if length (Message_Block context) \<noteq> 64 then None else
      let W = schedule_loop 64 (map (block_word (Message_Block context)) [0..<16]) in
      case Intermediate_Hash context of
        [h0, h1, h2, h3, h4] \<Rightarrow>
          let (A, B, C, D, E) = loop4 W (loop3 W (loop2 W (loop1 W (h0, h1, h2, h3, h4))))
          in Some (context\<lparr>Intermediate_Hash := [h0 + A, h1 + B, h2 + C, h3 + D, h4 + E], Message_Block_Index := 0\<rparr>)
      | _ \<Rightarrow> None)"

definition store_block :: "SHA1_CONTEXT \<Rightarrow> nat \<Rightarrow> bytes \<Rightarrow> SHA1_CONTEXT option" where
  "store_block context i bs =
     (if i + length bs \<le> length (Message_Block context)
      then Some (context\<lparr>Message_Block := take i (Message_Block context) @ bs @ drop (i + length bs) (Message_Block context)\<rparr>)
      else None)"

fun mysql_sha1_input :: "SHA1_CONTEXT \<Rightarrow> bytes \<Rightarrow> SHA1_CONTEXT option" where
  "mysql_sha1_input context [] = Some context"
| "mysql_sha1_input context (b # message_array) = do {
     context \<leftarrow> store_block context (Message_Block_Index context) [b AND 0xFF];
     let context = context\<lparr>Message_Block_Index := Message_Block_Index context + 1, Length := Length context + 8\<rparr>;
     context \<leftarrow> (if Message_Block_Index context = 64 then SHA1ProcessMessageBlock context else Some context);
     mysql_sha1_input context message_array
   }"

definition SHA1PadMessage :: "SHA1_CONTEXT \<Rightarrow> SHA1_CONTEXT option" where
  "SHA1PadMessage context = do {
     let i = Message_Block_Index context;
     context \<leftarrow>
       (if i > 55 then do {
          context \<leftarrow> store_block context i (0x80 # replicate (64 - (i + 1)) 0);
          context \<leftarrow> SHA1ProcessMessageBlock (context\<lparr>Message_Block_Index := 64\<rparr>);
          context \<leftarrow> store_block context 0 (replicate 56 0);
          Some (context\<lparr>Message_Block_Index := 56\<rparr>)
        } else do {
          context \<leftarrow> store_block context i (0x80 # replicate (56 - (i + 1)) 0);
          Some (context\<lparr>Message_Block_Index := 56\<rparr>)
        });
     context \<leftarrow> store_block context 56
       [ucast (drop_bit 56 (Length context)), ucast (drop_bit 48 (Length context)), ucast (drop_bit 40 (Length context)),
        ucast (drop_bit 32 (Length context)), ucast (drop_bit 24 (Length context)), ucast (drop_bit 16 (Length context)),
        ucast (drop_bit 8 (Length context)), ucast (Length context)];
     SHA1ProcessMessageBlock context
   }"

definition mysql_sha1_result :: "SHA1_CONTEXT \<Rightarrow> (SHA1_CONTEXT \<times> bytes) option" where
  "mysql_sha1_result context = do {
     context \<leftarrow>
       (if \<not> Computed context then do {
          context \<leftarrow> SHA1PadMessage context;
          Some (context\<lparr>Message_Block := replicate 64 0, Length := 0, Computed := True\<rparr>)
        } else Some context);
     Some (context, map (\<lambda>i. ucast (drop_bit (8 * (3 - i mod 4)) (Intermediate_Hash context ! (i div 4)))) [0..<SHA1_HASH_SIZE])
   }"

subsection \<open>FIPS 180-1\<close>

fun sha_W :: "bytes \<Rightarrow> nat \<Rightarrow> uint32" where
  "sha_W block t =
     (if t < 16 then of_nat (le_nat (rev (take 4 (drop (4 * t) block))))
      else word_rotl 1 (sha_W block (t - 3) XOR sha_W block (t - 8) XOR sha_W block (t - 14) XOR sha_W block (t - 16)))"

declare sha_W.simps [simp del]

definition sha_f :: "nat \<Rightarrow> uint32 \<Rightarrow> uint32 \<Rightarrow> uint32 \<Rightarrow> uint32" where
  "sha_f t b c d =
     (if t < 20 then (b AND c) OR (NOT b AND d)
      else if t < 40 then b XOR c XOR d
      else if t < 60 then (b AND c) OR (b AND d) OR (c AND d)
      else b XOR c XOR d)"

definition sha_k :: "nat \<Rightarrow> uint32" where
  "sha_k t = (if t < 20 then 0x5A827999 else if t < 40 then 0x6ED9EBA1 else if t < 60 then 0x8F1BBCDC else 0xCA62C1D6)"

definition sha_round :: "bytes \<Rightarrow> nat \<Rightarrow> sha_vars \<Rightarrow> sha_vars" where
  "sha_round block t = (\<lambda>(a, b, c, d, e).
     (word_rotl 5 a + sha_f t b c d + e + sha_W block t + sha_k t, a, word_rotl 30 b, c, d))"

definition sha_block :: "bytes \<Rightarrow> sha_vars \<Rightarrow> sha_vars" where
  "sha_block block = (\<lambda>(h0, h1, h2, h3, h4).
     case fold (sha_round block) [0..<80] (h0, h1, h2, h3, h4) of
       (a, b, c, d, e) \<Rightarrow> (h0 + a, h1 + b, h2 + c, h3 + d, h4 + e))"

function sha_blocks :: "bytes \<Rightarrow> sha_vars \<Rightarrow> sha_vars" where
  "sha_blocks m h = (if length m < 64 then h else sha_blocks (drop 64 m) (sha_block (take 64 m) h))"
  by auto
termination
  by (relation "measure (\<lambda>(m, h). length m)") auto

declare sha_blocks.simps [simp del]

definition sha_pad :: "bytes \<Rightarrow> bytes" where
  "sha_pad m = m @ 0x80 # replicate ((119 - length m mod 64) mod 64) 0 @ rev (le_bytes 8 (8 * length m))"

definition sha_digest :: "sha_vars \<Rightarrow> bytes" where
  "sha_digest = (\<lambda>(h0, h1, h2, h3, h4). concat (map (\<lambda>h. rev (le_bytes 4 (unat h))) [h0, h1, h2, h3, h4]))"

definition sha1 :: "bytes \<Rightarrow> bytes" where
  "sha1 m = sha_digest (sha_blocks (sha_pad m) (0x67452301, 0xEFCDAB89, 0x98BADCFE, 0x10325476, 0xC3D2E1F0))"

subsection \<open>The compression function\<close>

lemma SHA1CircularShift_rotl: "bits < 32 \<Longrightarrow> SHA1CircularShift bits w = word_rotl bits w"
proof (rule bit_word_eqI)
  fix n assume n: "bits < 32" "n < LENGTH(32)"
  show "bit (SHA1CircularShift bits w) n = bit (word_rotl bits w) n"
  proof (cases "n < bits")
    case True
    then have "(n + (32 - bits)) mod 32 = 32 - bits + n" using n by simp
    with True n show ?thesis by (simp add: SHA1CircularShift_def bit_simps bit_word_rotl_iff)
  next
    case False
    then have "n + (32 - bits) = 32 + (n - bits)" using n by simp
    then have "(n + (32 - bits)) mod 32 = n - bits" using n by (simp only: mod_add_self1) simp
    moreover have "\<not> bit w (32 - bits + n)" using False bit_imp_le_length [of w "32 - bits + n"] n by auto
    ultimately show ?thesis using False n by (simp add: SHA1CircularShift_def bit_simps bit_word_rotl_iff)
  qed
qed

lemma or_byte: "(push_bit k (ucast (a :: uchar)) OR b :: uint32) = push_bit k (ucast a) + b"
  if "unat b < 2 ^ k"
proof -
  have "\<not> bit b n" if "k \<le> n" for n
  proof -
    have "unat b < 2 ^ n"
      using \<open>unat b < 2 ^ k\<close> power_increasing [OF \<open>k \<le> n\<close>, of "2::nat"] by linarith
    then have "unat (drop_bit n b) = 0" by (simp add: unat_drop_bit_div)
    then have "drop_bit n b = 0" by (metis unsigned_0 word_unat_eq_iff)
    then show ?thesis by (simp add: bit_iff_odd_drop_bit)
  qed
  then have "\<not> bit (push_bit k (ucast a) :: uint32) n \<or> \<not> bit b n" for n
    by (cases "k \<le> n") (auto simp: bit_simps)
  then show ?thesis by (simp add: disjunctive_add)
qed

lemma four_bytes_or:
  "(push_bit 24 (ucast (a :: uchar)) OR push_bit 16 (ucast (b :: uchar)) OR push_bit 8 (ucast (c :: uchar)) OR ucast (d :: uchar)) =
   (of_nat (le_nat [d, c, b, a]) :: uint32)"
proof -
  have v: "unat (of_nat n :: uint32) = n" if "n < 2 ^ 32" for n by (rule unat_of_nat_small) (use that in simp)
  have 1: "push_bit 8 (ucast c) OR ucast d = (of_nat (le_nat [d, c]) :: uint32)"
    using le_less_trans [OF mod_less_eq_dividend unat_uchar_less]
    by (subst or_byte) (simp_all add: unat_ucast_mod push_bit_eq_mult)
  have 2: "push_bit 16 (ucast b) OR of_nat (le_nat [d, c]) = (of_nat (le_nat [d, c, b]) :: uint32)"
    using le_nat_bound [of "[d, c]"] v [of "le_nat [d, c]"]
    by (subst or_byte) (simp_all add: push_bit_eq_mult algebra_simps)
  have 3: "push_bit 24 (ucast a) OR of_nat (le_nat [d, c, b]) = (of_nat (le_nat [d, c, b, a]) :: uint32)"
    using le_nat_bound [of "[d, c, b]"] v [of "le_nat [d, c, b]"]
    by (subst or_byte) (simp_all add: push_bit_eq_mult algebra_simps)
  show ?thesis unfolding 1 2 3 ..
qed

lemma take_4_nth: "i + 4 \<le> length xs \<Longrightarrow> take 4 (drop i xs) = [xs ! i, xs ! (i + 1), xs ! (i + 2), xs ! (i + 3)]"
  by (rule nth_equalityI) (auto simp: less_Suc_eq numeral_eq_Suc)

lemma block_word_sha_W: "length block = 64 \<Longrightarrow> t < 16 \<Longrightarrow> block_word block t = sha_W block t"
  by (subst sha_W.simps) (simp add: block_word_def Let_def four_bytes_or take_4_nth mult.commute del: le_nat.simps)

lemma schedule_loop_sha_W:
  assumes "length block = 64"
  shows "16 \<le> k \<Longrightarrow> schedule_loop n (map (sha_W block) [0..<k]) = map (sha_W block) [0..<k + n]"
proof (induction n arbitrary: k)
  case (Suc n)
  have "sha_W block k = SHA1CircularShift 1
      (sha_W block (k - 3) XOR sha_W block (k - 8) XOR sha_W block (k - 14) XOR sha_W block (k - 16))"
    using Suc.prems by (subst sha_W.simps) (simp add: SHA1CircularShift_rotl)
  with Suc.IH [of "k + 1"] Suc.prems show ?case by (simp add: Let_def)
qed simp

lemma schedule_sha_W:
  assumes "length block = 64"
  shows "schedule_loop 64 (map (block_word block) [0..<16]) = map (sha_W block) [0..<80]"
proof -
  have "map (block_word block) [0..<16] = map (sha_W block) [0..<16]" using assms by (simp add: block_word_sha_W)
  then show ?thesis using schedule_loop_sha_W [OF assms, of 16 64] by (simp del: map_eq_conv)
qed

lemma fold_eq: "(\<And>x. x \<in> set xs \<Longrightarrow> f x = g x) \<Longrightarrow> fold f xs = fold g xs"
  by (induction xs) auto

lemma loops_sha_round:
  assumes "W = map (sha_W block) [0..<80]"
  shows "loop1 W = fold (sha_round block) [0..<20]" "loop2 W = fold (sha_round block) [20..<40]"
    "loop3 W = fold (sha_round block) [40..<60]" "loop4 W = fold (sha_round block) [60..<80]"
  unfolding loop1_def loop2_def loop3_def loop4_def assms
  by (rule fold_eq, auto simp: fun_eq_iff sha_round_def sha_f_def sha_k_def sha_K_def SHA1CircularShift_rotl Let_def)+

lemma loops_fold:
  assumes "W = map (sha_W block) [0..<80]"
  shows "loop4 W (loop3 W (loop2 W (loop1 W s))) = fold (sha_round block) [0..<80] s"
proof -
  have "[0..<80] = [0..<20] @ [20..<40] @ [40..<60] @ [60..<80::nat]"
    using upt_add_eq_append [of 0 20 60] upt_add_eq_append [of 20 40 40] upt_add_eq_append [of 40 60 20] by simp
  then show ?thesis by (simp add: loops_sha_round [OF assms])
qed

fun sha_list :: "sha_vars \<Rightarrow> uint32 list" where
  "sha_list (h0, h1, h2, h3, h4) = [h0, h1, h2, h3, h4]"

lemma SHA1ProcessMessageBlock_eq:
  assumes "length (Message_Block context) = 64" "Intermediate_Hash context = sha_list h"
  shows "SHA1ProcessMessageBlock context =
     Some (context\<lparr>Intermediate_Hash := sha_list (sha_block (Message_Block context) h), Message_Block_Index := 0\<rparr>)"
proof -
  obtain h0 h1 h2 h3 h4 where h: "h = (h0, h1, h2, h3, h4)" by (metis prod.exhaust)
  let ?b = "Message_Block context"
  obtain a b c d e where f: "fold (sha_round ?b) [0..<80] h = (a, b, c, d, e)" by (metis prod.exhaust)
  have s: "sha_block ?b h = (h0 + a, h1 + b, h2 + c, h3 + d, h4 + e)" unfolding sha_block_def h using f h by simp
  show ?thesis
    unfolding SHA1ProcessMessageBlock_def schedule_sha_W [OF assms(1)] Let_def s
    using assms f h by (simp add: loops_fold [OF refl] del: upt.simps)
qed

subsection \<open>Streaming\<close>

lemma sha_blocks_append: "64 dvd length a \<Longrightarrow> sha_blocks (a @ b) h = sha_blocks b (sha_blocks a h)"
proof (induction "length a" arbitrary: a h rule: less_induct)
  case less
  show ?case
  proof (cases "a = []")
    case True
    then show ?thesis by (subst (3) sha_blocks.simps) simp
  next
    case False
    with less.prems have "64 \<le> length a" by (simp add: dvd_imp_le)
    moreover have "64 dvd length (drop 64 a)" using less.prems by simp
    ultimately show ?thesis
      using less.hyps [of "drop 64 a" "sha_block (take 64 a) h"] False
      by (subst sha_blocks.simps, subst (3) sha_blocks.simps) simp
  qed
qed

lemma sha_blocks_one: "length b = 64 \<Longrightarrow> sha_blocks b h = sha_block b h"
  by (subst sha_blocks.simps, subst sha_blocks.simps) simp

abbreviation sha_init :: sha_vars where
  "sha_init \<equiv> (0x67452301, 0xEFCDAB89, 0x98BADCFE, 0x10325476, 0xC3D2E1F0)"

text \<open>The context has taken in the message \<open>m\<close>: whole blocks are hashed, the rest is in the block buffer.\<close>

definition absorbed :: "SHA1_CONTEXT \<Rightarrow> bytes \<Rightarrow> bool" where
  "absorbed context m \<longleftrightarrow> (\<exists>a r. m = a @ r \<and> 64 dvd length a \<and> length r < 64 \<and>
     Message_Block_Index context = length r \<and> length (Message_Block context) = 64 \<and>
     take (length r) (Message_Block context) = r \<and> Intermediate_Hash context = sha_list (sha_blocks a sha_init) \<and>
     Length context = of_nat (8 * length m) \<and> \<not> Computed context)"

lemma store_block_Some:
  "i + length bs \<le> length (Message_Block context) \<Longrightarrow>
   store_block context i bs =
     Some (context\<lparr>Message_Block := take i (Message_Block context) @ bs @ drop (i + length bs) (Message_Block context)\<rparr>)"
  by (simp add: store_block_def)

lemma absorbed_reset: "length (Message_Block context) = 64 \<Longrightarrow> absorbed (mysql_sha1_reset context) []"
  by (simp add: absorbed_def mysql_sha1_reset_def sha_const_key_def) (subst sha_blocks.simps, simp)

lemma and_255 [simp]: "(b :: uchar) AND 255 = b"
proof -
  have "(255 :: uchar) = - 1" by simp
  then show ?thesis by (metis and.right_neutral)
qed

lemma absorbed_byte:
  assumes "absorbed context m"
  obtains context' where "absorbed context' (m @ [b])"
    "\<And>bs. mysql_sha1_input context (b # bs) = mysql_sha1_input context' bs"
proof -
  obtain a r where m: "m = a @ r" "64 dvd length a" "length r < 64" "Message_Block_Index context = length r"
    "length (Message_Block context) = 64" "take (length r) (Message_Block context) = r"
    "Intermediate_Hash context = sha_list (sha_blocks a sha_init)" "Length context = of_nat (8 * length m)"
    "\<not> Computed context"
    using assms by (auto simp: absorbed_def)
  define blk where "blk = r @ [b] @ drop (length r + 1) (Message_Block context)"
  have blk: "length blk = 64" "take (length r + 1) blk = r @ [b]" using m by (simp_all add: blk_def)
  define c where "c = context\<lparr>Message_Block := blk, Message_Block_Index := length r + 1, Length := Length context + 8\<rparr>"
  have st: "store_block context (Message_Block_Index context) [b AND 0xFF] = Some (context\<lparr>Message_Block := blk\<rparr>)"
    using m by (simp add: store_block_def blk_def)
  show thesis
  proof (cases "length r + 1 = 64")
    case False
    have "absorbed c (m @ [b])"
      unfolding absorbed_def using m blk False by (intro exI [of _ a] exI [of _ "r @ [b]"]) (simp add: c_def algebra_simps)
    moreover have "mysql_sha1_input context (b # bs) = mysql_sha1_input c bs" for bs
      using st m False by (simp add: c_def)
    ultimately show thesis by (rule that)
  next
    case True
    then have full: "blk = r @ [b]" using blk by simp
    let ?c = "c\<lparr>Intermediate_Hash := sha_list (sha_block blk (sha_blocks a sha_init)), Message_Block_Index := 0\<rparr>"
    have p: "SHA1ProcessMessageBlock c = Some ?c"
      using SHA1ProcessMessageBlock_eq [of c "sha_blocks a sha_init"] blk m by (simp add: c_def)
    have "sha_blocks (a @ blk) sha_init = sha_block blk (sha_blocks a sha_init)"
      using sha_blocks_append [OF m(2), of blk] sha_blocks_one [OF blk(1)] by simp
    moreover have "64 dvd length (a @ blk)" using m(2) blk(1) by simp
    ultimately have "absorbed ?c (m @ [b])"
      unfolding absorbed_def using m blk full by (intro exI [of _ "a @ blk"] exI [of _ "[]"]) (simp add: c_def algebra_simps)
    moreover have "mysql_sha1_input context (b # bs) = mysql_sha1_input ?c bs" for bs
      using st m True p by (simp add: c_def)
    ultimately show thesis by (rule that)
  qed
qed

lemma mysql_sha1_input_absorbed:
  "absorbed c m \<Longrightarrow> \<exists>c'. mysql_sha1_input c bs = Some c' \<and> absorbed c' (m @ bs)"
proof (induction bs arbitrary: c m)
  case (Cons b bs)
  obtain c1 where "absorbed c1 (m @ [b])" "mysql_sha1_input c (b # bs) = mysql_sha1_input c1 bs"
    using absorbed_byte [OF Cons.prems] by metis
  with Cons.IH [of c1 "m @ [b]"] show ?case by simp
qed simp

lemma length_field:
  fixes L :: ulonglong
  assumes "L = of_nat n"
  shows "[ucast (drop_bit 56 L), ucast (drop_bit 48 L), ucast (drop_bit 40 L), ucast (drop_bit 32 L),
      ucast (drop_bit 24 L), ucast (drop_bit 16 L), ucast (drop_bit 8 L), ucast L] = rev (le_bytes 8 n)"
proof -
  have "unat L = n mod 256 ^ 8" by (simp add: assms unat_of_nat)
  then have "rev (le_bytes 8 n) = rev (le_bytes 8 (unat L))" by (simp only: le_bytes_mod [OF order_refl])
  also have "\<dots> = [ucast (drop_bit 56 L), ucast (drop_bit 48 L), ucast (drop_bit 40 L), ucast (drop_bit 32 L),
      ucast (drop_bit 24 L), ucast (drop_bit 16 L), ucast (drop_bit 8 L), ucast L]"
    by (simp add: le_bytes_unfold)
  finally show ?thesis ..
qed

lemma process_stored:
  assumes "length (Message_Block c) = 64" "i + length bs = 64" "take i (Message_Block c) = x"
    "Intermediate_Hash c = sha_list (sha_blocks a sha_init)" "64 dvd length a"
  shows "store_block c i bs = Some (c\<lparr>Message_Block := x @ bs\<rparr>)"
    and "SHA1ProcessMessageBlock (c\<lparr>Message_Block := x @ bs\<rparr>) =
      Some (c\<lparr>Message_Block := x @ bs, Message_Block_Index := 0, Intermediate_Hash := sha_list (sha_blocks (a @ x @ bs) sha_init)\<rparr>)"
    and "64 dvd length (a @ x @ bs)"
proof -
  have x: "length (x @ bs) = 64" using assms(1,2) unfolding assms(3) [symmetric] by simp
  show "store_block c i bs = Some (c\<lparr>Message_Block := x @ bs\<rparr>)" using assms(1-3) by (simp add: store_block_def)
  have "sha_blocks (a @ x @ bs) sha_init = sha_block (x @ bs) (sha_blocks a sha_init)"
    using sha_blocks_append [OF assms(5)] sha_blocks_one [OF x] by simp
  then show "SHA1ProcessMessageBlock (c\<lparr>Message_Block := x @ bs\<rparr>) =
      Some (c\<lparr>Message_Block := x @ bs, Message_Block_Index := 0, Intermediate_Hash := sha_list (sha_blocks (a @ x @ bs) sha_init)\<rparr>)"
    using SHA1ProcessMessageBlock_eq [of "c\<lparr>Message_Block := x @ bs\<rparr>"] x assms(4) by simp
  show "64 dvd length (a @ x @ bs)" using x assms(5) by simp
qed

lemma SHA1PadMessage_absorbed:
  assumes "absorbed c m"
  shows "\<exists>c'. SHA1PadMessage c = Some c' \<and> Intermediate_Hash c' = sha_list (sha_blocks (sha_pad m) sha_init)"
proof -
  obtain a r where m: "m = a @ r" "64 dvd length a" "length r < 64" "Message_Block_Index c = length r"
    "length (Message_Block c) = 64" "take (length r) (Message_Block c) = r"
    "Intermediate_Hash c = sha_list (sha_blocks a sha_init)" "Length c = of_nat (8 * length m)"
    using assms by (auto simp: absorbed_def)
  define len where "len = rev (le_bytes 8 (8 * length m))"
  have len: "length len = 8" by (simp add: len_def)
  note fld = length_field [OF m(8), folded len_def]
  have mm: "length m mod 64 = length r" using m(1-3) by (auto simp: mod_add_eq [symmetric] elim!: dvdE)
  show ?thesis
  proof (cases "length r > 55")
    case True
    define z where "z = 0x80 # replicate (63 - length r) (0 :: uchar)"
    have z: "length r + length z = 64" using m(3) by (simp add: z_def)
    note s1 = process_stored [OF m(5) z m(6,7,2)]
    define c1 where "c1 = c\<lparr>Intermediate_Hash := sha_list (sha_blocks (a @ r @ z) sha_init),
      Message_Block := replicate 56 0 @ drop 56 (r @ z), Message_Block_Index := 56\<rparr>"
    have c1: "length (Message_Block c1) = 64" "take 56 (Message_Block c1) = replicate 56 0"
      "Intermediate_Hash c1 = sha_list (sha_blocks (a @ r @ z) sha_init)" "Length c1 = Length c"
      using z by (simp_all add: c1_def)
    have l56: "56 + length len = 64" using len by simp
    note s2 = process_stored [OF c1(1) l56 c1(2,3) s1(3)]
    have "k = 119 - length r" if "k = (119 - length r) mod 64" for k using that True m(3) by (simp add: mod_if)
    then have pad: "sha_pad m = (a @ r @ z) @ replicate 56 0 @ len"
      using mm m(1,3) True by (simp add: sha_pad_def z_def len_def replicate_add [symmetric])
    have "SHA1ProcessMessageBlock (c\<lparr>Message_Block := r @ z, Message_Block_Index := 64\<rparr>) =
        Some (c\<lparr>Message_Block := r @ z, Message_Block_Index := 0, Intermediate_Hash := sha_list (sha_blocks (a @ r @ z) sha_init)\<rparr>)"
      using SHA1ProcessMessageBlock_eq [of "c\<lparr>Message_Block := r @ z, Message_Block_Index := 64\<rparr>"] z m
        sha_blocks_append [OF m(2)] sha_blocks_one [of "r @ z"] by simp
    then have "SHA1PadMessage c = (do { c \<leftarrow> store_block c1 56 len; SHA1ProcessMessageBlock c })"
      using True s1(1) z m(4) fld by (simp add: SHA1PadMessage_def store_block_Some c1_def z_def [symmetric] Let_def)
    then show ?thesis unfolding pad using s2(1,2) by simp
  next
    case False
    define z where "z = 0x80 # replicate (55 - length r) (0 :: uchar)"
    have z: "length r + length z = 56" using False by (simp add: z_def)
    define c1 where "c1 = c\<lparr>Message_Block := r @ z @ drop 56 (Message_Block c), Message_Block_Index := 56\<rparr>"
    have st: "store_block c (length r) z = Some (c\<lparr>Message_Block := r @ z @ drop 56 (Message_Block c)\<rparr>)"
      using m z by (simp add: store_block_def)
    have c1: "length (Message_Block c1) = 64" "take 56 (Message_Block c1) = r @ z"
      "Intermediate_Hash c1 = sha_list (sha_blocks a sha_init)" "Length c1 = Length c"
      using z m by (simp_all add: c1_def)
    have l56: "56 + length len = 64" using len by simp
    note s2 = process_stored [OF c1(1) l56 c1(2,3) m(2)]
    have "(119 - length r) mod 64 = 55 - length r" using False by (simp add: mod_if)
    then have pad: "sha_pad m = a @ (r @ z) @ len"
      using mm m(1) False by (simp add: sha_pad_def z_def len_def)
    have "SHA1PadMessage c = (do { c \<leftarrow> store_block c1 56 len; SHA1ProcessMessageBlock c })"
      using False st m(4) fld by (simp add: SHA1PadMessage_def c1_def z_def [symmetric] Let_def)
    then show ?thesis unfolding pad using s2(1,2) by simp
  qed
qed

lemma digest_bytes:
  "map (\<lambda>i. ucast (drop_bit (8 * (3 - i mod 4)) (sha_list h ! (i div 4)))) [0..<SHA1_HASH_SIZE] = sha_digest h"
proof -
  obtain h0 h1 h2 h3 h4 where h: "h = (h0, h1, h2, h3, h4)" by (metis prod.exhaust)
  have "[0..<SHA1_HASH_SIZE] = [0, 1, 2, 3, 4, 5, 6, 7, 8, 9, 10, 11, 12, 13, 14, 15, 16, 17, 18, 19]"
    by (simp add: SHA1_HASH_SIZE_def upt_rec)
  then show ?thesis by (simp add: h sha_digest_def le_bytes_unfold)
qed

lemma mysql_sha1_result_absorbed:
  assumes "absorbed c m"
  shows "\<exists>c'. mysql_sha1_result c = Some (c', sha1 m) \<and> mysql_sha1_result c' = Some (c', sha1 m) \<and>
     Message_Block c' = replicate 64 0 \<and> Length c' = 0"
proof -
  obtain c1 where p: "SHA1PadMessage c = Some c1" "Intermediate_Hash c1 = sha_list (sha_blocks (sha_pad m) sha_init)"
    using SHA1PadMessage_absorbed [OF assms] by blast
  let ?c = "c1\<lparr>Message_Block := replicate 64 0, Length := 0, Computed := True\<rparr>"
  have "\<not> Computed c" using assms by (auto simp: absorbed_def)
  with p show ?thesis
    by (intro exI [of _ ?c]) (simp add: mysql_sha1_result_def digest_bytes sha1_def)
qed

fun sha1_inputs :: "SHA1_CONTEXT \<Rightarrow> bytes list \<Rightarrow> SHA1_CONTEXT option" where
  "sha1_inputs c [] = Some c"
| "sha1_inputs c (p # ps) = do { c \<leftarrow> mysql_sha1_input c p; sha1_inputs c ps }"

lemma sha1_inputs_absorbed: "absorbed c m \<Longrightarrow> \<exists>c'. sha1_inputs c ps = Some c' \<and> absorbed c' (m @ concat ps)"
proof (induction ps arbitrary: c m)
  case (Cons p ps)
  obtain c1 where c1: "mysql_sha1_input c p = Some c1" "absorbed c1 (m @ p)"
    using mysql_sha1_input_absorbed [OF Cons.prems] by blast
  from Cons.IH [OF c1(2)] c1(1) show ?case by simp
qed simp

text \<open>
  C9: Resetting a context, feeding it a message in any number of pieces of any sizes and asking for the
  digest stores nothing outside the block buffer and gives the SHA-1 of FIPS 180-1 of the whole message;
  the message block and the length are wiped, and asking again gives the same digest.
\<close>

theorem mysql_sha1_correct:
  assumes "length (Message_Block c) = 64"
  shows "\<exists>c1 c2. sha1_inputs (mysql_sha1_reset c) ps = Some c1 \<and> mysql_sha1_result c1 = Some (c2, sha1 (concat ps)) \<and>
     mysql_sha1_result c2 = Some (c2, sha1 (concat ps)) \<and> Message_Block c2 = replicate 64 0 \<and> Length c2 = 0"
proof -
  obtain c1 where c1: "sha1_inputs (mysql_sha1_reset c) ps = Some c1" "absorbed c1 (concat ps)"
    using sha1_inputs_absorbed [OF absorbed_reset [OF assms], of ps] by auto
  with mysql_sha1_result_absorbed [OF c1(2)] show ?thesis by blast
qed

definition sha1_blank :: SHA1_CONTEXT where
  "sha1_blank = \<lparr>Length = 7, Intermediate_Hash = [], Computed = True, Corrupted = 3, Message_Block_Index = 70,
     Message_Block = replicate 64 9\<rparr>"

theorem mysql_sha1_correct_witness:
  "\<exists>c1 c2. sha1_inputs (mysql_sha1_reset sha1_blank) [[97], [], [98, 99]] = Some c1 \<and>
     mysql_sha1_result c1 = Some (c2, sha1 [97, 98, 99])"
  using mysql_sha1_correct [of sha1_blank "[[97], [], [98, 99]]"] by (auto simp: sha1_blank_def)

end
