(* ===== verification/Password.thy ===== *)
theory Password
  imports Sha1 Ctype Complex_Main
begin

text \<open>
  Authentication: \<^verbatim>\<open>libmysql/password.c\<close> with the generator of \<^verbatim>\<open>mysys/my_rnd.c\<close>, for the protocol
  before 4.1 (hash and pseudo-random mask) and the one after it (SHA-1 challenge and response).
  A C string is the list of its bytes before the terminating zero; reading past it is \<^const>\<open>None\<close>.
  The quotient \<open>my_rnd\<close> returns is the exact one: for every state of the generator its product with
  31 or 94 has the same integer part when both operations round to double precision.
\<close>

definition SCRAMBLE_LENGTH :: nat where "SCRAMBLE_LENGTH = 20"
definition SCRAMBLE_LENGTH_323 :: nat where "SCRAMBLE_LENGTH_323 = 8"
definition PVERSION41_CHAR :: uchar where "PVERSION41_CHAR = 42"

subsection \<open>The generator\<close>

record my_rnd_struct =
  seed1 :: ulong
  seed2 :: ulong
  max_value :: ulong
  max_value_dbl :: rat

definition my_rnd_init :: "ulong \<Rightarrow> ulong \<Rightarrow> my_rnd_struct" where
  "my_rnd_init s1 s2 =
     (let m = 0x3FFFFFFF in \<lparr>seed1 = s1 mod m, seed2 = s2 mod m, max_value = m, max_value_dbl = of_nat (unat m)\<rparr>)"

definition my_rnd :: "my_rnd_struct \<Rightarrow> rat \<times> my_rnd_struct" where
  "my_rnd st =
     (let s1 = (seed1 st * 3 + seed2 st) mod max_value st;
          s2 = (s1 + seed2 st + 33) mod max_value st
      in (of_nat (unat s1) / max_value_dbl st, st\<lparr>seed1 := s1, seed2 := s2\<rparr>))"

subsection \<open>Before 4.1\<close>

fun hash_password_loop :: "ulong \<Rightarrow> ulong \<Rightarrow> ulong \<Rightarrow> bytes \<Rightarrow> ulong \<times> ulong" where
  "hash_password_loop nr add nr2 [] = (nr AND (push_bit 31 1 - 1), nr2 AND (push_bit 31 1 - 1))"
| "hash_password_loop nr add nr2 (c # password) =
     (if c = 32 \<or> c = 9 then hash_password_loop nr add nr2 password else
      let tmp = ucast c;
          nr = nr XOR (((nr AND 63) + add) * tmp + push_bit 8 nr);
          nr2 = nr2 + (push_bit 8 nr2 XOR nr);
          add = add + tmp
      in hash_password_loop nr add nr2 password)"

definition hash_password :: "bytes \<Rightarrow> ulong \<times> ulong" where
  "hash_password password = hash_password_loop 1345345333 7 0x12345671 password"

definition hex_digit :: "nat \<Rightarrow> uchar" where
  "hex_digit d = of_nat (if d < 10 then 48 + d else 87 + d)"

text \<open>\<open>sprintf\<close> with \<open>"%08lx"\<close>.\<close>

definition sprintf_08lx :: "ulong \<Rightarrow> bytes" where
  "sprintf_08lx n = map (\<lambda>i. hex_digit (unat (drop_bit (28 - 4 * i) n) mod 16)) [0..<8]"

definition make_password_from_salt_323 :: "ulong \<times> ulong \<Rightarrow> bytes" where
  "make_password_from_salt_323 salt = sprintf_08lx (fst salt) @ sprintf_08lx (snd salt)"

definition make_scrambled_password_323 :: "bytes \<Rightarrow> bytes" where
  "make_scrambled_password_323 password =
     (let hash_res = hash_password password in sprintf_08lx (fst hash_res) @ sprintf_08lx (snd hash_res))"

fun rnd_chars :: "nat \<Rightarrow> my_rnd_struct \<Rightarrow> bytes \<times> my_rnd_struct" where
  "rnd_chars 0 st = ([], st)"
| "rnd_chars (Suc n) st =
     (let (r, st) = my_rnd st;
          (to, st) = rnd_chars n st
      in (of_int (floor (r * 31) + 64) # to, st))"

definition scramble_323 :: "bytes \<Rightarrow> bytes option \<Rightarrow> bytes option" where
  "scramble_323 message password =
     (case password of
        Some (p # ps) \<Rightarrow>
          if length message < SCRAMBLE_LENGTH_323 then None else
          let hash_pass = hash_password (p # ps);
              hash_message = hash_password (take SCRAMBLE_LENGTH_323 message);
              st = my_rnd_init (fst hash_pass XOR fst hash_message) (snd hash_pass XOR snd hash_message);
              (to, st) = rnd_chars SCRAMBLE_LENGTH_323 st;
              (r, st) = my_rnd st;
              extra = of_int (floor (r * 31))
          in Some (map (\<lambda>c. c XOR extra) to)
      | _ \<Rightarrow> Some [])"

text \<open>The result is \<^const>\<open>False\<close> for a correct password, as the 0 of the code.\<close>

definition check_scramble_323 :: "bytes \<Rightarrow> bytes \<Rightarrow> ulong \<times> ulong \<Rightarrow> bool option" where
  "check_scramble_323 scrambled message hash_pass =
     (if length message < SCRAMBLE_LENGTH_323 then None else
      let hash_message = hash_password (take SCRAMBLE_LENGTH_323 message);
          st = my_rnd_init (fst hash_pass XOR fst hash_message) (snd hash_pass XOR snd hash_message);
          (buff, st) = rnd_chars (min (length scrambled) 16) st
      in if min (length scrambled) 16 \<noteq> SCRAMBLE_LENGTH_323 then Some True else
      let (r, st) = my_rnd st;
          extra = of_int (floor (r * 31))
      in Some (\<not> list_all2 (\<lambda>s t. s = t XOR extra) scrambled buff))"

definition char_val :: "uchar \<Rightarrow> uchar" where
  "char_val X = (if 48 \<le> X \<and> X \<le> 57 then X - 48 else if 65 \<le> X \<and> X \<le> 90 then X - 65 + 10 else X - 97 + 10)"

fun salt_words :: "bytes \<Rightarrow> ulong list option" where
  "salt_words (a # b # c # d # e # f # g # h # password) = do {
     let val = fold (\<lambda>x val. push_bit 4 val + ucast (char_val x)) [a, b, c, d, e, f, g, h] 0;
     res \<leftarrow> salt_words password;
     Some (val # res)
   }"
| "salt_words [] = Some []"
| "salt_words _ = None"

definition get_salt_from_password_323 :: "bytes option \<Rightarrow> (ulong \<times> ulong) option" where
  "get_salt_from_password_323 password =
     (case password of
        None \<Rightarrow> Some (0, 0)
      | Some password \<Rightarrow> do {
          vs \<leftarrow> salt_words password;
          (case vs of [] \<Rightarrow> Some (0, 0) | [v] \<Rightarrow> Some (v, 0) | [v, w] \<Rightarrow> Some (v, w) | _ \<Rightarrow> None)
        })"

subsection \<open>Since 4.1\<close>

fun create_random_string :: "nat \<Rightarrow> my_rnd_struct \<Rightarrow> bytes \<times> my_rnd_struct" where
  "create_random_string 0 st = ([], st)"
| "create_random_string (Suc n) st =
     (let (r, st) = my_rnd st;
          (to, st) = create_random_string n st
      in (of_int (floor (r * 94 + 33)) # to, st))"

definition octet2hex :: "bytes \<Rightarrow> bytes" where
  "octet2hex str = concat (map (\<lambda>c. [dig_vec_upper ! unat (drop_bit 4 c), dig_vec_upper ! unat (c AND 0x0F)]) str)"

fun hex2octet :: "bytes \<Rightarrow> bytes option" where
  "hex2octet [] = Some []"
| "hex2octet (a # b # str) = do {
     to \<leftarrow> hex2octet str;
     Some ((push_bit 4 (char_val a) OR char_val b) # to)
   }"
| "hex2octet [a] = None"

definition my_crypt :: "bytes \<Rightarrow> bytes \<Rightarrow> nat \<Rightarrow> bytes option" where
  "my_crypt s1 s2 len =
     (if len \<le> length s1 \<and> len \<le> length s2 then Some (map (\<lambda>i. s1 ! i XOR s2 ! i) [0..<len]) else None)"

text \<open>The local \<open>SHA1_CONTEXT\<close> enters with unknown contents.\<close>

definition make_scrambled_password :: "SHA1_CONTEXT \<Rightarrow> bytes \<Rightarrow> bytes option" where
  "make_scrambled_password sha1_context password = do {
     c \<leftarrow> mysql_sha1_input (mysql_sha1_reset sha1_context) password;
     (c, to) \<leftarrow> mysql_sha1_result c;
     c \<leftarrow> mysql_sha1_input (mysql_sha1_reset c) (take SHA1_HASH_SIZE to);
     (c, hash_stage2) \<leftarrow> mysql_sha1_result c;
     Some (PVERSION41_CHAR # octet2hex (take SHA1_HASH_SIZE hash_stage2))
   }"

definition scramble :: "SHA1_CONTEXT \<Rightarrow> bytes \<Rightarrow> bytes \<Rightarrow> bytes option" where
  "scramble sha1_context message password = do {
     c \<leftarrow> mysql_sha1_input (mysql_sha1_reset sha1_context) password;
     (c, hash_stage1) \<leftarrow> mysql_sha1_result c;
     c \<leftarrow> mysql_sha1_input (mysql_sha1_reset c) (take SHA1_HASH_SIZE hash_stage1);
     (c, hash_stage2) \<leftarrow> mysql_sha1_result c;
     if length message < SCRAMBLE_LENGTH then None else do {
       c \<leftarrow> mysql_sha1_input (mysql_sha1_reset c) (take SCRAMBLE_LENGTH message);
       c \<leftarrow> mysql_sha1_input c (take SHA1_HASH_SIZE hash_stage2);
       (c, to) \<leftarrow> mysql_sha1_result c;
       my_crypt to hash_stage1 SCRAMBLE_LENGTH
     }
   }"

text \<open>
  \<open>memcmp\<close> is a parameter: C fixes only the sign of its result. The function returns it as a \<open>my_bool\<close>,
  a \<open>char\<close>, which keeps its low eight bits.
\<close>

definition check_scramble :: "(bytes \<Rightarrow> bytes \<Rightarrow> int) \<Rightarrow> SHA1_CONTEXT \<Rightarrow> bytes \<Rightarrow> bytes \<Rightarrow> bytes \<Rightarrow> uchar option" where
  "check_scramble memcmp sha1_context scramble_arg message hash_stage2 =
     (if length message < SCRAMBLE_LENGTH \<or> length hash_stage2 < SHA1_HASH_SIZE then None else do {
       c \<leftarrow> mysql_sha1_input (mysql_sha1_reset sha1_context) (take SCRAMBLE_LENGTH message);
       c \<leftarrow> mysql_sha1_input c (take SHA1_HASH_SIZE hash_stage2);
       (c, buf) \<leftarrow> mysql_sha1_result c;
       buf \<leftarrow> my_crypt buf scramble_arg SCRAMBLE_LENGTH;
       c \<leftarrow> mysql_sha1_input (mysql_sha1_reset c) (take SHA1_HASH_SIZE buf);
       (c, hash_stage2_reassured) \<leftarrow> mysql_sha1_result c;
       Some (of_int (memcmp (take SHA1_HASH_SIZE hash_stage2) (take SHA1_HASH_SIZE hash_stage2_reassured)))
     })"

definition get_salt_from_password :: "bytes \<Rightarrow> bytes option" where
  "get_salt_from_password password =
     (if length password < 1 + SHA1_HASH_SIZE * 2 then None else hex2octet (take (SHA1_HASH_SIZE * 2) (drop 1 password)))"

definition make_password_from_salt :: "bytes \<Rightarrow> bytes option" where
  "make_password_from_salt hash_stage2 =
     (if length hash_stage2 < SHA1_HASH_SIZE then None else Some (PVERSION41_CHAR # octet2hex (take SHA1_HASH_SIZE hash_stage2)))"

subsection \<open>Hexadecimal forms\<close>

lemma less_16: "(d::nat) < 16 \<Longrightarrow> d \<in> {0, 1, 2, 3, 4, 5, 6, 7, 8, 9, 10, 11, 12, 13, 14, 15}"
  by (auto simp: numeral_eq_Suc less_Suc_eq)

lemma char_val_hex_digit: "d < 16 \<Longrightarrow> char_val (hex_digit d) = of_nat d"
  using less_16 [of d] by (auto simp: char_val_def hex_digit_def)

lemma char_val_upper: "d < 16 \<Longrightarrow> char_val (dig_vec_upper ! d) = of_nat d"
  using less_16 [of d] by (auto simp: char_val_def dig_vec_upper_def)

lemma byte_halves: "push_bit 4 (drop_bit 4 c) OR (c AND 15) = (c :: uchar)"
proof (rule bit_word_eqI)
  fix n assume "n < LENGTH(8)"
  have m: "(15::uchar) = mask 4" by (simp add: mask_eq_exp_minus_1)
  show "bit (push_bit 4 (drop_bit 4 c) OR (c AND 15)) n = bit c n"
    unfolding m using \<open>n < LENGTH(8)\<close> by (cases "n < 4") (auto simp: bit_simps)
qed

lemma nibble_step: "push_bit 4 (drop_bit (k + 4) n) + of_nat (unat (drop_bit k n) mod 16) = drop_bit k (n :: uint32)"
proof -
  define w where "w = drop_bit k n"
  have "of_nat (unat w div 16) = drop_bit 4 w"
    using of_nat_unat_id [of "drop_bit 4 w"] unat_drop_bit_div [of 4 w] by simp
  then have "push_bit 4 (drop_bit 4 w) + of_nat (unat w mod 16) = of_nat (16 * (unat w div 16) + unat w mod 16)"
    by (simp only: of_nat_add of_nat_mult) (simp add: push_bit_eq_mult)
  also have "\<dots> = w" by simp
  finally show ?thesis by (simp add: w_def drop_bit_drop_bit add.commute)
qed

lemma salt_words_sprintf: "salt_words (sprintf_08lx v @ password) = map_option (Cons v) (salt_words password)"
proof -
  have digit: "ucast (char_val (hex_digit (n mod 16))) = (of_nat (n mod 16) :: ulong)" for n
    by (simp add: char_val_hex_digit unsigned_of_nat take_bit_nat_eq_self)
  have "unat (drop_bit (28 + 4) v) = 0" using unat_mask_32 [of v] by (simp add: unat_drop_bit_div)
  then have "drop_bit (28 + 4) v = 0" by (metis unsigned_0 word_unat_eq_iff)
  note top = nibble_step [of 28 v, unfolded this]
  have w: "sprintf_08lx v = [hex_digit (unat (drop_bit 28 v) mod 16), hex_digit (unat (drop_bit 24 v) mod 16),
      hex_digit (unat (drop_bit 20 v) mod 16), hex_digit (unat (drop_bit 16 v) mod 16), hex_digit (unat (drop_bit 12 v) mod 16),
      hex_digit (unat (drop_bit 8 v) mod 16), hex_digit (unat (drop_bit 4 v) mod 16), hex_digit (unat (drop_bit 0 v) mod 16)]"
    by (simp add: sprintf_08lx_def upt_rec)
  show ?thesis
    unfolding w
    using top nibble_step [of 24 v] nibble_step [of 20 v] nibble_step [of 16 v] nibble_step [of 12 v] nibble_step [of 8 v]
      nibble_step [of 4 v] nibble_step [of 0 v]
    by (cases "salt_words password") (simp_all add: digit Let_def)
qed

lemma salt_323_roundtrip: "get_salt_from_password_323 (Some (make_password_from_salt_323 (v, w))) = Some (v, w)"
  using salt_words_sprintf [of v "sprintf_08lx w"] salt_words_sprintf [of w "[]"]
  by (simp add: get_salt_from_password_323_def make_password_from_salt_323_def)

lemma hex2octet_octet2hex: "hex2octet (octet2hex bs) = Some bs"
proof (induction bs)
  case (Cons c bs)
  have "unat (drop_bit 4 c) < 16" "unat (c AND 15) < 16"
    using unat_drop_bit_div [of 4 c] div_digit_bound [of "unat c" 16 16] unat_and_mask [of c 4]
    by (auto simp: mask_eq_exp_minus_1)
  then have "push_bit 4 (char_val (dig_vec_upper ! unat (drop_bit 4 c))) OR char_val (dig_vec_upper ! unat (c AND 15)) = c"
    by (simp only: char_val_upper of_nat_unat_id byte_halves)
  with Cons show ?case by (simp add: octet2hex_def)
qed (simp add: octet2hex_def)

lemma length_octet2hex [simp]: "length (octet2hex bs) = 2 * length bs"
  by (induction bs) (simp_all add: octet2hex_def)

text \<open>
  The stored forms of a password hash are faithful: decoding the 16 hexadecimal digits of an old hash, and
  the asterisk with 40 digits of a new one, gives back the hash they were printed from.
\<close>

theorem password_hex_roundtrip:
  "get_salt_from_password_323 (Some (make_password_from_salt_323 salt)) = Some salt \<and>
   (length hash = SHA1_HASH_SIZE \<longrightarrow> make_password_from_salt hash \<noteq> None \<and>
      get_salt_from_password (the (make_password_from_salt hash)) = Some hash)"
  using salt_323_roundtrip [of "fst salt" "snd salt"]
  by (auto simp: make_password_from_salt_def get_salt_from_password_def hex2octet_octet2hex)

theorem password_hex_roundtrip_witness:
  "get_salt_from_password_323 (Some (make_password_from_salt_323 (0x1234abcd, 7))) = Some (0x1234abcd, 7) \<and>
   length (replicate 20 (0xa5 :: uchar)) = SHA1_HASH_SIZE \<and>
   get_salt_from_password (the (make_password_from_salt (replicate 20 0xa5))) = Some (replicate 20 0xa5)"
  using password_hex_roundtrip [of "(0x1234abcd, 7)" "replicate 20 0xa5"] by (simp add: SHA1_HASH_SIZE_def)

subsection \<open>The protocol before 4.1\<close>

definition rnd_ok :: "my_rnd_struct \<Rightarrow> bool" where
  "rnd_ok st \<longleftrightarrow> max_value st = 0x3FFFFFFF \<and> max_value_dbl st = 0x3FFFFFFF"

lemma my_rnd_init_ok: "rnd_ok (my_rnd_init a b)"
  by (simp add: rnd_ok_def my_rnd_init_def Let_def)

lemma my_rnd_range:
  assumes "rnd_ok st" "my_rnd st = (r, st')"
  shows "0 \<le> r" "r < 1" "rnd_ok st'"
proof -
  define s1 where "s1 = (seed1 st * 3 + seed2 st) mod max_value st"
  have "unat s1 < 0x3FFFFFFF" using assms(1) by (simp add: s1_def rnd_ok_def unat_mod_distrib)
  then have "of_nat (unat s1) < (0x3FFFFFFF :: rat)" by (metis of_nat_less_iff of_nat_numeral)
  moreover have r: "r = of_nat (unat s1) / 0x3FFFFFFF" and "rnd_ok st'"
    using assms by (auto simp: my_rnd_def s1_def rnd_ok_def Let_def)
  ultimately show "r < 1" "rnd_ok st'" by auto
  show "0 \<le> r" unfolding r by (rule divide_nonneg_nonneg) (rule of_nat_0_le_iff, simp)
qed

lemma rnd_floor_range: "0 \<le> r \<Longrightarrow> r < 1 \<Longrightarrow> 0 \<le> \<lfloor>r * 31 :: rat\<rfloor> \<and> \<lfloor>r * 31\<rfloor> < 31"
  by (simp add: floor_less_iff)

lemma rnd_chars_range:
  "rnd_ok st \<Longrightarrow> rnd_chars n st = (to, st') \<Longrightarrow>
   rnd_ok st' \<and> length to = n \<and> (\<forall>c\<in>set to. \<exists>x. 0 \<le> x \<and> x < 31 \<and> c = of_int (x + 64))"
proof (induction n arbitrary: st to st')
  case (Suc n)
  obtain r st1 where r: "my_rnd st = (r, st1)" by (metis prod.exhaust)
  obtain to1 st2 where t: "rnd_chars n st1 = (to1, st2)" by (metis prod.exhaust)
  have eq: "to = of_int (\<lfloor>r * 31\<rfloor> + 64) # to1" "st' = st2" using Suc.prems(2) r t by auto
  have tl: "rnd_ok st2" "length to1 = n" "\<forall>c\<in>set to1. \<exists>x. 0 \<le> x \<and> x < 31 \<and> c = of_int (x + 64)"
    using Suc.IH [OF my_rnd_range(3) [OF Suc.prems(1) r] t] by blast+
  have "\<exists>x. 0 \<le> x \<and> x < 31 \<and> of_int (\<lfloor>r * 31\<rfloor> + 64) = (of_int (x + 64) :: uchar)"
    using rnd_floor_range [OF my_rnd_range(1,2) [OF Suc.prems(1) r]] by blast
  with tl show ?case unfolding eq by simp
qed simp

lemma masked_char_nonzero:
  assumes "0 \<le> x" "x < 31" "0 \<le> y" "y < 31"
  shows "(of_int (x + 64) XOR of_int y :: uchar) \<noteq> 0"
proof -
  have "(of_int (x + 64) :: uchar) \<noteq> of_int y"
    unfolding word_of_int_eq_iff using assms by (simp add: take_bit_eq_mod)
  moreover have "a = b" if "a XOR b = 0" for a b :: uchar
  proof -
    have "a = (a XOR b) XOR b" by (simp add: xor.assoc)
    with that show ?thesis by simp
  qed
  ultimately show ?thesis by blast
qed

text \<open>
  C35: In the protocol before 4.1 the response to a challenge is eight non-zero bytes, and the server that knows the
  hash of the same password accepts it.
\<close>

theorem scramble_323_accepted:
  assumes "password \<noteq> []" "SCRAMBLE_LENGTH_323 \<le> length message"
  shows "\<exists>to. scramble_323 message (Some password) = Some to \<and> length to = SCRAMBLE_LENGTH_323 \<and> 0 \<notin> set to \<and>
     check_scramble_323 to message (hash_password password) = Some False"
proof -
  obtain p ps where pw: "password = p # ps" using assms(1) by (cases password) auto
  define st where "st = my_rnd_init (fst (hash_password password) XOR fst (hash_password (take SCRAMBLE_LENGTH_323 message)))
    (snd (hash_password password) XOR snd (hash_password (take SCRAMBLE_LENGTH_323 message)))"
  obtain to1 st1 where t: "rnd_chars SCRAMBLE_LENGTH_323 st = (to1, st1)" by (metis prod.exhaust)
  obtain r st2 where r: "my_rnd st1 = (r, st2)" by (metis prod.exhaust)
  have "rnd_ok st" by (simp add: st_def my_rnd_init_ok)
  note ok = rnd_chars_range [OF this t]
  define to where "to = map (\<lambda>c. c XOR of_int \<lfloor>r * 31\<rfloor>) to1"
  have len: "length to = SCRAMBLE_LENGTH_323" using ok by (simp add: to_def)
  have "scramble_323 message (Some password) = Some to"
    using assms(2) t r by (simp add: scramble_323_def pw st_def to_def Let_def)
  moreover have "0 \<notin> set to"
    using ok masked_char_nonzero rnd_floor_range [OF my_rnd_range(1,2) [OF _ r]] by (fastforce simp: to_def)
  moreover have "list_all2 (\<lambda>s t. s = t XOR of_int \<lfloor>r * 31\<rfloor>) to to1"
    by (simp add: to_def list_all2_map1 list.rel_refl)
  then have "check_scramble_323 to message (hash_password password) = Some False"
    using assms(2) t r len by (simp add: check_scramble_323_def st_def Let_def SCRAMBLE_LENGTH_323_def)
  ultimately show ?thesis using len by blast
qed

theorem scramble_323_accepted_witness:
  "\<exists>to. scramble_323 (replicate 8 65) (Some [112, 119]) = Some to \<and>
     check_scramble_323 to (replicate 8 65) (hash_password [112, 119]) = Some False"
  using scramble_323_accepted [of "[112, 119]" "replicate 8 65"] by (auto simp: SCRAMBLE_LENGTH_323_def)

subsection \<open>The protocol since 4.1\<close>

lemma length_sha1 [simp]: "length (sha1 m) = SHA1_HASH_SIZE"
  by (cases "sha_blocks (sha_pad m) sha_init") (simp add: sha1_def sha_digest_def SHA1_HASH_SIZE_def)

lemma take_sha1 [simp]: "take SHA1_HASH_SIZE (sha1 m) = sha1 m"
  by simp

text \<open>One use of the context: reset, up to two inputs, result; the context can be used again.\<close>

lemma sha1_once:
  assumes "length (Message_Block c) = 64"
  obtains c1 c2 where "mysql_sha1_input (mysql_sha1_reset c) m = Some c1" "mysql_sha1_result c1 = Some (c2, sha1 m)"
    "length (Message_Block c2) = 64"
proof -
  obtain c1 where c1: "mysql_sha1_input (mysql_sha1_reset c) m = Some c1" "absorbed c1 m"
    using mysql_sha1_input_absorbed [OF absorbed_reset [OF assms], of m] by auto
  with mysql_sha1_result_absorbed [OF c1(2)] that show thesis by auto
qed

lemma sha1_twice:
  assumes "length (Message_Block c) = 64"
  obtains c1 c2 c3 where "mysql_sha1_input (mysql_sha1_reset c) m = Some c1" "mysql_sha1_input c1 n = Some c2"
    "mysql_sha1_result c2 = Some (c3, sha1 (m @ n))" "length (Message_Block c3) = 64"
proof -
  obtain c1 where c1: "mysql_sha1_input (mysql_sha1_reset c) m = Some c1" "absorbed c1 m"
    using mysql_sha1_input_absorbed [OF absorbed_reset [OF assms], of m] by auto
  obtain c2 where c2: "mysql_sha1_input c1 n = Some c2" "absorbed c2 (m @ n)"
    using mysql_sha1_input_absorbed [OF c1(2)] by blast
  with c1 mysql_sha1_result_absorbed [OF c2(2)] that show thesis by auto
qed

definition xor_bytes :: "bytes \<Rightarrow> bytes \<Rightarrow> bytes" where
  "xor_bytes s1 s2 = map2 (\<lambda>a b. a XOR b) s1 s2"

lemma my_crypt_xor:
  assumes "length s1 = n" "length s2 = n"
  shows "my_crypt s1 s2 n = Some (xor_bytes s1 s2)"
  using assms by (auto simp: my_crypt_def xor_bytes_def intro!: nth_equalityI)

lemma length_xor_bytes [simp]: "length (xor_bytes s1 s2) = min (length s1) (length s2)"
  by (simp add: xor_bytes_def)

lemma xor_bytes_cancel: "length a = length b \<Longrightarrow> xor_bytes a (xor_bytes a b) = b"
proof -
  assume "length a = length b"
  moreover have "x XOR (x XOR y) = y" for x y :: uchar by (simp add: xor.assoc [symmetric])
  ultimately show ?thesis by (auto simp: xor_bytes_def intro!: nth_equalityI)
qed

lemmas sha_sizes = SHA1_HASH_SIZE_def SCRAMBLE_LENGTH_def

lemma make_scrambled_password_eq:
  assumes "length (Message_Block c) = 64"
  shows "make_scrambled_password c password = Some (PVERSION41_CHAR # octet2hex (sha1 (sha1 password)))"
proof -
  obtain c1 c2 where 1: "mysql_sha1_input (mysql_sha1_reset c) password = Some c1" "mysql_sha1_result c1 = Some (c2, sha1 password)"
    "length (Message_Block c2) = 64"
    using sha1_once [OF assms, of password] by blast
  obtain c3 c4 where 2: "mysql_sha1_input (mysql_sha1_reset c2) (sha1 password) = Some c3"
    "mysql_sha1_result c3 = Some (c4, sha1 (sha1 password))"
    using sha1_once [OF 1(3), of "sha1 password"] by blast
  show ?thesis unfolding make_scrambled_password_def using 1 2 by simp
qed

lemma scramble_eq:
  assumes "length (Message_Block c) = 64" "length message = SCRAMBLE_LENGTH"
  shows "scramble c message password =
     Some (xor_bytes (sha1 (message @ sha1 (sha1 password))) (sha1 password))"
proof -
  let ?h1 = "sha1 password" and ?h2 = "sha1 (sha1 password)"
  obtain c1 c2 where 1: "mysql_sha1_input (mysql_sha1_reset c) password = Some c1" "mysql_sha1_result c1 = Some (c2, ?h1)"
    "length (Message_Block c2) = 64"
    using sha1_once [OF assms(1), of password] by blast
  obtain c3 c4 where 2: "mysql_sha1_input (mysql_sha1_reset c2) ?h1 = Some c3" "mysql_sha1_result c3 = Some (c4, ?h2)"
    "length (Message_Block c4) = 64"
    using sha1_once [OF 1(3), of ?h1] by blast
  obtain c5 c6 c7 where 3: "mysql_sha1_input (mysql_sha1_reset c4) message = Some c5" "mysql_sha1_input c5 ?h2 = Some c6"
    "mysql_sha1_result c6 = Some (c7, sha1 (message @ ?h2))"
    using sha1_twice [OF 2(3), of message ?h2] by blast
  show ?thesis
    unfolding scramble_def using 1 2 3 assms(2) my_crypt_xor [of _ SCRAMBLE_LENGTH ?h1] by (simp add: sha_sizes)
qed

lemma check_scramble_eq:
  assumes "length (Message_Block c) = 64" "length message = SCRAMBLE_LENGTH" "length hash_stage2 = SHA1_HASH_SIZE"
    "length reply = SCRAMBLE_LENGTH"
  shows "check_scramble memcmp c reply message hash_stage2 =
     Some (of_int (memcmp hash_stage2 (sha1 (xor_bytes (sha1 (message @ hash_stage2)) reply))))"
proof -
  let ?s = "sha1 (message @ hash_stage2)"
  obtain c1 c2 c3 where 1: "mysql_sha1_input (mysql_sha1_reset c) message = Some c1" "mysql_sha1_input c1 hash_stage2 = Some c2"
    "mysql_sha1_result c2 = Some (c3, ?s)" "length (Message_Block c3) = 64"
    using sha1_twice [OF assms(1), of message hash_stage2] by blast
  obtain c4 c5 where 2: "mysql_sha1_input (mysql_sha1_reset c3) (xor_bytes ?s reply) = Some c4"
    "mysql_sha1_result c4 = Some (c5, sha1 (xor_bytes ?s reply))"
    using sha1_once [OF 1(4), of "xor_bytes ?s reply"] by blast
  have "length (xor_bytes ?s reply) = SHA1_HASH_SIZE" using assms(4) by (simp add: sha_sizes)
  moreover have "my_crypt ?s reply SCRAMBLE_LENGTH = Some (xor_bytes ?s reply)"
    using my_crypt_xor [of ?s SCRAMBLE_LENGTH reply] assms(4) by (simp add: sha_sizes)
  ultimately show ?thesis
    unfolding check_scramble_def using 1 2 assms(2-4) by (simp add: sha_sizes)
qed

text \<open>What the C standard says of \<open>memcmp\<close> on two blocks of the same length.\<close>

definition memcmp_ok :: "(bytes \<Rightarrow> bytes \<Rightarrow> int) \<Rightarrow> bool" where
  "memcmp_ok memcmp \<longleftrightarrow> (\<forall>a b. length a = length b \<longrightarrow>
     (memcmp a b = 0 \<longleftrightarrow> a = b) \<and> (memcmp a b < 0 \<longleftrightarrow> ord_class.lexordp a b))"

text \<open>
  C8: Challenge and response since 4.1: for every password and challenge, the reply of \<open>scramble\<close> is accepted by
  \<open>check_scramble\<close> with the hash that \<open>get_salt_from_password\<close> reads out of the stored form
  \<open>make_scrambled_password\<close> made of the same password.
\<close>

theorem authentication_accepts:
  assumes "length (Message_Block c) = 64" "length (Message_Block c') = 64" "length (Message_Block c'') = 64"
    and "length message = SCRAMBLE_LENGTH" and "memcmp_ok memcmp"
  shows "\<exists>stored salt reply. make_scrambled_password c password = Some stored \<and> get_salt_from_password stored = Some salt \<and>
     scramble c' message password = Some reply \<and> check_scramble memcmp c'' reply message salt = Some 0"
proof -
  let ?h2 = "sha1 (sha1 password)"
  let ?reply = "xor_bytes (sha1 (message @ ?h2)) (sha1 password)"
  have "length ?reply = SCRAMBLE_LENGTH" by (simp add: sha_sizes)
  moreover have "memcmp ?h2 ?h2 = 0" using assms(5) by (simp add: memcmp_ok_def)
  ultimately have "check_scramble memcmp c'' ?reply message ?h2 = Some 0"
    using check_scramble_eq [OF assms(3,4), of ?h2 ?reply] by (simp add: xor_bytes_cancel)
  moreover have "get_salt_from_password (PVERSION41_CHAR # octet2hex ?h2) = Some ?h2"
    by (simp add: get_salt_from_password_def hex2octet_octet2hex)
  ultimately show ?thesis
    using make_scrambled_password_eq [OF assms(1)] scramble_eq [OF assms(2,4)] by blast
qed

text \<open>The comparison by the first differing byte.\<close>

fun memcmp_bytes :: "bytes \<Rightarrow> bytes \<Rightarrow> int" where
  "memcmp_bytes (a # as) (b # bs) = (if a = b then memcmp_bytes as bs else uint a - uint b)"
| "memcmp_bytes _ _ = 0"

lemma memcmp_bytes_ok: "memcmp_ok memcmp_bytes"
  unfolding memcmp_ok_def
proof (intro allI impI)
  fix a b :: bytes
  assume "length a = length b"
  then show "(memcmp_bytes a b = 0 \<longleftrightarrow> a = b) \<and> (memcmp_bytes a b < 0 \<longleftrightarrow> ord_class.lexordp a b)"
    by (induction a b rule: list_induct2) (auto simp: word_less_def word_uint_eq_iff)
qed

theorem authentication_accepts_witness:
  "\<exists>stored salt reply. make_scrambled_password sha1_blank [112, 119] = Some stored \<and> get_salt_from_password stored = Some salt \<and>
     scramble sha1_blank (replicate 20 65) [112, 119] = Some reply \<and>
     check_scramble memcmp_bytes sha1_blank reply (replicate 20 65) salt = Some 0"
proof -
  have "length (Message_Block sha1_blank) = 64" "length (replicate 20 (65 :: uchar)) = SCRAMBLE_LENGTH"
    by (simp_all add: sha1_blank_def SCRAMBLE_LENGTH_def)
  then show ?thesis using authentication_accepts [OF _ _ _ _ memcmp_bytes_ok] by blast
qed

text \<open>
  C22: With any \<open>memcmp\<close> of the C standard, \<open>check_scramble\<close> accepts exactly two kinds of replies: those
  that open, under the mask of challenge and stored hash, to a preimage of the stored hash, and those that open to
  something else whose hash \<open>memcmp\<close> tells from the stored one by a non-zero multiple of 256, which the narrowing
  to a \<open>char\<close> turns into 0.
\<close>

theorem check_scramble_exact:
  assumes "length (Message_Block c) = 64" "length message = SCRAMBLE_LENGTH" "length hash_stage2 = SHA1_HASH_SIZE"
    "length reply = SCRAMBLE_LENGTH" and "memcmp_ok memcmp"
  shows "check_scramble memcmp c reply message hash_stage2 = Some 0 \<longleftrightarrow>
     (let h = sha1 (xor_bytes (sha1 (message @ hash_stage2)) reply)
      in h = hash_stage2 \<or> (\<exists>k. k \<noteq> 0 \<and> memcmp hash_stage2 h = 256 * k))"
proof -
  let ?h = "sha1 (xor_bytes (sha1 (message @ hash_stage2)) reply)"
  have "(of_int (memcmp hash_stage2 ?h) :: uchar) = 0 \<longleftrightarrow> 256 dvd memcmp hash_stage2 ?h"
    using word_of_int_eq_iff [of "memcmp hash_stage2 ?h" 0, where 'a = 8] by (simp add: take_bit_eq_mod mod_eq_0_iff_dvd)
  moreover have "memcmp hash_stage2 ?h = 0 \<longleftrightarrow> hash_stage2 = ?h" using assms(3,5) by (simp add: memcmp_ok_def)
  ultimately show ?thesis
    unfolding check_scramble_eq [OF assms(1-4)] Let_def by (auto elim!: dvdE)
qed

text \<open>The byte differences of \<open>memcmp_bytes\<close> are never such multiples.\<close>

lemma small_multiple: "0 \<le> x \<Longrightarrow> x < 256 \<Longrightarrow> 0 \<le> y \<Longrightarrow> y < 256 \<Longrightarrow> (x - y) mod 256 = 0 \<Longrightarrow> x - y = (0 :: int)"
  using mod_eq_dvd_iff [of x 256 y] by (simp add: mod_eq_0_iff_dvd)

lemma memcmp_bytes_narrow: "memcmp_bytes a b mod 256 = 0 \<Longrightarrow> memcmp_bytes a b = 0"
proof (induction a b rule: memcmp_bytes.induct)
  case (1 a as b bs)
  have r: "0 \<le> uint a" "uint a < 256" "0 \<le> uint b" "uint b < 256"
    using unsigned_less [of a, where 'a = int] unsigned_less [of b, where 'a = int] by simp_all
  show ?case
  proof (cases "a = b")
    case True
    with 1 show ?thesis by simp
  next
    case False
    then have "memcmp_bytes (a # as) (b # bs) = uint a - uint b" by simp
    with 1 small_multiple [OF r] show ?thesis by simp
  qed
qed simp_all

theorem check_scramble_exact_witness:
  "check_scramble memcmp_bytes sha1_blank (replicate 20 1) (replicate 20 65) (replicate 20 7) = Some 0 \<longleftrightarrow>
     sha1 (xor_bytes (sha1 (replicate 20 65 @ replicate 20 7)) (replicate 20 1)) = replicate 20 7"
proof -
  have "length (Message_Block sha1_blank) = 64" "length (replicate 20 (65 :: uchar)) = SCRAMBLE_LENGTH"
    "length (replicate 20 (7 :: uchar)) = SHA1_HASH_SIZE" "length (replicate 20 (1 :: uchar)) = SCRAMBLE_LENGTH"
    by (simp_all add: sha1_blank_def sha_sizes)
  note exact = check_scramble_exact [OF this memcmp_bytes_ok]
  have "k = 0" if "memcmp_bytes a b = 256 * k" for a b k using memcmp_bytes_narrow [of a b] that by simp
  with exact show ?thesis unfolding Let_def by blast
qed

text \<open>
  C34: With some \<open>memcmp\<close> the check is unsound: its result is narrowed to a \<open>char\<close>, so with one
  that meets the C standard and returns multiples of 256 every reply of the right length is accepted.
\<close>

theorem check_scramble_narrowing_accepts:
  "\<exists>memcmp. memcmp_ok memcmp \<and>
     (\<forall>c reply message hash_stage2. length (Message_Block c) = 64 \<longrightarrow> length message = SCRAMBLE_LENGTH \<longrightarrow>
        length hash_stage2 = SHA1_HASH_SIZE \<longrightarrow> length reply = SCRAMBLE_LENGTH \<longrightarrow>
        check_scramble memcmp c reply message hash_stage2 = Some 0)"
proof (intro exI conjI allI impI)
  let ?memcmp = "\<lambda>a b. 256 * memcmp_bytes a b"
  show "memcmp_ok ?memcmp" using memcmp_bytes_ok by (simp add: memcmp_ok_def mult_less_0_iff)
  fix c :: SHA1_CONTEXT and reply message hash_stage2 :: bytes
  assume "length (Message_Block c) = 64" "length message = SCRAMBLE_LENGTH" "length hash_stage2 = SHA1_HASH_SIZE"
    "length reply = SCRAMBLE_LENGTH"
  note eq = check_scramble_eq [OF this]
  have "(of_int (256 * n) :: uchar) = 0" for n
    using word_of_int_eq_iff [of "256 * n" 0, where 'a = 8] by (simp add: take_bit_eq_mod)
  then show "check_scramble ?memcmp c reply message hash_stage2 = Some 0" unfolding eq by simp
qed

theorem check_scramble_narrowing_accepts_witness:
  "\<exists>memcmp. memcmp_ok memcmp \<and>
     check_scramble memcmp sha1_blank (replicate 20 1) (replicate 20 65) (replicate 20 7) = Some 0"
proof -
  have "length (Message_Block sha1_blank) = 64" "length (replicate 20 (65 :: uchar)) = SCRAMBLE_LENGTH"
    "length (replicate 20 (7 :: uchar)) = SHA1_HASH_SIZE" "length (replicate 20 (1 :: uchar)) = SCRAMBLE_LENGTH"
    by (simp_all add: sha1_blank_def sha_sizes)
  then show ?thesis using check_scramble_narrowing_accepts by blast
qed

end
