(* ===== verification/My_Time.thy ===== *)
theory My_Time
  imports Ctype "HOL-Library.Monad_Syntax"
begin

text \<open>
  Dates and times: \<^verbatim>\<open>libmysql/my_time.c\<close> with the checks of \<^verbatim>\<open>include/my_time.h\<close>. Unsigned fields are
  natural numbers and signed ones integers; where the code can leave the range of its type (32 bits for
  \<open>int\<close> and \<open>long\<close>, 64 for \<open>longlong\<close>) the wrap-around is written out. A string is the list of its
  bytes, and the pointer into it the rest of that list.
\<close>

subsection \<open>Types and limits\<close>

datatype enum_mysql_timestamp_type =
    MYSQL_TIMESTAMP_NONE
  | MYSQL_TIMESTAMP_ERROR
  | MYSQL_TIMESTAMP_DATE
  | MYSQL_TIMESTAMP_DATETIME
  | MYSQL_TIMESTAMP_TIME

record MYSQL_TIME =
  year :: nat
  month :: nat
  day :: nat
  hour :: nat
  minute :: nat
  second :: nat
  second_part :: nat
  neg :: bool
  time_type :: enum_mysql_timestamp_type

definition YY_PART_YEAR :: nat where "YY_PART_YEAR = 70"
definition TIMESTAMP_MAX_YEAR :: nat where "TIMESTAMP_MAX_YEAR = 2038"
definition TIMESTAMP_MIN_YEAR :: nat where "TIMESTAMP_MIN_YEAR = 1900 + YY_PART_YEAR - 1"
definition TIMESTAMP_MAX_VALUE :: int where "TIMESTAMP_MAX_VALUE = 0x7FFFFFFF"
definition TIMESTAMP_MIN_VALUE :: int where "TIMESTAMP_MIN_VALUE = 1"

definition TIME_FUZZY_DATE :: uint32 where "TIME_FUZZY_DATE = 1"
definition TIME_DATETIME_ONLY :: uint32 where "TIME_DATETIME_ONLY = 2"
definition TIME_NO_ZERO_IN_DATE :: uint32 where "TIME_NO_ZERO_IN_DATE = 65536 * 2 * 2 * 2 * 2 * 2 * 2 * 2"
definition TIME_NO_ZERO_DATE :: uint32 where "TIME_NO_ZERO_DATE = TIME_NO_ZERO_IN_DATE * 2"
definition TIME_INVALID_DATES :: uint32 where "TIME_INVALID_DATES = TIME_NO_ZERO_DATE * 2"

definition MYSQL_TIME_WARN_TRUNCATED :: uint32 where "MYSQL_TIME_WARN_TRUNCATED = 1"
definition MYSQL_TIME_WARN_OUT_OF_RANGE :: uint32 where "MYSQL_TIME_WARN_OUT_OF_RANGE = 2"
definition TIME_MAX_HOUR :: nat where "TIME_MAX_HOUR = 838"
definition TIME_MAX_MINUTE :: nat where "TIME_MAX_MINUTE = 59"
definition TIME_MAX_SECOND :: nat where "TIME_MAX_SECOND = 59"

definition log_10_int :: "nat \<Rightarrow> nat" where
  "log_10_int i = [1, 10, 100, 1000, 10000, 100000, 1000000, 10000000, 100000000, 1000000000, 10000000000, 100000000000,
     1000000000000, 10000000000000, 100000000000000, 1000000000000000, 10000000000000000, 100000000000000000,
     1000000000000000000, 10000000000000000000] ! i"

definition internal_format_positions :: "nat list" where
  "internal_format_positions = [0, 1, 2, 3, 4, 5, 6, 255]"

definition time_separator :: uchar where "time_separator = 58"
definition days_at_timestart :: int where "days_at_timestart = 719528"

definition days_in_month :: "nat list" where
  "days_in_month = [31, 28, 31, 30, 31, 30, 31, 31, 30, 31, 30, 31, 0]"

definition zero_time :: MYSQL_TIME where
  "zero_time = \<lparr>year = 0, month = 0, day = 0, hour = 0, minute = 0, second = 0, second_part = 0, neg = False,
     time_type = MYSQL_TIMESTAMP_DATE\<rparr>"

subsection \<open>Calendar\<close>

definition calc_days_in_year :: "nat \<Rightarrow> nat" where
  "calc_days_in_year y =
     (if y mod 4 = 0 \<and> (y mod 100 \<noteq> 0 \<or> (y mod 400 = 0 \<and> y \<noteq> 0)) then 366 else 365)"

text \<open>The result says whether the date is refused; \<open>was_cut\<close> comes in and goes out.\<close>

definition check_date :: "MYSQL_TIME \<Rightarrow> bool \<Rightarrow> uint32 \<Rightarrow> int \<Rightarrow> bool \<times> int" where
  "check_date ltime not_zero_date flags was_cut =
     (if not_zero_date then
        if (flags AND TIME_NO_ZERO_IN_DATE \<noteq> 0 \<or> flags AND TIME_FUZZY_DATE = 0) \<and> (month ltime = 0 \<or> day ltime = 0) \<or>
           flags AND TIME_INVALID_DATES = 0 \<and>
             month ltime \<noteq> 0 \<and> day ltime > days_in_month ! (month ltime - 1) \<and>
             (month ltime \<noteq> 2 \<or> calc_days_in_year (year ltime) \<noteq> 366 \<or> day ltime \<noteq> 29)
        then (True, 2)
        else (False, was_cut)
      else if flags AND TIME_NO_ZERO_DATE \<noteq> 0 then (True, was_cut)
      else (False, was_cut))"

definition year_2000_handling :: "nat \<Rightarrow> nat" where
  "year_2000_handling y = (let y = uint_wrap (int y + 1900) in if y < 1900 + YY_PART_YEAR then y + 100 else y)"

definition calc_daynr :: "nat \<Rightarrow> nat \<Rightarrow> nat \<Rightarrow> int" where
  "calc_daynr yr mon d =
     (let y = long_wrap (int yr) in
      if y = 0 \<and> mon = 0 \<and> d = 0 then 0 else
      let delsum = long_wrap (365 * y + 31 * (int mon - 1) + int d);
          (y, delsum) = (if mon \<le> 2 then (long_wrap (y - 1), delsum)
                        else (y, delsum - long_wrap (int (mon * 4 + 23)) sdiv 10));
          temp = ((y sdiv 100 + 1) * 3) sdiv 4
      in long_wrap (delsum + y sdiv 4 - temp))"

definition set_zero_time :: "enum_mysql_timestamp_type \<Rightarrow> MYSQL_TIME" where
  "set_zero_time t = zero_time\<lparr>time_type := t\<rparr>"

subsection \<open>Strings to dates\<close>

fun skip_spaces :: "bytes \<Rightarrow> bytes" where
  "skip_spaces [] = []"
| "skip_spaces (c # str) = (if my_isspace_latin1 c then skip_spaces str else c # str)"

text \<open>The loop over the digits of one field; \<open>tmp_value\<close> is an \<open>unsigned long\<close>.\<close>

fun scan_digits :: "bool \<Rightarrow> nat \<Rightarrow> nat \<Rightarrow> bytes \<Rightarrow> nat \<times> bytes" where
  "scan_digits scan_until_delim field_length tmp_value [] = (tmp_value, [])"
| "scan_digits scan_until_delim field_length tmp_value (c # str) =
     (if my_isdigit_latin1 c \<and> (scan_until_delim \<or> field_length - 1 \<noteq> 0)
      then scan_digits scan_until_delim (field_length - 1) ((tmp_value * 10 + digit_value c) mod 2 ^ 32) str
      else (tmp_value, c # str))"

text \<open>Delimiters after a field: \<^const>\<open>None\<close> for a space where none is allowed.\<close>

fun skip_delimiters :: "bool \<Rightarrow> bool \<Rightarrow> bool \<Rightarrow> bytes \<Rightarrow> (bool \<times> bool \<times> bytes) option" where
  "skip_delimiters space_ok found_delimitier found_space [] = Some (found_delimitier, found_space, [])"
| "skip_delimiters space_ok found_delimitier found_space (c # str) =
     (if my_ispunct_latin1 c \<or> my_isspace_latin1 c then
        if my_isspace_latin1 c \<and> \<not> space_ok then None
        else skip_delimiters space_ok True (found_space \<or> my_isspace_latin1 c) str
      else Some (found_delimitier, found_space, c # str))"

record scan_state =
  sc_i :: nat
  sc_field_length :: nat
  sc_date :: "nat list"
  sc_date_len :: "nat list"
  sc_not_zero_date :: bool
  sc_found_delimitier :: bool
  sc_found_space :: bool
  sc_last_field_pos :: bytes

definition allow_space :: nat where
  "allow_space = ((push_bit (max (max (internal_format_positions ! 0) (internal_format_positions ! 1)) (internal_format_positions ! 2)) 1
      OR push_bit (internal_format_positions ! 6) 1) AND (1 OR 2 OR 4 OR 8))"

text \<open>
  The scan of the fields. \<open>date[0..i-1]\<close> and \<open>date_len[0..i-1]\<close> are the lists built so far;
  \<^const>\<open>None\<close> is the early return of \<open>MYSQL_TIMESTAMP_NONE\<close>. The format has no AM/PM part.
\<close>

function scan_fields :: "bool \<Rightarrow> scan_state \<Rightarrow> bytes \<Rightarrow> scan_state option" where
  "scan_fields is_internal_format s str =
     (if sc_i s < 7 \<and> str \<noteq> [] \<and> my_isdigit_latin1 (hd str) then
        let i = sc_i s;
            (tmp_value, str1) = scan_digits (\<not> is_internal_format \<and> i \<noteq> internal_format_positions ! 6) (sc_field_length s)
                                  (digit_value (hd str)) (tl str)
        in if tmp_value > 999999 then None else
        let s = s\<lparr>sc_i := i + 1, sc_field_length := (if internal_format_positions ! (i + 1) = 0 then 4 else 2),
                  sc_date := sc_date s @ [tmp_value], sc_date_len := sc_date_len s @ [length str - length str1],
                  sc_not_zero_date := (sc_not_zero_date s \<or> tmp_value \<noteq> 0), sc_last_field_pos := str1\<rparr>
        in if str1 = [] then Some s
        else if i = internal_format_positions ! 2 \<and> hd str1 = 84 then scan_fields is_internal_format s (tl str1)
        else if i = internal_format_positions ! 5 then
          if hd str1 = 46 then scan_fields is_internal_format (s\<lparr>sc_field_length := 6\<rparr>) (tl str1)
          else scan_fields is_internal_format s str1
        else case skip_delimiters (bit allow_space i) (sc_found_delimitier s) (sc_found_space s) str1 of
               None \<Rightarrow> None
             | Some (found_delimitier, found_space, str2) \<Rightarrow>
                 scan_fields is_internal_format
                   (s\<lparr>sc_i := (if i = internal_format_positions ! 6 then i + 2 else i + 1),
                      sc_found_delimitier := found_delimitier, sc_found_space := found_space, sc_last_field_pos := str2\<rparr>) str2
      else Some s)"
  by auto
termination
  by (relation "measure (\<lambda>(f, s, str). 7 - sc_i s)") auto

declare scan_fields.simps [simp del]

definition fields_to_time :: "nat list \<Rightarrow> nat list \<Rightarrow> MYSQL_TIME \<Rightarrow> MYSQL_TIME" where
  "fields_to_time date date_len l_time =
     l_time\<lparr>year := date ! 0, month := date ! 1, day := date ! 2, hour := date ! 3, minute := date ! 4, second := date ! 5,
       second_part := (if date_len ! 6 < 6 then date ! 6 * log_10_int (6 - date_len ! 6) else date ! 6), neg := False\<rparr>"

text \<open>What follows the scan: the checks, the two-digit year and the result.\<close>

definition finish_datetime ::
  "bool \<Rightarrow> nat \<Rightarrow> scan_state \<Rightarrow> MYSQL_TIME \<Rightarrow> uint32 \<Rightarrow> enum_mysql_timestamp_type \<times> MYSQL_TIME \<times> int" where
  "finish_datetime is_internal_format internal_year_length s l_time flags =
     (if sc_found_delimitier s \<and> \<not> sc_found_space s \<and> flags AND TIME_DATETIME_ONLY \<noteq> 0
      then (MYSQL_TIMESTAMP_NONE, l_time, 1) else
      let str = sc_last_field_pos s;
          number_of_fields = sc_i s;
          date = sc_date s @ replicate (8 - length (sc_date s)) 0;
          date_len = sc_date_len s @ replicate (8 - length (sc_date_len s)) 0;
          year_length = (if is_internal_format then internal_year_length else date_len ! 0)
      in if \<not> is_internal_format \<and> year_length = 0 then (MYSQL_TIMESTAMP_NONE, l_time, 1) else
      let l_time = fields_to_time date date_len l_time;
          l_time = (if year_length = 2 \<and> sc_not_zero_date s
                    then l_time\<lparr>year := year l_time + (if year l_time < YY_PART_YEAR then 2000 else 1900)\<rparr> else l_time)
      in if number_of_fields < 3 \<or> year l_time > 9999 \<or> month l_time > 12 \<or> day l_time > 31 \<or> hour l_time > 23 \<or>
            minute l_time > 59 \<or> second l_time > 59
      then (MYSQL_TIMESTAMP_ERROR, zero_time,
            if sc_not_zero_date s \<or> skip_spaces str \<noteq> [] then 1 else 0)
      else case check_date l_time (sc_not_zero_date s) flags 0 of
        (refused, was_cut) \<Rightarrow>
          if refused then (MYSQL_TIMESTAMP_ERROR, zero_time, was_cut) else
          let t = (if number_of_fields \<le> 3 then MYSQL_TIMESTAMP_DATE else MYSQL_TIMESTAMP_DATETIME)
          in (t, l_time\<lparr>time_type := t\<rparr>, if skip_spaces str \<noteq> [] then 1 else was_cut))"

definition str_to_datetime :: "bytes \<Rightarrow> MYSQL_TIME \<Rightarrow> uint32 \<Rightarrow> enum_mysql_timestamp_type \<times> MYSQL_TIME \<times> int" where
  "str_to_datetime str l_time flags =
     (let str = skip_spaces str in
      if str = [] \<or> \<not> my_isdigit_latin1 (hd str) then (MYSQL_TIMESTAMP_NONE, l_time, 1) else
      let rest = dropWhile (\<lambda>c. my_isdigit_latin1 c \<or> c = 84) str;
          digits = length str - length rest;
          is_internal_format = (rest = [] \<or> hd rest = 46);
          internal_year_length = (if digits = 4 \<or> digits = 8 \<or> digits \<ge> 14 then 4 else 2);
          field_length = (if is_internal_format then internal_year_length
                          else if internal_format_positions ! 0 = 0 then 4 else 2)
      in case scan_fields is_internal_format
                \<lparr>sc_i = 0, sc_field_length = field_length, sc_date = [], sc_date_len = [], sc_not_zero_date = False,
                 sc_found_delimitier = False, sc_found_space = False, sc_last_field_pos = str\<rparr> str of
           None \<Rightarrow> (MYSQL_TIMESTAMP_NONE, l_time, 1)
         | Some s \<Rightarrow> finish_datetime is_internal_format internal_year_length s l_time flags)"

subsection \<open>Strings to times\<close>

definition check_time_range :: "MYSQL_TIME \<Rightarrow> uint32 \<Rightarrow> bool \<times> MYSQL_TIME \<times> uint32" where
  "check_time_range my_time warning =
     (if minute my_time \<ge> 60 \<or> second my_time \<ge> 60 then (True, my_time, warning) else
      let hr = uint_wrap (int (hour my_time) + 24 * int (day my_time))
      in if hr \<le> TIME_MAX_HOUR \<and>
            (hr \<noteq> TIME_MAX_HOUR \<or> minute my_time \<noteq> TIME_MAX_MINUTE \<or> second my_time \<noteq> TIME_MAX_SECOND \<or> second_part my_time = 0)
      then (False, my_time, warning)
      else (False, my_time\<lparr>day := 0, hour := TIME_MAX_HOUR, minute := TIME_MAX_MINUTE, second := TIME_MAX_SECOND, second_part := 0\<rparr>,
            warning OR MYSQL_TIME_WARN_OUT_OF_RANGE))"

fun read_number :: "nat \<Rightarrow> bytes \<Rightarrow> nat \<times> bytes" where
  "read_number value [] = (value, [])"
| "read_number value (c # str) =
     (if my_isdigit_latin1 c then read_number ((value * 10 + digit_value c) mod 2 ^ 64) str else (value, c # str))"

function read_hms :: "nat list \<Rightarrow> bytes \<Rightarrow> nat list \<times> bytes" where
  "read_hms date str =
     (let (value, str) = read_number 0 str;
          date = date @ [value mod 2 ^ 32]
      in if length date \<ge> 4 \<or> length str < 2 \<or> hd str \<noteq> time_separator \<or> \<not> my_isdigit_latin1 (str ! 1)
      then (date, str)
      else read_hms date (tl str))"
  by auto
termination
  by (relation "measure (\<lambda>(date, str). 4 - length date)") auto

declare read_hms.simps [simp del]

fun read_fraction :: "int \<Rightarrow> nat \<Rightarrow> bytes \<Rightarrow> int \<times> nat \<times> bytes" where
  "read_fraction field_length value [] = (field_length, value, [])"
| "read_fraction field_length value (c # str) =
     (if my_isdigit_latin1 c
      then read_fraction (field_length - 1) (if field_length > 0 then value * 10 + digit_value c else value) str
      else (field_length, value, c # str))"

definition fractional :: "bytes \<Rightarrow> uint32 \<Rightarrow> nat \<times> uint32 \<times> bytes" where
  "fractional str warning =
     (if length str \<ge> 2 \<and> hd str = 46 \<and> my_isdigit_latin1 (str ! 1) then
        let (field_length, value, str) = read_fraction 5 (digit_value (str ! 1)) (drop 2 str)
        in if field_length > 0 then (value * log_10_int (nat field_length) mod 2 ^ 32, warning, str)
        else (value mod 2 ^ 32, if field_length < 0 then warning OR MYSQL_TIME_WARN_TRUNCATED else warning, str)
      else (0, warning, str))"

definition has_exponent :: "bytes \<Rightarrow> bool" where
  "has_exponent str \<longleftrightarrow>
     length str > 1 \<and> (hd str = 101 \<or> hd str = 69) \<and>
     (my_isdigit_latin1 (str ! 1) \<or> (str ! 1 = 45 \<or> str ! 1 = 43) \<and> length str > 2 \<and> my_isdigit_latin1 (str ! 2))"

definition time_fields :: "bytes \<Rightarrow> nat list \<times> bytes" where
  "time_fields str =
     (let (value, end_of_days) = read_number 0 str;
          str = skip_spaces end_of_days
      in if length str > 1 \<and> length str \<noteq> length end_of_days \<and> my_isdigit_latin1 (hd str) then
           let (date, str) = read_hms [value mod 2 ^ 32] str in (date @ replicate (4 - length date) 0, str)
         else if length str > 1 \<and> hd str = time_separator \<and> my_isdigit_latin1 (str ! 1) then
           let (date, str) = read_hms [0, value mod 2 ^ 32] (tl str) in (date @ replicate (4 - length date) 0, str)
         else ([0, value div 10000 mod 2 ^ 32, value div 100 mod 100, value mod 100], str))"

definition str_to_time :: "bytes \<Rightarrow> MYSQL_TIME \<Rightarrow> bool \<times> MYSQL_TIME \<times> uint32" where
  "str_to_time str l_time =
     (let l_time = l_time\<lparr>neg := False\<rparr>;
          str = skip_spaces str;
          (l_time, str) = (if str \<noteq> [] \<and> hd str = 45 then (l_time\<lparr>neg := True\<rparr>, tl str) else (l_time, str))
      in if str = [] then (True, l_time, 0) else
      let (res, l_time', was_cut) =
            (if length str \<ge> 12 then str_to_datetime str l_time (TIME_FUZZY_DATE OR TIME_DATETIME_ONLY)
             else (MYSQL_TIMESTAMP_NONE, l_time, 0))
      in if res \<noteq> MYSQL_TIMESTAMP_NONE
      then (res = MYSQL_TIMESTAMP_ERROR, l_time', if was_cut \<noteq> 0 then MYSQL_TIME_WARN_TRUNCATED else 0)
      else
      let (date, str) = time_fields str;
          (frac, warning, str) = fractional str 0
      in if has_exponent str then (True, l_time', warning) else
      let l_time = l_time'\<lparr>year := 0, month := 0, day := date ! 0, hour := date ! 1, minute := date ! 2, second := date ! 3,
                           second_part := frac, time_type := MYSQL_TIMESTAMP_TIME\<rparr>;
          (err, l_time, warning) = check_time_range l_time warning
      in if err then (True, l_time, warning)
      else (False, l_time, if skip_spaces str \<noteq> [] then warning OR MYSQL_TIME_WARN_TRUNCATED else warning))"

subsection \<open>Times in the system time zone\<close>

record tm =
  tm_sec :: int
  tm_min :: int
  tm_hour :: int
  tm_mday :: int
  tm_mon :: int
  tm_year :: int

definition validate_timestamp_range :: "MYSQL_TIME \<Rightarrow> bool" where
  "validate_timestamp_range t \<longleftrightarrow>
     \<not> ((year t > TIMESTAMP_MAX_YEAR \<or> year t < TIMESTAMP_MIN_YEAR) \<or>
        (year t = TIMESTAMP_MAX_YEAR \<and> (month t > 1 \<or> day t > 19)) \<or>
        (year t = TIMESTAMP_MIN_YEAR \<and> (month t < 12 \<or> day t < 31)))"

definition time_matches :: "MYSQL_TIME \<Rightarrow> tm \<Rightarrow> bool" where
  "time_matches t l \<longleftrightarrow> int (hour t) = tm_hour l \<and> int (minute t) = tm_min l \<and> int (second t) = tm_sec l"

definition time_diff :: "MYSQL_TIME \<Rightarrow> tm \<Rightarrow> int" where
  "time_diff t l =
     (let days = int (day t) - tm_mday l;
          days = (if days < - 1 then 1 else if days > 1 then - 1 else days)
      in 3600 * (days * 24 + (int (hour t) - tm_hour l)) + 60 * (int (minute t) - tm_min l) + (int (second t) - tm_sec l))"

text \<open>
  \<open>localtime_r\<close> and the global \<open>my_time_zone\<close> are parameters. The result is the time, the zone offset stored
  through \<open>my_timezone\<close> (if it is stored) and whether the time was in a gap.
\<close>

function gmt_loop :: "(int \<Rightarrow> tm) \<Rightarrow> MYSQL_TIME \<Rightarrow> nat \<Rightarrow> int \<Rightarrow> int \<Rightarrow> nat \<times> int \<times> int" where
  "gmt_loop localtime t loop tmp current_timezone =
     (if loop < 2 \<and> \<not> time_matches t (localtime tmp) then
        let diff = time_diff t (localtime tmp)
        in gmt_loop localtime t (loop + 1) (long_wrap (tmp + diff)) (long_wrap (current_timezone + diff + 3600))
      else (loop, tmp, current_timezone))"
  by auto
termination
  by (relation "measure (\<lambda>(localtime, t, loop, tmp, tz). 2 - loop)") auto

declare gmt_loop.simps [simp del]

definition my_system_gmt_sec :: "(int \<Rightarrow> tm) \<Rightarrow> int \<Rightarrow> MYSQL_TIME \<Rightarrow> int \<times> int option \<times> bool" where
  "my_system_gmt_sec localtime my_time_zone t_src =
     (if \<not> validate_timestamp_range t_src then (0, None, False) else
      let (t, shift) = (if year t_src = TIMESTAMP_MAX_YEAR \<and> month t_src = 1 \<and> day t_src > 4
                        then (t_src\<lparr>day := day t_src - 2\<rparr>, 2) else (t_src, 0));
          tmp = long_wrap ((calc_daynr (year t) (month t) (day t) - days_at_timestart) * 86400 + int (hour t) * 3600 +
                           int (minute t * 60 + second t) + my_time_zone - 3600);
          (loop, tmp, current_timezone) = gmt_loop localtime t 0 tmp my_time_zone;
          l_time = localtime tmp;
          gap = (loop = 2 \<and> int (hour t) \<noteq> tm_hour l_time);
          diff = time_diff t l_time;
          tmp = (if gap then
                   if diff = 3600 then long_wrap (tmp + 3600 - int (minute t) * 60 - int (second t))
                   else if diff = - 3600 then long_wrap (tmp - (int (minute t) * 60 + int (second t)))
                   else tmp
                 else tmp);
          tmp = long_wrap (tmp + shift * 86400)
      in (if tmp < TIMESTAMP_MIN_VALUE \<or> tmp > TIMESTAMP_MAX_VALUE then 0 else tmp, Some current_timezone, gap))"

text \<open>\<open>time\<close> is a parameter too: the current time.\<close>

definition my_init_time :: "(int \<Rightarrow> tm) \<Rightarrow> int \<Rightarrow> int" where
  "my_init_time localtime seconds =
     (let l_time = localtime seconds;
          my_time = zero_time\<lparr>year := uint_wrap (tm_year l_time + 1900), month := uint_wrap (tm_mon l_time + 1),
            day := uint_wrap (tm_mday l_time), hour := uint_wrap (tm_hour l_time), minute := uint_wrap (tm_min l_time),
            second := uint_wrap (tm_sec l_time)\<rparr>
      in case my_system_gmt_sec localtime 3600 my_time of
           (_, Some tz, _) \<Rightarrow> tz
         | (_, None, _) \<Rightarrow> 3600)"

subsection \<open>Times to strings\<close>

function dec_digits :: "nat \<Rightarrow> bytes" where
  "dec_digits n = (if n < 10 then [digit_char n] else dec_digits (n div 10) @ [digit_char (n mod 10)])"
  by auto
termination
  by (relation "measure id") auto

declare dec_digits.simps [simp del]

text \<open>\<open>sprintf\<close> with \<open>"%0<w>u"\<close>.\<close>

definition sprintf_0u :: "nat \<Rightarrow> nat \<Rightarrow> bytes" where
  "sprintf_0u w n = replicate (w - length (dec_digits n)) 48 @ dec_digits n"

definition my_time_to_str :: "MYSQL_TIME \<Rightarrow> bytes" where
  "my_time_to_str l_time =
     (if neg l_time then [45] else []) @ sprintf_0u 2 (hour l_time) @ [58] @ sprintf_0u 2 (minute l_time) @ [58] @
     sprintf_0u 2 (second l_time)"

definition my_date_to_str :: "MYSQL_TIME \<Rightarrow> bytes" where
  "my_date_to_str l_time = sprintf_0u 4 (year l_time) @ [45] @ sprintf_0u 2 (month l_time) @ [45] @ sprintf_0u 2 (day l_time)"

definition my_datetime_to_str :: "MYSQL_TIME \<Rightarrow> bytes" where
  "my_datetime_to_str l_time =
     sprintf_0u 4 (year l_time) @ [45] @ sprintf_0u 2 (month l_time) @ [45] @ sprintf_0u 2 (day l_time) @ [32] @
     sprintf_0u 2 (hour l_time) @ [58] @ sprintf_0u 2 (minute l_time) @ [58] @ sprintf_0u 2 (second l_time)"

definition my_TIME_to_str :: "MYSQL_TIME \<Rightarrow> bytes" where
  "my_TIME_to_str l_time =
     (case time_type l_time of
        MYSQL_TIMESTAMP_DATETIME \<Rightarrow> my_datetime_to_str l_time
      | MYSQL_TIMESTAMP_DATE \<Rightarrow> my_date_to_str l_time
      | MYSQL_TIMESTAMP_TIME \<Rightarrow> my_time_to_str l_time
      | MYSQL_TIMESTAMP_NONE \<Rightarrow> []
      | MYSQL_TIMESTAMP_ERROR \<Rightarrow> [])"

subsection \<open>Numbers\<close>

text \<open>The number in \<open>YYYYMMDDHHMMSS\<close> form and the type of the result; \<^const>\<open>None\<close> jumps to \<open>err\<close>.\<close>

definition number_format :: "int \<Rightarrow> (int \<times> enum_mysql_timestamp_type) option" where
  "number_format nr =
     (if nr = 0 \<or> nr \<ge> 10000101000000 then Some (nr, MYSQL_TIMESTAMP_DATETIME)
      else if nr < 101 then None
      else if nr \<le> (int YY_PART_YEAR - 1) * 10000 + 1231 then Some ((nr + 20000000) * 1000000, MYSQL_TIMESTAMP_DATE)
      else if nr < int YY_PART_YEAR * 10000 + 101 then None
      else if nr \<le> 991231 then Some ((nr + 19000000) * 1000000, MYSQL_TIMESTAMP_DATE)
      else if nr < 10000101 then None
      else if nr \<le> 99991231 then Some (nr * 1000000, MYSQL_TIMESTAMP_DATE)
      else if nr < 101000000 then None
      else if nr \<le> (int YY_PART_YEAR - 1) * 10000000000 + 1231235959 then Some (nr + 20000000000000, MYSQL_TIMESTAMP_DATETIME)
      else if nr < int YY_PART_YEAR * 10000000000 + 101000000 then None
      else if nr \<le> 991231235959 then Some (nr + 19000000000000, MYSQL_TIMESTAMP_DATETIME)
      else Some (nr, MYSQL_TIMESTAMP_DATETIME))"

text \<open>The type an \<open>err\<close> jump leaves in the result.\<close>

definition number_err_type :: "int \<Rightarrow> enum_mysql_timestamp_type" where
  "number_err_type nr = (if nr \<ge> 101000000 then MYSQL_TIMESTAMP_DATETIME else MYSQL_TIMESTAMP_DATE)"

definition split_number :: "int \<Rightarrow> MYSQL_TIME \<Rightarrow> MYSQL_TIME" where
  "split_number nr time_res =
     (let part1 = long_wrap (nr div 1000000);
          part2 = long_wrap (nr - part1 * 1000000);
          rest1 = part1 smod 10000;
          rest2 = part2 smod 10000
      in time_res\<lparr>year := uint_wrap (part1 sdiv 10000), month := uint_wrap (rest1 sdiv 100), day := uint_wrap (rest1 smod 100),
                  hour := uint_wrap (part2 sdiv 10000), minute := uint_wrap (rest2 sdiv 100), second := uint_wrap (rest2 smod 100)\<rparr>)"

definition number_to_datetime :: "int \<Rightarrow> uint32 \<Rightarrow> int \<times> MYSQL_TIME \<times> int" where
  "number_to_datetime nr flags =
     (case number_format nr of
        None \<Rightarrow> (- 1, zero_time\<lparr>time_type := number_err_type nr\<rparr>, 1)
      | Some (nr, t) \<Rightarrow>
          let time_res = split_number nr (zero_time\<lparr>time_type := t\<rparr>);
              in_range = (year time_res \<le> 9999 \<and> month time_res \<le> 12 \<and> day time_res \<le> 31 \<and> hour time_res \<le> 23 \<and>
                          minute time_res \<le> 59 \<and> second time_res \<le> 59);
              (refused, was_cut) = (if in_range then check_date time_res (nr \<noteq> 0) flags 0 else (True, 0))
          in if \<not> refused then (nr, time_res, was_cut)
             else if nr = 0 \<and> flags AND TIME_NO_ZERO_DATE \<noteq> 0 then (- 1, time_res, was_cut)
             else (- 1, time_res, 1))"

definition TIME_to_ulonglong_date :: "MYSQL_TIME \<Rightarrow> nat" where
  "TIME_to_ulonglong_date my_time = (year my_time * 10000 + month my_time * 100 + day my_time) mod 2 ^ 32"

definition TIME_to_ulonglong_time :: "MYSQL_TIME \<Rightarrow> nat" where
  "TIME_to_ulonglong_time my_time = (hour my_time * 10000 + minute my_time * 100 + second my_time) mod 2 ^ 32"

definition TIME_to_ulonglong_datetime :: "MYSQL_TIME \<Rightarrow> nat" where
  "TIME_to_ulonglong_datetime my_time =
     (((year my_time * 10000 + month my_time * 100 + day my_time) mod 2 ^ 32) * 1000000 +
      (hour my_time * 10000 + minute my_time * 100 + second my_time) mod 2 ^ 32) mod 2 ^ 64"

definition TIME_to_ulonglong :: "MYSQL_TIME \<Rightarrow> nat" where
  "TIME_to_ulonglong my_time =
     (case time_type my_time of
        MYSQL_TIMESTAMP_DATETIME \<Rightarrow> TIME_to_ulonglong_datetime my_time
      | MYSQL_TIMESTAMP_DATE \<Rightarrow> TIME_to_ulonglong_date my_time
      | MYSQL_TIMESTAMP_TIME \<Rightarrow> TIME_to_ulonglong_time my_time
      | MYSQL_TIMESTAMP_NONE \<Rightarrow> 0
      | MYSQL_TIMESTAMP_ERROR \<Rightarrow> 0)"

subsection \<open>The calendar is the Gregorian one\<close>

fun days_before_year :: "nat \<Rightarrow> nat" where
  "days_before_year 0 = 0"
| "days_before_year (Suc y) = days_before_year y + calc_days_in_year y"

definition month_length :: "nat \<Rightarrow> nat \<Rightarrow> nat" where
  "month_length y m = (if m = 2 \<and> calc_days_in_year y = 366 then 29 else days_in_month ! (m - 1))"

definition days_before_month :: "nat \<Rightarrow> nat \<Rightarrow> nat" where
  "days_before_month y m = (\<Sum>k\<leftarrow>[1..<m]. month_length y k)"

definition leap :: "nat \<Rightarrow> nat" where
  "leap y = (if calc_days_in_year y = 366 then 1 else 0)"

lemma calc_days_in_year_leap: "calc_days_in_year y = 365 + leap y"
  by (simp add: leap_def calc_days_in_year_def)

lemma calc_days_in_year_cases: "calc_days_in_year y = 365 \<or> calc_days_in_year y = 366"
  by (simp add: calc_days_in_year_def)

lemma leap_step: "0 < y \<Longrightarrow> leap y + (y - 1) div 4 + y div 100 + (y - 1) div 400 = y div 4 + (y - 1) div 100 + y div 400"
proof -
  assume "0 < y"
  then have d: "y div k = (y - 1) div k + (if y mod k = 0 then 1 else 0)" for k
    using div_Suc [of "y - 1" k] mod_Suc [of "y - 1" k] by auto
  have dv: "y mod 100 = 0 \<Longrightarrow> y mod 4 = 0" "y mod 400 = 0 \<Longrightarrow> y mod 100 = 0"
    by (auto simp: mod_eq_0_iff_dvd elim: dvd_trans [rotated])
  have "leap y + (if y mod 100 = 0 then 1 else 0) = (if y mod 4 = 0 then 1 else 0) + (if y mod 400 = 0 then 1 else 0)"
    using dv \<open>0 < y\<close> by (auto simp: leap_def calc_days_in_year_def)
  then show ?thesis unfolding d [of 4] d [of 100] d [of 400] by linarith
qed

lemma days_before_year_closed:
  "days_before_year (Suc y) + y div 100 = 365 * Suc y + y div 4 + y div 400"
proof (induction y)
  case 0
  then show ?case by (simp add: calc_days_in_year_def)
next
  case (Suc y)
  then show ?case using leap_step [of "Suc y"] by (simp add: calc_days_in_year_leap)
qed

lemma century_correction: "(y div 100 + 1) * 3 div 4 + y div 400 = (y div 100 :: nat)"
proof -
  define c where "c = y div 100"
  have "y div 400 = c div 4" unfolding c_def div_mult2_eq [symmetric] by simp
  moreover have "(c + 1) * 3 div 4 + c div 4 = c" by arith
  ultimately show ?thesis by (simp add: c_def)
qed

lemma days_before_month_closed:
  assumes "1 \<le> m" "m \<le> 12"
  shows "days_before_month y m + (if m \<le> 2 then 0 else (m * 4 + 23) div 10) = 31 * (m - 1) + (if m \<le> 2 then 0 else leap y)"
proof -
  have "m \<in> {1, 2, 3, 4, 5, 6, 7, 8, 9, 10, 11, 12}" using assms by (auto simp: numeral_eq_Suc le_Suc_eq)
  then show ?thesis
    using calc_days_in_year_cases [of y]
    by (elim insertE emptyE) (auto simp: leap_def days_before_month_def month_length_def days_in_month_def upt_rec)
qed

lemma days_before_year_leap: "days_before_year y + leap y + y div 100 = 365 * y + y div 4 + y div 400"
proof (cases y)
  case 0
  then show ?thesis by (simp add: leap_def calc_days_in_year_def)
next
  case (Suc k)
  then show ?thesis using leap_step [of y] days_before_year_closed [of k] by simp
qed

lemma days_before_year_le: "days_before_year y \<le> 366 * y"
  by (induction y) (simp_all add: calc_days_in_year_def)

lemma daynr_sum:
  "B + L + a = P + b + c \<Longrightarrow> t + c = a \<Longrightarrow> M + q = N + L \<Longrightarrow>
   int (P + N + d) - int q + int b - int t = int (B + M + d)"
  by linarith

text \<open>
  C38: \<open>calc_daynr\<close> counts days: for every month and day of a year up to 9999 it is the number of days in the
  years before (by \<open>calc_days_in_year\<close>), in the months before and in the month.
\<close>

theorem calc_daynr_correct:
  assumes "y \<le> 9999" "1 \<le> m" "m \<le> 12" "d \<le> 31"
  shows "calc_daynr y m d = int (days_before_year y + days_before_month y m + d)"
proof -
  have y: "long_wrap (int y) = int y" using assms(1) by (simp add: long_wrap_small)
  have sum: "long_wrap (365 * int y + 31 * (int m - 1) + int d) = int (365 * y + 31 * (m - 1) + d)"
    using assms by (simp add: long_wrap_small of_nat_diff)
  note mon = days_before_month_closed [OF assms(2,3), of y]
  have mz: "m \<noteq> 0" using assms(2) by simp
  have "leap y \<le> 1" by (simp add: leap_def)
  then have "days_before_month y m \<le> 31 * 12" using mon assms(3) by (cases "m \<le> 2") auto
  then have "days_before_year y + days_before_month y m + d < 2147483648"
    using days_before_year_le [of y] assms by linarith
  then have small: "long_wrap (int (days_before_year y + days_before_month y m + d)) =
      int (days_before_year y + days_before_month y m + d)"
    by (intro long_wrap_small) linarith+
  show ?thesis
  proof (cases "m \<le> 2")
    case False
    let ?t = "int ((y div 100 + 1) * 3 div 4)"
    have t: "((int y sdiv 100 + 1) * 3) sdiv 4 = ?t" "int y sdiv 4 = int (y div 4)"
      using int_sdiv [of y 100] int_sdiv [of "(y div 100 + 1) * 3" 4] int_sdiv [of y 4] by (simp_all add: algebra_simps)
    have eq: "int (365 * y + 31 * (m - 1) + d) - int ((m * 4 + 23) div 10) + int (y div 4) - ?t =
        int (days_before_year y + days_before_month y m + d)" (is "?l = ?r")
      using mon False by (intro daynr_sum [OF days_before_year_leap century_correction]) simp
    have "long_wrap ?l = ?r"
      unfolding eq by (rule small)
    moreover have "long_wrap (int (m * 4 + 23)) sdiv 10 = int ((m * 4 + 23) div 10)"
      using int_sdiv [of "m * 4 + 23" 10] long_wrap_small [of "int (m * 4 + 23)"] assms(3) by simp
    ultimately show ?thesis
      unfolding calc_daynr_def y Let_def sum by (simp only: mz False simp_thms if_False prod.case t)
  next
    case True
    show ?thesis
    proof (cases y)
      case 0
      have "(- 1 :: int) sdiv 100 = 0" "(- 1 :: int) sdiv 4 = 0" "(3 :: int) sdiv 4 = 0"
        by (simp_all add: signed_divide_int_def)
      then show ?thesis
        using True assms(2,4) mon sum y unfolding calc_daynr_def Let_def 0 by (simp add: long_wrap_small)
    next
      case (Suc k)
      let ?t = "int ((k div 100 + 1) * 3 div 4)"
      have k: "long_wrap (int y - 1) = int k" using Suc assms(1) by (simp add: long_wrap_small)
      have t: "((int k sdiv 100 + 1) * 3) sdiv 4 = ?t" "int k sdiv 4 = int (k div 4)"
        using int_sdiv [of k 100] int_sdiv [of "(k div 100 + 1) * 3" 4] int_sdiv [of k 4] by (simp_all add: algebra_simps)
      have "days_before_year y + 0 + k div 100 = 365 * y + k div 4 + k div 400"
        using days_before_year_closed [of k] Suc by simp
      then have eq: "int (365 * y + 31 * (m - 1) + d) + int (k div 4) - ?t =
          int (days_before_year y + days_before_month y m + d)" (is "?l = ?r")
        using mon True daynr_sum [OF _ century_correction, of _ 0 _ _ k _ 0] by simp
      have "long_wrap ?l = ?r"
        unfolding eq by (rule small)
      then show ?thesis unfolding calc_daynr_def y Let_def sum by (simp only: mz True simp_thms if_False if_True prod.case t k)
    qed
  qed
qed

theorem calc_daynr_correct_witness:
  "calc_daynr 2000 3 1 = int (days_before_year 2000 + days_before_month 2000 3 + 1)"
  using calc_daynr_correct [of 2000 3 1] by simp

subsection \<open>Printing and reading a date\<close>

lemma digit_char_0: "digit_char 0 = 48"
  by (simp add: digit_char_def)

lemma dec_digits_1: "n < 10 \<Longrightarrow> dec_digits n = [digit_char n]"
  by (subst dec_digits.simps) simp

lemma dec_digits_more: "10 \<le> n \<Longrightarrow> dec_digits n = dec_digits (n div 10) @ [digit_char (n mod 10)]"
  by (subst dec_digits.simps) simp

lemma sprintf_02u: "n < 100 \<Longrightarrow> sprintf_0u 2 n = [digit_char (n div 10), digit_char (n mod 10)]"
  by (cases "n < 10") (simp_all add: sprintf_0u_def dec_digits_1 dec_digits_more digit_char_0)

lemma sprintf_04u:
  assumes "n < 10000"
  shows "sprintf_0u 4 n = [digit_char (n div 1000), digit_char (n div 100 mod 10), digit_char (n div 10 mod 10), digit_char (n mod 10)]"
proof -
  have r: "replicate 3 (48 :: uchar) = [48, 48, 48]" "replicate 2 (48 :: uchar) = [48, 48]" by (simp_all add: numeral_eq_Suc)
  consider "n < 10" | "10 \<le> n" "n < 100" | "100 \<le> n" "n < 1000" | "1000 \<le> n" by linarith
  then show ?thesis
  proof cases
    case 1
    then show ?thesis by (simp add: sprintf_0u_def dec_digits_1 digit_char_0 r)
  next
    case 2
    then have "n div 10 < 10" by simp
    with 2 show ?thesis by (simp add: sprintf_0u_def dec_digits_1 dec_digits_more digit_char_0 r)
  next
    case 3
    then have "n div 10 div 10 < 10" "10 \<le> n div 10" by simp_all
    with 3 show ?thesis
      by (simp add: sprintf_0u_def dec_digits_1 dec_digits_more digit_char_0 div_mult2_eq [symmetric])
  next
    case 4
    then have "n div 10 div 10 div 10 < 10" "10 \<le> n div 10 div 10" "10 \<le> n div 10" using assms by simp_all
    with 4 show ?thesis
      by (simp add: sprintf_0u_def dec_digits_1 dec_digits_more div_mult2_eq [symmetric])
  qed
qed

lemma format_position_later: "i < 7 \<Longrightarrow> internal_format_positions ! (i + 1) \<noteq> 0"
  by (auto simp: internal_format_positions_def less_Suc_eq numeral_eq_Suc)

lemma format_positions [simp]:
  "internal_format_positions ! 0 = 0" "internal_format_positions ! 2 = 2" "internal_format_positions ! 5 = 5"
  "internal_format_positions ! 6 = 6"
  by (simp_all add: internal_format_positions_def)

lemma bit_allow_space: "bit allow_space i \<longleftrightarrow> i = 2"
proof -
  have a: "allow_space = 2 ^ 2" by (simp add: allow_space_def internal_format_positions_def)
  show ?thesis unfolding a bit_exp_iff by auto
qed

text \<open>The scan of one field of two digits, up to the delimiter and the first digit of the next field.\<close>

definition next_field :: "scan_state \<Rightarrow> nat \<Rightarrow> nat \<Rightarrow> bool \<Rightarrow> bytes \<Rightarrow> scan_state" where
  "next_field s n len space str =
     s\<lparr>sc_field_length := 2, sc_date := sc_date s @ [n], sc_date_len := sc_date_len s @ [len],
       sc_not_zero_date := (sc_not_zero_date s \<or> n \<noteq> 0), sc_i := sc_i s + 1, sc_found_delimitier := True,
       sc_found_space := (sc_found_space s \<or> space), sc_last_field_pos := str\<rparr>"

definition separator :: "nat \<Rightarrow> uchar \<Rightarrow> bool" where
  "separator i c \<longleftrightarrow> (my_ispunct_latin1 c \<or> i = 2 \<and> my_isspace_latin1 c) \<and> \<not> my_isdigit_latin1 c \<and> c \<noteq> 84 \<and>
     (my_isspace_latin1 c \<longrightarrow> i = 2)"

lemma scan_field_step:
  assumes "sc_i s < 5" "scan_digits True (sc_field_length s) (digit_value (hd ds)) (tl (ds @ c # rest)) = (n, c # rest)"
    "ds \<noteq> []" "my_isdigit_latin1 (hd ds)" "n \<le> 999999" "separator (sc_i s) c"
    "rest \<noteq> []" "\<not> my_ispunct_latin1 (hd rest)" "\<not> my_isspace_latin1 (hd rest)"
  shows "scan_fields False s (ds @ c # rest) =
    scan_fields False (next_field s n (length ds) (my_isspace_latin1 c) rest) rest"
proof -
  obtain r rs where rest: "rest = r # rs" using assms(7) by (cases rest) auto
  have fl: "internal_format_positions ! (sc_i s + 1) \<noteq> 0" using assms(1) by (intro format_position_later) simp
  have d: "skip_delimiters (bit allow_space (sc_i s)) fd fs (c # rest) = Some (True, fs \<or> my_isspace_latin1 c, rest)" for fd fs
    using assms(6,8,9) by (auto simp: separator_def bit_allow_space rest)
  show ?thesis
    using assms fl
    by (subst scan_fields.simps) (simp add: d next_field_def separator_def del: skip_delimiters.simps)
qed

lemma scan_two_digits:
  assumes "n < 100" "sc_i s < 5" "separator (sc_i s) c" "rest \<noteq> []" "\<not> my_ispunct_latin1 (hd rest)" "\<not> my_isspace_latin1 (hd rest)"
  shows "scan_fields False s (sprintf_0u 2 n @ c # rest) = scan_fields False (next_field s n 2 (my_isspace_latin1 c) rest) rest"
proof -
  have d: "n div 10 < 10" using assms(1) by simp
  have sd: "scan_digits True (sc_field_length s) (digit_value (hd (sprintf_0u 2 n))) (tl (sprintf_0u 2 n @ c # rest)) = (n, c # rest)"
    using assms(1,3) d by (simp add: sprintf_02u separator_def)
  have p: "sprintf_0u 2 n \<noteq> []" "my_isdigit_latin1 (hd (sprintf_0u 2 n))" "length (sprintf_0u 2 n) = 2" "n \<le> 999999"
    using assms(1) d by (simp_all add: sprintf_02u)
  show ?thesis using scan_field_step [OF assms(2) sd p(1,2,4) assms(3-6)] unfolding p(3) .
qed

lemma scan_four_digits:
  assumes "n < 10000" "sc_i s < 5" "separator (sc_i s) c" "rest \<noteq> []" "\<not> my_ispunct_latin1 (hd rest)" "\<not> my_isspace_latin1 (hd rest)"
  shows "scan_fields False s (sprintf_0u 4 n @ c # rest) = scan_fields False (next_field s n 4 (my_isspace_latin1 c) rest) rest"
proof -
  have d: "n div 1000 < 10" using assms(1) by simp
  have "((n div 1000 * 10 + n div 100 mod 10) * 10 + n div 10 mod 10) * 10 + n mod 10 = n"
  proof -
    have "n div 1000 * 10 + n div 100 mod 10 = n div 100" using div_mult2_eq [of n 100 10] by simp
    moreover have "n div 100 * 10 + n div 10 mod 10 = n div 10" using div_mult2_eq [of n 10 10] by simp
    ultimately show ?thesis by simp
  qed
  then have v: "n div 1000 * 1000 + (n div 100 mod 10 * 100 + (n div 10 mod 10 * 10 + n mod 10)) = n" by simp
  have sd: "scan_digits True (sc_field_length s) (digit_value (hd (sprintf_0u 4 n))) (tl (sprintf_0u 4 n @ c # rest)) = (n, c # rest)"
    using assms(1,3) d v by (simp add: sprintf_04u separator_def algebra_simps)
  have p: "sprintf_0u 4 n \<noteq> []" "my_isdigit_latin1 (hd (sprintf_0u 4 n))" "length (sprintf_0u 4 n) = 4" "n \<le> 999999"
    using assms(1) d by (simp_all add: sprintf_04u)
  show ?thesis using scan_field_step [OF assms(2) sd p(1,2,4) assms(3-6)] unfolding p(3) .
qed

lemma scan_last_two_digits:
  assumes "n < 100" "sc_i s = 5"
  shows "scan_fields False s (sprintf_0u 2 n) =
    Some (s\<lparr>sc_i := 6, sc_field_length := 2, sc_date := sc_date s @ [n], sc_date_len := sc_date_len s @ [2],
            sc_not_zero_date := (sc_not_zero_date s \<or> n \<noteq> 0), sc_last_field_pos := []\<rparr>)"
proof -
  have d: "n div 10 < 10" using assms(1) by simp
  have "scan_digits True fl (n div 10) [digit_char (n mod 10)] = (n, [])" for fl
    using assms(1) by (simp add: mod_less)
  then show ?thesis
    using assms d format_position_later [of 5] by (subst scan_fields.simps) (simp add: sprintf_02u)
qed

text \<open>A full date and time in the ranges of the type, without a fraction.\<close>

definition valid_datetime :: "MYSQL_TIME \<Rightarrow> bool" where
  "valid_datetime t \<longleftrightarrow>
     year t \<le> 9999 \<and> 1 \<le> month t \<and> month t \<le> 12 \<and> 1 \<le> day t \<and> day t \<le> month_length (year t) (month t) \<and>
     hour t \<le> 23 \<and> minute t \<le> 59 \<and> second t \<le> 59 \<and> second_part t = 0 \<and> \<not> neg t \<and>
     time_type t = MYSQL_TIMESTAMP_DATETIME"

lemma month_length_le: "1 \<le> m \<Longrightarrow> m \<le> 12 \<Longrightarrow> month_length y m \<le> 31"
proof -
  assume "1 \<le> m" "m \<le> 12"
  then have "m \<in> {1, 2, 3, 4, 5, 6, 7, 8, 9, 10, 11, 12}" by (auto simp: numeral_eq_Suc le_Suc_eq)
  then show ?thesis by (elim insertE emptyE) (simp_all add: month_length_def days_in_month_def)
qed

lemma check_date_valid:
  assumes "1 \<le> month t" "1 \<le> day t" "day t \<le> month_length (year t) (month t)"
  shows "check_date t True flags w = (False, w)"
  using assms by (auto simp: check_date_def month_length_def days_in_month_def split: if_splits)

lemma sprintf_02u_first:
  assumes "n < 100"
  shows "sprintf_0u 2 n @ xs \<noteq> []" "\<not> my_ispunct_latin1 (hd (sprintf_0u 2 n @ xs))" "\<not> my_isspace_latin1 (hd (sprintf_0u 2 n @ xs))"
  using assms by (simp_all add: sprintf_02u)

lemma separators: "separator i 45" "separator 2 32" "separator i 58" "\<not> my_isspace_latin1 45" "my_isspace_latin1 32" "\<not> my_isspace_latin1 58"
  by (simp_all add: separator_def my_ispunct_latin1_def my_isspace_latin1_def my_isdigit_latin1_def)

lemma scan_datetime:
  assumes "valid_datetime t" and s: "s = \<lparr>sc_i = 0, sc_field_length = fl, sc_date = [], sc_date_len = [], sc_not_zero_date = False,
    sc_found_delimitier = False, sc_found_space = False, sc_last_field_pos = str\<rparr>"
  shows "\<exists>s'. scan_fields False s (my_datetime_to_str t) = Some s' \<and> sc_i s' = 6 \<and> sc_found_space s' \<and> sc_not_zero_date s' \<and>
     sc_date s' = [year t, month t, day t, hour t, minute t, second t] \<and> sc_date_len s' = [4, 2, 2, 2, 2, 2] \<and> sc_last_field_pos s' = []"
proof -
  have b: "year t < 10000" "month t < 100" "day t < 100" "hour t < 100" "minute t < 100" "second t < 100" "month t \<noteq> 0"
    using assms(1) month_length_le [of "month t" "year t"] by (auto simp: valid_datetime_def)
  define r5 where "r5 = sprintf_0u 2 (second t)"
  define r4 where "r4 = sprintf_0u 2 (minute t) @ 58 # r5"
  define r3 where "r3 = sprintf_0u 2 (hour t) @ 58 # r4"
  define r2 where "r2 = sprintf_0u 2 (day t) @ 32 # r3"
  define r1 where "r1 = sprintf_0u 2 (month t) @ 45 # r2"
  have str: "my_datetime_to_str t = sprintf_0u 4 (year t) @ 45 # r1"
    by (simp add: my_datetime_to_str_def r1_def r2_def r3_def r4_def r5_def)
  note first = sprintf_02u_first [OF b(2), of "45 # r2", folded r1_def] sprintf_02u_first [OF b(3), of "32 # r3", folded r2_def]
    sprintf_02u_first [OF b(4), of "58 # r4", folded r3_def] sprintf_02u_first [OF b(5), of "58 # r5", folded r4_def]
    sprintf_02u_first [OF b(6), of "[]", simplified, folded r5_def]
  define s1 where "s1 = next_field s (year t) 4 False r1"
  define s2 where "s2 = next_field s1 (month t) 2 False r2"
  define s3 where "s3 = next_field s2 (day t) 2 True r3"
  define s4 where "s4 = next_field s3 (hour t) 2 False r4"
  define s5 where "s5 = next_field s4 (minute t) 2 False r5"
  note defs = s1_def s2_def s3_def s4_def s5_def next_field_def s
  have i: "sc_i s = 0" "sc_i s1 = 1" "sc_i s2 = 2" "sc_i s3 = 3" "sc_i s4 = 4" "sc_i s5 = 5" by (simp_all add: defs)
  have "scan_fields False s (my_datetime_to_str t) = scan_fields False s1 r1"
    unfolding str s1_def using scan_four_digits [OF b(1), of s 45 r1] i(1) first separators by simp
  also have "\<dots> = scan_fields False s2 r2"
    unfolding s2_def using scan_two_digits [OF b(2), of s1 45 r2] i(2) first separators by (simp add: r1_def)
  also have "\<dots> = scan_fields False s3 r3"
    unfolding s3_def using scan_two_digits [OF b(3), of s2 32 r3] i(3) first separators by (simp add: r2_def)
  also have "\<dots> = scan_fields False s4 r4"
    unfolding s4_def using scan_two_digits [OF b(4), of s3 58 r4] i(4) first separators by (simp add: r3_def)
  also have "\<dots> = scan_fields False s5 r5"
    unfolding s5_def using scan_two_digits [OF b(5), of s4 58 r5] i(5) first separators by (simp add: r4_def)
  finally show ?thesis
    using scan_last_two_digits [OF b(6) i(6)] b(7) by (simp add: r5_def) (simp add: defs)
qed

lemma datetime_str_start:
  assumes "year t < 10000"
  obtains c str where "my_datetime_to_str t = c # str" "my_isdigit_latin1 c" "\<not> my_isspace_latin1 c"
    "hd (dropWhile (\<lambda>c. my_isdigit_latin1 c \<or> c = 84) (my_datetime_to_str t)) = 45"
    "dropWhile (\<lambda>c. my_isdigit_latin1 c \<or> c = 84) (my_datetime_to_str t) \<noteq> []"
proof -
  have d: "year t div 1000 < 10" using assms by simp
  have n: "\<not> my_isdigit_latin1 45" by (simp add: my_isdigit_latin1_def)
  show thesis
    using that [of "digit_char (year t div 1000)"] d n assms by (simp add: my_datetime_to_str_def sprintf_04u)
qed

text \<open>
  C36: Reading back what was printed: for every valid date and time, whatever the flags and whatever the
  destination held before, \<open>str_to_datetime\<close> on the text of \<open>my_datetime_to_str\<close> gives that date and time,
  typed as such, with nothing cut off. The year 0 is included: the comment of \<open>check_date\<close> says that it disallows dates
  with a zero year and a non-zero month or day, but the code does not look at the year.
\<close>

theorem datetime_str_roundtrip:
  assumes "valid_datetime t"
  shows "str_to_datetime (my_datetime_to_str t) l_time flags = (MYSQL_TIMESTAMP_DATETIME, t, 0)"
proof -
  have r: "year t \<le> 9999" "1 \<le> month t" "month t \<le> 12" "1 \<le> day t" "day t \<le> month_length (year t) (month t)" "day t \<le> 31"
    "hour t \<le> 23" "minute t \<le> 59" "second t \<le> 59" "second_part t = 0" "\<not> neg t" "time_type t = MYSQL_TIMESTAMP_DATETIME"
    using assms month_length_le [of "month t" "year t"] by (auto simp: valid_datetime_def)
  obtain c str where str: "my_datetime_to_str t = c # str" "my_isdigit_latin1 c" "\<not> my_isspace_latin1 c"
    "hd (dropWhile (\<lambda>c. my_isdigit_latin1 c \<or> c = 84) (my_datetime_to_str t)) = 45"
    "dropWhile (\<lambda>c. my_isdigit_latin1 c \<or> c = 84) (my_datetime_to_str t) \<noteq> []"
    using datetime_str_start [of t] r(1) by auto
  obtain s where s: "scan_fields False \<lparr>sc_i = 0, sc_field_length = 4, sc_date = [], sc_date_len = [], sc_not_zero_date = False,
      sc_found_delimitier = False, sc_found_space = False, sc_last_field_pos = my_datetime_to_str t\<rparr> (my_datetime_to_str t) = Some s"
    "sc_i s = 6" "sc_found_space s" "sc_not_zero_date s" "sc_date s = [year t, month t, day t, hour t, minute t, second t]"
    "sc_date_len s = [4, 2, 2, 2, 2, 2]" "sc_last_field_pos s = []"
    using scan_datetime [OF assms refl] by blast
  have rep: "replicate 2 (0 :: nat) = [0, 0]" by (simp add: numeral_eq_Suc)
  have skip: "skip_spaces (my_datetime_to_str t) = my_datetime_to_str t" using str(1,3) by simp
  define T where "T = fields_to_time [year t, month t, day t, hour t, minute t, second t, 0, 0] [4, 2, 2, 2, 2, 2, 0, 0] l_time"
  have T: "year T = year t" "month T = month t" "day T = day t" "hour T = hour t" "minute T = minute t" "second T = second t"
    "T\<lparr>time_type := MYSQL_TIMESTAMP_DATETIME\<rparr> = t"
    using r(10-12) by (simp_all add: T_def fields_to_time_def)
  have chk: "check_date T True flags 0 = (False, 0)" using r T by (intro check_date_valid) simp_all
  have "finish_datetime False iy s l_time flags = (MYSQL_TIMESTAMP_DATETIME, t, 0)" for iy
    using r T(1-6) chk unfolding finish_datetime_def by (simp add: s(2-7) rep T_def [symmetric] T(7) Let_def)
  moreover have "my_datetime_to_str t \<noteq> []" "my_isdigit_latin1 (hd (my_datetime_to_str t))" using str(1,2) by simp_all
  ultimately show ?thesis
    unfolding str_to_datetime_def skip Let_def using str(4,5) s(1) by (simp del: dropWhile_eq_Nil_conv)
qed

definition sample_datetime :: MYSQL_TIME where
  "sample_datetime = \<lparr>year = 2004, month = 2, day = 29, hour = 23, minute = 59, second = 7, second_part = 0, neg = False,
     time_type = MYSQL_TIMESTAMP_DATETIME\<rparr>"

lemma sample_datetime_valid: "valid_datetime sample_datetime"
  by (simp add: valid_datetime_def sample_datetime_def month_length_def calc_days_in_year_def days_in_month_def)

theorem datetime_str_roundtrip_witness:
  "str_to_datetime (my_datetime_to_str sample_datetime) zero_time TIME_NO_ZERO_DATE = (MYSQL_TIMESTAMP_DATETIME, sample_datetime, 0)"
  using datetime_str_roundtrip [OF sample_datetime_valid] by blast

subsection \<open>What a parsed date can be\<close>

text \<open>The ranges of the fields a successful parse leaves, and what the flags exclude.\<close>

definition time_all_zero :: "MYSQL_TIME \<Rightarrow> bool" where
  "time_all_zero t \<longleftrightarrow> year t = 0 \<and> month t = 0 \<and> day t = 0 \<and> hour t = 0 \<and> minute t = 0 \<and> second t = 0 \<and> second_part t = 0"

definition time_ok :: "uint32 \<Rightarrow> MYSQL_TIME \<Rightarrow> bool" where
  "time_ok flags t \<longleftrightarrow>
     year t \<le> 9999 \<and> month t \<le> 12 \<and> day t \<le> 31 \<and> hour t \<le> 23 \<and> minute t \<le> 59 \<and> second t \<le> 59 \<and> second_part t \<le> 999999 \<and>
     \<not> neg t \<and>
     (flags AND TIME_INVALID_DATES = 0 \<and> month t \<noteq> 0 \<longrightarrow> day t \<le> month_length (year t) (month t)) \<and>
     (flags AND TIME_NO_ZERO_IN_DATE \<noteq> 0 \<or> flags AND TIME_FUZZY_DATE = 0 \<longrightarrow> month t \<noteq> 0 \<and> day t \<noteq> 0 \<or> time_all_zero t) \<and>
     (flags AND TIME_NO_ZERO_DATE \<noteq> 0 \<longrightarrow> \<not> time_all_zero t)"

definition scan_ok :: "scan_state \<Rightarrow> bool" where
  "scan_ok s \<longleftrightarrow>
     length (sc_date_len s) = length (sc_date s) \<and> length (sc_date s) \<le> 7 \<and> length (sc_date s) \<le> sc_i s \<and>
     (\<forall>(n, k) \<in> set (zip (sc_date s) (sc_date_len s)). n \<le> 999999 \<and> (k < 6 \<longrightarrow> n < 10 ^ k)) \<and>
     (sc_not_zero_date s \<longleftrightarrow> (\<exists>n \<in> set (sc_date s). n \<noteq> 0))"

lemma digit_value_less: "my_isdigit_latin1 c \<Longrightarrow> digit_value c < 10"
  unfolding my_isdigit_latin1_def digit_value_def by (cases c) (auto simp: unat_sub word_le_nat_alt)

lemma scan_digits_bound:
  "scan_digits until fl v str = (n, rest) \<Longrightarrow> v < 10 ^ k \<Longrightarrow>
   length rest \<le> length str \<and> (k + (length str - length rest) < 6 \<longrightarrow> n < 10 ^ (k + (length str - length rest)))"
proof (induction str arbitrary: fl v k)
  case Nil
  then show ?case by simp
next
  case (Cons c str)
  show ?case
  proof (cases "my_isdigit_latin1 c \<and> (until \<or> fl - 1 \<noteq> 0)")
    case False
    then show ?thesis using Cons.prems by auto
  next
    case True
    then have "v * 10 + digit_value c < 10 ^ Suc k"
      using Cons.prems(2) digit_value_less [of c] by simp
    then have "(v * 10 + digit_value c) mod 2 ^ 32 < 10 ^ Suc k" by (meson le_less_trans mod_less_eq_dividend)
    moreover have "scan_digits until (fl - 1) ((v * 10 + digit_value c) mod 2 ^ 32) str = (n, rest)"
      using Cons.prems(1) True by (simp only: scan_digits.simps if_True simp_thms)
    ultimately have "length rest \<le> length str \<and> (Suc k + (length str - length rest) < 6 \<longrightarrow> n < 10 ^ (Suc k + (length str - length rest)))"
      by (intro Cons.IH)
    moreover from this have "k + (length (c # str) - length rest) = Suc k + (length str - length rest)" by (simp add: Suc_diff_le)
    ultimately show ?thesis by (simp only: list.size) auto
  qed
qed

definition field_read :: "scan_state \<Rightarrow> nat \<Rightarrow> nat \<Rightarrow> scan_state \<Rightarrow> bool" where
  "field_read s n k s' \<longleftrightarrow> sc_date s' = sc_date s @ [n] \<and> sc_date_len s' = sc_date_len s @ [k] \<and>
     (sc_not_zero_date s' \<longleftrightarrow> sc_not_zero_date s \<or> n \<noteq> 0) \<and> sc_i s < sc_i s' \<and> sc_i s < 7"

lemma scan_fields_step:
  assumes "scan_fields f s str = Some s'"
  shows "s' = s \<or> (\<exists>n k s2. n \<le> 999999 \<and> (k < 6 \<longrightarrow> n < 10 ^ k) \<and> field_read s n k s2 \<and> (s' = s2 \<or> (\<exists>str2. scan_fields f s2 str2 = Some s')))"
proof (cases "sc_i s < 7 \<and> str \<noteq> [] \<and> my_isdigit_latin1 (hd str)")
  case False
  then show ?thesis using assms by (subst (asm) scan_fields.simps) auto
next
  case True
  obtain n str1 where sd: "scan_digits (\<not> f \<and> sc_i s \<noteq> internal_format_positions ! 6) (sc_field_length s) (digit_value (hd str)) (tl str) = (n, str1)"
    by fastforce
  have "digit_value (hd str) < 10 ^ 1" using digit_value_less True by simp
  from scan_digits_bound [OF sd this] True
  have k: "length str - length str1 < 6 \<longrightarrow> n < 10 ^ (length str - length str1)" by (cases str) (auto simp: Suc_diff_le)
  define s2 where "s2 = s\<lparr>sc_i := sc_i s + 1, sc_field_length := (if internal_format_positions ! (sc_i s + 1) = 0 then 4 else 2),
                  sc_date := sc_date s @ [n], sc_date_len := sc_date_len s @ [length str - length str1],
                  sc_not_zero_date := (sc_not_zero_date s \<or> n \<noteq> 0), sc_last_field_pos := str1\<rparr>"
  note unf = assms [unfolded scan_fields.simps [of f s str] Let_def if_P [OF True] sd prod.case s2_def [symmetric]]
  have n: "n \<le> 999999" using unf by (auto split: if_splits)
  have fr: "field_read s n (length str - length str1) s2" using True by (simp add: field_read_def s2_def)
  have fr1: "field_read s n (length str - length str1) (s2\<lparr>sc_field_length := 6\<rparr>)"
    "field_read s n (length str - length str1) (s2\<lparr>sc_i := (if sc_i s = internal_format_positions ! 6 then sc_i s + 2 else sc_i s + 1),
       sc_found_delimitier := fd, sc_found_space := fs, sc_last_field_pos := str2\<rparr>)" for fd fs str2
    using True by (simp_all add: field_read_def s2_def)
  have "s' = s2 \<or> (\<exists>s2' str2. field_read s n (length str - length str1) s2' \<and> scan_fields f s2' str2 = Some s')"
    using unf fr fr1 by (auto split: if_splits option.splits)
  then show ?thesis using n k fr by blast
qed

lemma field_read_ok: "scan_ok s \<Longrightarrow> field_read s n k s2 \<Longrightarrow> n \<le> 999999 \<Longrightarrow> (k < 6 \<longrightarrow> n < 10 ^ k) \<Longrightarrow> scan_ok s2"
  unfolding scan_ok_def field_read_def by (auto simp: zip_append)

lemma scan_fields_ok: "scan_fields f s str = Some s' \<Longrightarrow> scan_ok s \<Longrightarrow> scan_ok s'"
proof (induction "7 - sc_i s" arbitrary: s str rule: less_induct)
  case less
  from scan_fields_step [OF less.prems(1)] consider "s' = s"
    | n k s2 where "n \<le> 999999" "k < 6 \<longrightarrow> n < 10 ^ k" "field_read s n k s2" "s' = s2 \<or> (\<exists>str2. scan_fields f s2 str2 = Some s')"
    by blast
  then show ?case
  proof cases
    case 2
    then have "scan_ok s2" using field_read_ok less.prems(2) by blast
    moreover have "7 - sc_i s2 < 7 - sc_i s" using 2(3) by (auto simp: field_read_def)
    ultimately show ?thesis using less.hyps 2(4) by blast
  qed (use less.prems in simp)
qed

definition pad_fields :: "nat list \<Rightarrow> nat list" where
  "pad_fields xs = xs @ replicate (8 - length xs) 0"

lemma log_10_int_power: "k \<le> 6 \<Longrightarrow> log_10_int k = 10 ^ k"
proof -
  assume "k \<le> 6"
  then have "k \<in> {0, 1, 2, 3, 4, 5, 6}" by (auto simp: numeral_eq_Suc le_Suc_eq)
  then show ?thesis by (elim insertE emptyE) (simp_all add: log_10_int_def)
qed

lemma pad_fields_ok:
  assumes "scan_ok s" "i < 8"
  shows "pad_fields (sc_date s) ! i \<le> 999999"
    "pad_fields (sc_date_len s) ! i < 6 \<Longrightarrow> pad_fields (sc_date s) ! i < 10 ^ (pad_fields (sc_date_len s) ! i)"
proof -
  have l: "length (sc_date_len s) = length (sc_date s)" using assms(1) by (simp add: scan_ok_def)
  have "i < length (sc_date s) \<Longrightarrow> (sc_date s ! i, sc_date_len s ! i) \<in> set (zip (sc_date s) (sc_date_len s))"
    using l by (auto simp: set_zip)
  then have b: "i < length (sc_date s) \<Longrightarrow> sc_date s ! i \<le> 999999 \<and> (sc_date_len s ! i < 6 \<longrightarrow> sc_date s ! i < 10 ^ (sc_date_len s ! i))"
    using assms(1) unfolding scan_ok_def by blast
  show "pad_fields (sc_date s) ! i \<le> 999999"
    "pad_fields (sc_date_len s) ! i < 6 \<Longrightarrow> pad_fields (sc_date s) ! i < 10 ^ (pad_fields (sc_date_len s) ! i)"
    using b l assms(2) by (auto simp: pad_fields_def nth_append)
qed

lemma pad_fields_zero:
  assumes "scan_ok s"
  shows "sc_not_zero_date s \<longleftrightarrow> (\<exists>i < 7. pad_fields (sc_date s) ! i \<noteq> 0)"
proof -
  have "length (sc_date s) \<le> 7" "sc_not_zero_date s \<longleftrightarrow> (\<exists>n \<in> set (sc_date s). n \<noteq> 0)" using assms by (simp_all add: scan_ok_def)
  moreover have "(\<exists>n \<in> set (sc_date s). n \<noteq> 0) \<longleftrightarrow> (\<exists>i < length (sc_date s). sc_date s ! i \<noteq> 0)"
    by (metis in_set_conv_nth)
  ultimately show ?thesis
    by (auto simp: pad_fields_def nth_append split: if_splits intro: less_le_trans)
qed

lemma seven_fields: "(\<exists>i < 7. P i) \<longleftrightarrow> P 0 \<or> P 1 \<or> P 2 \<or> P 3 \<or> P 4 \<or> P 5 \<or> P (6 :: nat)"
  by (auto simp: numeral_eq_Suc less_Suc_eq)

lemma fields_to_time_ok:
  assumes "scan_ok s" and t: "t = fields_to_time (pad_fields (sc_date s)) (pad_fields (sc_date_len s)) l"
  shows "second_part t \<le> 999999" "\<not> neg t" "\<not> sc_not_zero_date s \<longleftrightarrow> time_all_zero t"
proof -
  let ?n = "pad_fields (sc_date s) ! 6" and ?k = "pad_fields (sc_date_len s) ! 6"
  have sp: "second_part t = (if ?k < 6 then ?n * 10 ^ (6 - ?k) else ?n)"
    using log_10_int_power [of "6 - ?k"] by (simp add: t fields_to_time_def)
  have "?k < 6 \<Longrightarrow> ?n * 10 ^ (6 - ?k) < 10 ^ ?k * 10 ^ (6 - ?k)"
    using pad_fields_ok(2) [OF assms(1), of 6] by simp
  then have "?k < 6 \<Longrightarrow> ?n * 10 ^ (6 - ?k) < 10 ^ 6" by (simp add: power_add [symmetric])
  then show "second_part t \<le> 999999" using sp pad_fields_ok(1) [OF assms(1), of 6] by (cases "?k < 6") simp_all
  show "\<not> neg t" by (simp add: t fields_to_time_def)
  have "second_part t = 0 \<longleftrightarrow> ?n = 0" using sp by simp
  then show "\<not> sc_not_zero_date s \<longleftrightarrow> time_all_zero t"
    unfolding pad_fields_zero [OF assms(1)] seven_fields time_all_zero_def by (auto simp: t fields_to_time_def)
qed

lemma check_date_ok:
  assumes "check_date t nz flags w = (False, w')" "month t \<le> 12" "\<not> nz \<longrightarrow> time_all_zero t" "nz \<longrightarrow> \<not> time_all_zero t"
  shows "(flags AND TIME_INVALID_DATES = 0 \<and> month t \<noteq> 0 \<longrightarrow> day t \<le> month_length (year t) (month t)) \<and>
     (flags AND TIME_NO_ZERO_IN_DATE \<noteq> 0 \<or> flags AND TIME_FUZZY_DATE = 0 \<longrightarrow> month t \<noteq> 0 \<and> day t \<noteq> 0 \<or> time_all_zero t) \<and>
     (flags AND TIME_NO_ZERO_DATE \<noteq> 0 \<longrightarrow> \<not> time_all_zero t) \<and> w' = w"
proof (cases nz)
  case False
  then have "month t = 0" using assms(3) by (simp add: time_all_zero_def)
  with False assms show ?thesis by (auto simp: check_date_def split: if_splits)
next
  case True
  have "day t \<le> days_in_month ! (month t - 1) \<or> month t = 2 \<and> calc_days_in_year (year t) = 366 \<and> day t = 29 \<Longrightarrow>
      day t \<le> month_length (year t) (month t)"
    by (auto simp: month_length_def days_in_month_def)
  with True assms show ?thesis by (auto simp: check_date_def split: if_splits)
qed

lemma finish_datetime_ok:
  assumes "scan_ok s" "finish_datetime f yl s l_time flags = (t, l, was_cut)"
  shows "t = MYSQL_TIMESTAMP_NONE \<and> l = l_time \<and> was_cut = 1 \<or> t = MYSQL_TIMESTAMP_ERROR \<and> l = zero_time \<or>
    (t = MYSQL_TIMESTAMP_DATE \<or> t = MYSQL_TIMESTAMP_DATETIME) \<and> time_ok flags l \<and> time_type l = t"
proof -
  define T where "T = fields_to_time (pad_fields (sc_date s)) (pad_fields (sc_date_len s)) l_time"
  note T = fields_to_time_ok [OF assms(1) T_def]
  define y where "y = year T"
  define bump where "bump \<longleftrightarrow> (if f then yl else pad_fields (sc_date_len s) ! 0) = 2 \<and> sc_not_zero_date s"
  define T2 where "T2 = (if bump then T\<lparr>year := year T + (if year T < YY_PART_YEAR then 2000 else 1900)\<rparr> else T)"
  have T2: "second_part T2 \<le> 999999" "\<not> neg T2" "\<not> sc_not_zero_date s \<longrightarrow> time_all_zero T2" "sc_not_zero_date s \<longrightarrow> \<not> time_all_zero T2"
    using T by (auto simp: T2_def bump_def time_all_zero_def)
  note unf = assms(2) [unfolded finish_datetime_def Let_def pad_fields_def [symmetric] T_def [symmetric] bump_def [symmetric] T2_def [symmetric]]
  obtain refused wc where chk: "check_date T2 (sc_not_zero_date s) flags 0 = (refused, wc)" by fastforce
  have ok: "time_ok flags (T2\<lparr>time_type := tt\<rparr>)"
    if "\<not> refused" "year T2 \<le> 9999" "month T2 \<le> 12" "day T2 \<le> 31" "hour T2 \<le> 23" "minute T2 \<le> 59" "second T2 \<le> 59" for tt
    using that T2(1,2) check_date_ok [OF _ that(3) T2(3,4), of flags 0 wc] chk by (simp add: time_ok_def time_all_zero_def)
  show ?thesis
    using unf ok unfolding chk prod.case by (auto split: if_splits simp: not_less)
qed

text \<open>
  C37: \<open>str_to_datetime\<close> on any bytes: it either finds no date (the destination is untouched and the cut is
  reported), or reports an error (the destination is the zero date), or leaves a date in the ranges of the
  type with the reported type, a day that exists in its month unless invalid dates are allowed, and no zero
  dates or parts where the flags forbid them.
\<close>

theorem str_to_datetime_type:
  assumes "str_to_datetime str l_time flags = (t, l, was_cut)"
  shows "t = MYSQL_TIMESTAMP_NONE \<and> l = l_time \<and> was_cut = 1 \<or> t = MYSQL_TIMESTAMP_ERROR \<and> l = zero_time \<or>
    (t = MYSQL_TIMESTAMP_DATE \<or> t = MYSQL_TIMESTAMP_DATETIME) \<and> time_ok flags l \<and> time_type l = t"
proof (cases "skip_spaces str = [] \<or> \<not> my_isdigit_latin1 (hd (skip_spaces str))")
  case True
  then show ?thesis using assms by (auto simp: str_to_datetime_def)
next
  case False
  define fmt where "fmt = (let rest = dropWhile (\<lambda>c. my_isdigit_latin1 c \<or> c = 84) (skip_spaces str) in rest = [] \<or> hd rest = 46)"
  define yl where "yl = (let digits = length (skip_spaces str) - length (dropWhile (\<lambda>c. my_isdigit_latin1 c \<or> c = 84) (skip_spaces str))
    in if digits = 4 \<or> digits = 8 \<or> digits \<ge> 14 then 4 else 2 :: nat)"
  define s0 where "s0 = \<lparr>sc_i = 0, sc_field_length = (if fmt then yl else if internal_format_positions ! 0 = 0 then 4 else 2), sc_date = [],
    sc_date_len = [], sc_not_zero_date = False, sc_found_delimitier = False, sc_found_space = False, sc_last_field_pos = skip_spaces str\<rparr>"
  have res: "(t, l, was_cut) = (case scan_fields fmt s0 (skip_spaces str) of None \<Rightarrow> (MYSQL_TIMESTAMP_NONE, l_time, 1)
      | Some s \<Rightarrow> finish_datetime fmt yl s l_time flags)"
    using assms False unfolding str_to_datetime_def Let_def s0_def fmt_def yl_def by simp
  have "scan_ok s0" by (simp add: s0_def scan_ok_def)
  then show ?thesis
    using res finish_datetime_ok [OF scan_fields_ok] by (cases "scan_fields fmt s0 (skip_spaces str)") auto
qed

theorem str_to_datetime_type_witness:
  "\<exists>t l c. str_to_datetime (my_datetime_to_str sample_datetime) zero_time 0 = (t, l, c) \<and>
     (t = MYSQL_TIMESTAMP_NONE \<and> l = zero_time \<and> c = 1 \<or> t = MYSQL_TIMESTAMP_ERROR \<and> l = zero_time \<or>
      (t = MYSQL_TIMESTAMP_DATE \<or> t = MYSQL_TIMESTAMP_DATETIME) \<and> time_ok 0 l \<and> time_type l = t)"
proof -
  obtain t l c where "str_to_datetime (my_datetime_to_str sample_datetime) zero_time 0 = (t, l, c)" by (metis prod_cases3)
  then show ?thesis using str_to_datetime_type by blast
qed

subsection \<open>Numbers and dates\<close>

lemma decimal_parts:
  assumes "m < 100" "d < 100"
  shows "(y * 10000 + m * 100 + d) div 10000 = (y :: nat)" "(y * 10000 + m * 100 + d) mod 10000 div 100 = m"
    "(y * 10000 + m * 100 + d) mod 10000 mod 100 = d"
proof -
  have r: "m * 100 + d < 10000" using assms by simp
  have "y * 10000 + m * 100 + d = (m * 100 + d) + 10000 * y" by simp
  then have q: "(y * 10000 + m * 100 + d) div 10000 = y" "(y * 10000 + m * 100 + d) mod 10000 = m * 100 + d"
    using r by (simp_all only: div_mult_self2 mod_mult_self2) simp_all
  then show "(y * 10000 + m * 100 + d) div 10000 = (y :: nat)" "(y * 10000 + m * 100 + d) mod 10000 div 100 = m"
    "(y * 10000 + m * 100 + d) mod 10000 mod 100 = d"
    using assms by simp_all
qed

lemma split_number_parts:
  assumes "m < 100" "d < 100" "h < 100" "i < 100" "s < 100" "y \<le> 9999"
    and "nr = int ((y * 10000 + m * 100 + d) * 1000000 + (h * 10000 + i * 100 + s)) + 4294967296 * 1000000 * w"
  shows "split_number nr T = T\<lparr>year := y, month := m, day := d, hour := h, minute := i, second := s\<rparr>"
proof -
  define p1 where "p1 = y * 10000 + m * 100 + d"
  define p2 where "p2 = h * 10000 + i * 100 + s"
  have b: "p1 < 100000000" "p2 < 1000000" using assms by (simp_all add: p1_def p2_def)
  have nr: "nr = int p2 + 1000000 * (int p1 + 4294967296 * w)"
    using assms(7) by (simp add: p1_def p2_def algebra_simps)
  have "nr div 1000000 = int p1 + 4294967296 * w" using b unfolding nr by (subst div_mult_self2) simp_all
  moreover have wrap: "long_wrap (int p + 4294967296 * k) = int p" if "p < 100000000" for p k
  proof -
    have "(int p + 2147483648 + 4294967296 * k) mod 4294967296 = int p + 2147483648"
      using that by (simp only: mod_mult_self2) simp
    then show ?thesis
      unfolding long_wrap_def signed_take_bit_eq_take_bit_shift take_bit_eq_mod by (simp add: algebra_simps)
  qed
  ultimately have part1: "long_wrap (nr div 1000000) = int p1" using b by simp
  have "nr - int p1 * 1000000 = int p2 + 4294967296 * (1000000 * w)" unfolding nr by (simp add: algebra_simps)
  then have part2: "long_wrap (nr - int p1 * 1000000) = int p2" using wrap [of p2 "1000000 * w"] b by simp
  show ?thesis
    unfolding split_number_def part1 Let_def part2
    using decimal_parts [OF assms(1,2), of y, folded p1_def] decimal_parts [OF assms(4,5), of h, folded p2_def] assms
    by (simp add: int_sdiv [of _ 10000, simplified] int_smod [of _ 10000, simplified] int_sdiv [of _ 100, simplified]
        int_smod [of _ 100, simplified] uint_wrap_int)
qed

lemma number_to_datetime_parts:
  assumes "valid_datetime t" "1000 \<le> year t"
    and "nr = int (TIME_to_ulonglong_datetime t) + 4294967296 * 1000000 * w" "0 \<le> w"
  shows "number_to_datetime nr flags = (nr, t, 0)"
proof -
  have r: "year t \<le> 9999" "1 \<le> month t" "month t \<le> 12" "1 \<le> day t" "day t \<le> month_length (year t) (month t)" "day t \<le> 31"
    "hour t \<le> 23" "minute t \<le> 59" "second t \<le> 59" "second_part t = 0" "\<not> neg t" "time_type t = MYSQL_TIMESTAMP_DATETIME"
    using assms month_length_le [of "month t" "year t"] by (auto simp: valid_datetime_def)
  define n where "n = (year t * 10000 + month t * 100 + day t) * 1000000 + (hour t * 10000 + minute t * 100 + second t)"
  have "TIME_to_ulonglong_datetime t = n"
    using r by (simp add: TIME_to_ulonglong_datetime_def n_def mod_less)
  then have nr: "nr = int n + 4294967296 * 1000000 * w" using assms(3) by simp
  have "10000101000000 \<le> n" using r(2,4) assms(2) by (simp add: n_def)
  then have big: "10000101000000 \<le> nr" using nr assms(4) by simp
  have "split_number nr (zero_time\<lparr>time_type := MYSQL_TIMESTAMP_DATETIME\<rparr>) = t"
    using split_number_parts [OF _ _ _ _ _ _ nr [unfolded n_def]] r by (simp add: zero_time_def)
  moreover have "number_format nr = Some (nr, MYSQL_TIMESTAMP_DATETIME)" using big by (simp add: number_format_def)
  moreover have "check_date t True flags 0 = (False, 0)" using r by (intro check_date_valid) simp_all
  ultimately show ?thesis using r big by (simp add: number_to_datetime_def Let_def)
qed

text \<open>
  C39: The number of a date and time reads back: for every valid date and time from the year 1000 on,
  \<open>number_to_datetime\<close> on the number of \<open>TIME_to_ulonglong_datetime\<close> gives that number and that date and time.
\<close>

theorem datetime_number_roundtrip:
  assumes "valid_datetime t" "1000 \<le> year t"
  shows "number_to_datetime (int (TIME_to_ulonglong_datetime t)) flags = (int (TIME_to_ulonglong_datetime t), t, 0)"
  using number_to_datetime_parts [OF assms, of _ 0] by simp

theorem datetime_number_roundtrip_witness:
  "number_to_datetime (int (TIME_to_ulonglong_datetime sample_datetime)) 0 =
     (int (TIME_to_ulonglong_datetime sample_datetime), sample_datetime, 0)"
  by (rule datetime_number_roundtrip [OF sample_datetime_valid]) (simp add: sample_datetime_def)

text \<open>
  Where \<open>long\<close> has 32 bits the parts of the number are cut to it before they are checked: adding
  \<open>2 ^ 32 * 1000000\<close> any number of times to the number of a date (and staying below \<open>2 ^ 63\<close>) gives a
  number that is accepted, unflagged, as that same date.
\<close>

theorem number_to_datetime_wraps:
  assumes "valid_datetime t" "1000 \<le> year t" "w \<le> 2000"
  shows "number_to_datetime (int (TIME_to_ulonglong_datetime t) + 2 ^ 32 * 1000000 * int w) flags =
    (int (TIME_to_ulonglong_datetime t) + 2 ^ 32 * 1000000 * int w, t, 0)"
  using number_to_datetime_parts [OF assms(1,2), of _ "int w"] by simp

theorem number_to_datetime_wraps_witness:
  "number_to_datetime (int (TIME_to_ulonglong_datetime sample_datetime) + 2 ^ 32 * 1000000 * int 1) 0 =
     (int (TIME_to_ulonglong_datetime sample_datetime) + 2 ^ 32 * 1000000 * int 1, sample_datetime, 0)"
  by (rule number_to_datetime_wraps [OF sample_datetime_valid]) (simp_all add: sample_datetime_def)

end
