(* ===== verification/Num_Str.thy ===== *)
theory Num_Str
  imports Ctype "HOL-Library.Monad_Syntax"
begin

text \<open>
  Integers as text: \<^verbatim>\<open>strings/int2str.c\<close>, \<^verbatim>\<open>strings/longlong2str.c\<close>, \<^verbatim>\<open>strings/llstr.c\<close> and
  \<^verbatim>\<open>strings/my_strtoll10.c\<close>. A writer returns the text without the zero byte it stores behind it. The local
  \<open>buffer\<close> of 65 bytes is the list of the characters from \<open>p\<close> on; a write in front of it makes the result
  \<^const>\<open>None\<close>. A \<open>long\<close> is a 32-bit word where its bits matter and an \<^typ>\<open>int\<close> where it is divided.
  The negation of the lowest \<open>longlong\<close> is taken to wrap around.
\<close>

subsection \<open>Writing\<close>

definition LONG_MAX :: nat where "LONG_MAX = 2147483647"

text \<open>\<open>*--p= dig_vec[i]\<close>; the table has a zero byte behind its 36 digits.\<close>

definition push_digit :: "bytes \<Rightarrow> nat \<Rightarrow> bytes \<Rightarrow> bytes option" where
  "push_digit dig_vec i p =
     (if i \<le> length dig_vec \<and> length p < 64 then Some ((dig_vec @ [0]) ! i # p) else None)"

text \<open>The loop over values above \<open>LONG_MAX\<close>, with unsigned division.\<close>

function ulonglong_digits :: "bytes \<Rightarrow> nat \<Rightarrow> ulonglong \<Rightarrow> bytes \<Rightarrow> (ulonglong \<times> bytes) option" where
  "ulonglong_digits dig_vec radix uval p =
     (if unat uval \<le> LONG_MAX then Some (uval, p)
      else if radix < 2 then None
      else do {
        let quo = of_nat (unat uval div radix);
        let rem = (ucast (uval - quo * of_nat radix) :: uint32);
        p \<leftarrow> push_digit dig_vec (unat rem) p;
        ulonglong_digits dig_vec radix quo p
      })"
  by pat_completeness auto
termination
proof (relation "measure (\<lambda>(_, _, uval, _). unat uval)")
  fix dig_vec p p' :: bytes and radix :: nat and uval quo :: ulonglong
  assume a: "\<not> unat uval \<le> LONG_MAX" "\<not> radix < 2" and q: "quo = of_nat (unat uval div radix)"
  have "unat uval div radix < unat uval" using a by (intro div_less_dividend) (auto simp: LONG_MAX_def)
  moreover have "unat quo \<le> unat uval div radix" unfolding q by (simp add: unat_of_nat)
  ultimately show "((dig_vec, radix, quo, p'), dig_vec, radix, uval, p) \<in> measure (\<lambda>(_, _, uval, _). unat uval)"
    by simp
qed simp

declare ulonglong_digits.simps [simp del]

text \<open>The loop over a signed \<open>long\<close>.\<close>

function long_digits :: "bytes \<Rightarrow> nat \<Rightarrow> int \<Rightarrow> bytes \<Rightarrow> bytes option" where
  "long_digits dig_vec radix val p =
     (if val = 0 then Some p
      else if radix < 2 then None
      else do {
        let quo = val sdiv int radix;
        p \<leftarrow> push_digit dig_vec (nat ((val - quo * int radix) mod 256)) p;
        long_digits dig_vec radix quo p
      })"
  by pat_completeness auto
termination
proof (relation "measure (\<lambda>(_, _, val, _). nat \<bar>val\<bar>)")
  fix dig_vec p p' :: bytes and radix :: nat and val quo :: int
  assume a: "val \<noteq> 0" "\<not> radix < 2" and q: "quo = val sdiv int radix"
  have "\<bar>quo\<bar> \<le> \<bar>val\<bar> div int radix"
    unfolding q signed_divide_int_def by (simp add: abs_mult abs_sgn_eq pos_imp_zdiv_nonneg_iff)
  also have "\<dots> < \<bar>val\<bar>" using a by (intro int_div_less_self) auto
  finally show "((dig_vec, radix, quo, p'), dig_vec, radix, val, p) \<in> measure (\<lambda>(_, _, val, _). nat \<bar>val\<bar>)"
    by simp
qed simp

declare long_digits.simps [simp del]

text \<open>
  The checks of the radix and the sign; the inner option is the null pointer for a bad radix.
\<close>

definition radix_ok :: "int \<Rightarrow> bool" where
  "radix_ok radix \<longleftrightarrow> (if radix < 0 then \<not> (radix < - 36 \<or> radix > - 2) else \<not> (radix > 36 \<or> radix < 2))"

definition magnitude :: "int \<Rightarrow> 'a::len word \<Rightarrow> bytes \<times> 'a word" where
  "magnitude radix val = (if radix < 0 \<and> sint val < 0 then ([45], 0 - val) else ([], val))"

definition longlong_text :: "bytes \<Rightarrow> nat \<Rightarrow> bytes \<times> ulonglong \<Rightarrow> bytes option" where
  "longlong_text dig_vec radix = (\<lambda>(sign, uval).
     if uval = 0 then Some (sign @ [48])
     else do {
       (uval, p) \<leftarrow> ulonglong_digits dig_vec radix uval [];
       p \<leftarrow> long_digits dig_vec radix (int (unat uval)) p;
       Some (sign @ takeWhile (\<lambda>c. c \<noteq> 0) p)
     })"

definition ll2str :: "ulonglong \<Rightarrow> int \<Rightarrow> bool \<Rightarrow> bytes option option" where
  "ll2str val radix upcase =
     (if radix_ok radix
      then map_option Some (longlong_text (if upcase then dig_vec_upper else dig_vec_lower) (nat \<bar>radix\<bar>) (magnitude radix val))
      else Some None)"

definition longlong10_to_str :: "ulonglong \<Rightarrow> int \<Rightarrow> bytes option" where
  "longlong10_to_str val radix = longlong_text dig_vec_upper 10 (magnitude radix val)"

definition llstr :: "ulonglong \<Rightarrow> bytes option" where
  "llstr val = longlong10_to_str val (- 10)"

definition ullstr :: "ulonglong \<Rightarrow> bytes option" where
  "ullstr val = longlong10_to_str val 10"

text \<open>\<open>int2str\<close> divides the first time unsigned and then as a signed \<open>long\<close>.\<close>

definition long_text :: "bytes \<Rightarrow> nat \<Rightarrow> bytes \<times> ulong \<Rightarrow> bytes option" where
  "long_text dig_vec radix = (\<lambda>(sign, uval).
     if radix = 0 then None
     else do {
       let new_val = (of_nat (unat uval div radix) :: ulong);
       p \<leftarrow> push_digit dig_vec (unat (ucast (uval - new_val * of_nat radix) :: uchar)) [];
       p \<leftarrow> long_digits dig_vec radix (sint new_val) p;
       Some (sign @ takeWhile (\<lambda>c. c \<noteq> 0) p)
     })"

definition int2str :: "ulong \<Rightarrow> int \<Rightarrow> bool \<Rightarrow> bytes option option" where
  "int2str val radix upcase =
     (if radix_ok radix
      then map_option Some (long_text (if upcase then dig_vec_upper else dig_vec_lower) (nat \<bar>radix\<bar>) (magnitude radix val))
      else Some None)"

text \<open>Here the digits are \<open>'0' + d\<close>, which for the ten digits is the same table.\<close>

definition int10_to_str :: "ulong \<Rightarrow> int \<Rightarrow> bytes option" where
  "int10_to_str val radix = long_text dig_vec_upper 10 (magnitude radix val)"

subsection \<open>Reading\<close>

definition MY_ERRNO_EDOM :: int where "MY_ERRNO_EDOM = 33"
definition MY_ERRNO_ERANGE :: int where "MY_ERRNO_ERANGE = 34"
definition MAX_NEGATIVE_NUMBER :: ulonglong where "MAX_NEGATIVE_NUMBER = 0x8000000000000000"
definition INIT_CNT :: nat where "INIT_CNT = 9"
definition LFACTOR :: ulonglong where "LFACTOR = 1000000000"
definition LFACTOR1 :: ulonglong where "LFACTOR1 = 10000000000"
definition LFACTOR2 :: ulonglong where "LFACTOR2 = 100000000000"

definition lfactor :: "nat \<Rightarrow> ulong option" where
  "lfactor i = (if i < 9 then Some (10 ^ i) else None)"

definition byte_at :: "bytes \<Rightarrow> nat \<Rightarrow> uchar option" where
  "byte_at str s = (if s < length str then Some (str ! s) else None)"

text \<open>\<open>str\<close> is the memory from \<open>nptr\<close> on, positions count from there; \<open>stop\<close> is the given end, if any.\<close>

function skip_blanks :: "bytes \<Rightarrow> nat option \<Rightarrow> nat \<Rightarrow> nat option" where
  "skip_blanks str stop s =
     (if stop = Some s then Some s
      else case byte_at str s of
        None \<Rightarrow> None
      | Some c \<Rightarrow> if c = 32 \<or> c = 9 then skip_blanks str stop (s + 1) else Some s)"
  by pat_completeness auto
termination
  by (relation "measure (\<lambda>(str, _, s). length str - s)") (auto simp: byte_at_def split: if_splits)

declare skip_blanks.simps [simp del]

text \<open>The leading zeros after the first; \<^const>\<open>True\<close> says that the end was reached.\<close>

function skip_zeros :: "bytes \<Rightarrow> nat \<Rightarrow> nat \<Rightarrow> (bool \<times> nat) option" where
  "skip_zeros str stop s =
     (if s = stop then Some (True, s)
      else case byte_at str s of
        None \<Rightarrow> None
      | Some c \<Rightarrow> if c = 48 then skip_zeros str stop (s + 1) else Some (False, s))"
  by pat_completeness auto
termination
  by (relation "measure (\<lambda>(str, _, s). length str - s)") (auto simp: byte_at_def split: if_splits)

declare skip_zeros.simps [simp del]

text \<open>Digits up to \<open>n_end\<close>; \<^const>\<open>True\<close> says that another character came first.\<close>

function read_digits :: "bytes \<Rightarrow> nat \<Rightarrow> nat \<Rightarrow> ulong \<Rightarrow> (bool \<times> nat \<times> ulong) option" where
  "read_digits str n_end s i =
     (if s = n_end then Some (False, s, i)
      else case byte_at str s of
        None \<Rightarrow> None
      | Some c \<Rightarrow> if c - 48 > 9 then Some (True, s, i) else read_digits str n_end (s + 1) (i * 10 + ucast (c - 48)))"
  by pat_completeness auto
termination
  by (relation "measure (\<lambda>(str, _, s, _). length str - s)") (auto simp: byte_at_def split: if_splits)

declare read_digits.simps [simp del]

type_synonym strtoll_result = "ulonglong \<times> nat \<times> int"

definition strtoll_signed :: "bool \<Rightarrow> ulonglong \<Rightarrow> nat \<Rightarrow> strtoll_result" where
  "strtoll_signed negative li s = (if negative then (- li, s, - 1) else (li, s, 0))"

definition strtoll_overflow :: "bool \<Rightarrow> nat \<Rightarrow> strtoll_result" where
  "strtoll_overflow negative s = ((if negative then MAX_NEGATIVE_NUMBER else NOT 0), s, MY_ERRNO_ERANGE)"

definition strtoll_no_conv :: strtoll_result where
  "strtoll_no_conv = (0, 0, MY_ERRNO_EDOM)"

text \<open>The labels \<open>end_i\<close> and \<open>end4\<close>.\<close>

definition strtoll_end_i :: "bool \<Rightarrow> ulong \<Rightarrow> nat \<Rightarrow> strtoll_result" where
  "strtoll_end_i negative i s = (if negative then (scast (- i), s, - 1) else (ucast i, s, 0))"

definition strtoll_end4 :: "bool \<Rightarrow> ulong \<Rightarrow> ulong \<Rightarrow> ulong \<Rightarrow> nat \<Rightarrow> strtoll_result" where
  "strtoll_end4 negative i j k s =
     (let li = ucast i * LFACTOR1 + ucast j * 10 + ucast k
      in if negative \<and> li > MAX_NEGATIVE_NUMBER then strtoll_overflow negative s else strtoll_signed negative li s)"

text \<open>The 19th and the 20th digit.\<close>

definition strtoll_k20 :: "bytes \<Rightarrow> nat \<Rightarrow> bool \<Rightarrow> ulong \<Rightarrow> ulong \<Rightarrow> ulong \<Rightarrow> nat \<Rightarrow> strtoll_result option" where
  "strtoll_k20 str stop negative i j k s = do {
     too_long \<leftarrow> (if s = stop then Some False else map_option (\<lambda>c. c - 48 \<le> 9) (byte_at str s));
     let limit = (if negative then MAX_NEGATIVE_NUMBER else NOT 0);
     let cutoff = ucast (limit div LFACTOR2);
     let cutoff2 = ucast (limit mod LFACTOR2 div 100);
     let cutoff3 = ucast (limit mod 100);
     if too_long \<or> i > cutoff \<or> i = cutoff \<and> ((j > cutoff2 \<or> j = cutoff2) \<and> k > cutoff3)
     then Some (strtoll_overflow negative s)
     else Some (ucast i * LFACTOR2 + ucast j * 100 + ucast k, s, if negative then - 1 else 0)
   }"

definition strtoll_k :: "bytes \<Rightarrow> nat \<Rightarrow> bool \<Rightarrow> ulong \<Rightarrow> ulong \<Rightarrow> nat \<Rightarrow> strtoll_result option" where
  "strtoll_k str stop negative i j s = do {
     c \<leftarrow> byte_at str s;
     if c - 48 > 9 then Some (strtoll_signed negative (ucast i * LFACTOR + ucast j) s)
     else if s + 1 = stop then Some (strtoll_end4 negative i j (ucast (c - 48)) (s + 1))
     else do {
       d \<leftarrow> byte_at str (s + 1);
       if d - 48 > 9 then Some (strtoll_end4 negative i j (ucast (c - 48)) (s + 1))
       else strtoll_k20 str stop negative i j (ucast (c - 48) * 10 + ucast (d - 48)) (s + 2)
     }
   }"

text \<open>The second nine digits.\<close>

definition strtoll_j :: "bytes \<Rightarrow> nat \<Rightarrow> bool \<Rightarrow> ulong \<Rightarrow> nat \<Rightarrow> strtoll_result option" where
  "strtoll_j str stop negative i start = do {
     let true_end = start + INIT_CNT;
     (stopped, s, j) \<leftarrow> read_digits str (min true_end stop) start 0;
     if stopped \<or> s = stop \<and> s \<noteq> true_end then do {
       f \<leftarrow> lfactor (s - start);
       Some (strtoll_signed negative (ucast i * ucast f + ucast j) s)
     }
     else if s = stop then Some (strtoll_signed negative (ucast i * LFACTOR + ucast j) s)
     else strtoll_k str stop negative i j s
   }"

text \<open>After the sign: leading zeros or the first digit, then the first nine digits.\<close>

definition strtoll_i :: "bytes \<Rightarrow> nat \<Rightarrow> bool \<Rightarrow> ulong \<Rightarrow> nat \<Rightarrow> nat \<Rightarrow> strtoll_result option" where
  "strtoll_i str stop negative i n_end s = do {
     (stopped, s, i) \<leftarrow> read_digits str (min n_end stop) s i;
     if stopped \<or> s = stop then Some (strtoll_end_i negative i s)
     else strtoll_j str stop negative i s
   }"

definition strtoll_unsigned :: "bytes \<Rightarrow> nat \<Rightarrow> bool \<Rightarrow> nat \<Rightarrow> strtoll_result option" where
  "strtoll_unsigned str stop negative s = do {
     c \<leftarrow> byte_at str s;
     if c = 48 then do {
       (ended, s) \<leftarrow> skip_zeros str stop (s + 1);
       if ended then Some (strtoll_end_i negative 0 s)
       else strtoll_i str stop negative 0 (s + INIT_CNT) s
     }
     else if c - 48 > 9 then Some strtoll_no_conv
     else strtoll_i str stop negative (ucast (c - 48)) (s + 1 + (INIT_CNT - 1)) (s + 1)
   }"

text \<open>The result is the value, the position stored in \<open>*endptr\<close> and \<open>*error\<close>.\<close>

definition my_strtoll10 :: "bytes \<Rightarrow> nat option \<Rightarrow> strtoll_result option" where
  "my_strtoll10 str endptr = do {
     s \<leftarrow> skip_blanks str endptr 0;
     no_number \<leftarrow> (if endptr = None then map_option (\<lambda>c. c = 0) (byte_at str s) else Some (endptr = Some s));
     if no_number then Some strtoll_no_conv
     else do {
       let stop = (case endptr of Some e \<Rightarrow> e | None \<Rightarrow> s + 65535);
       c \<leftarrow> byte_at str s;
       if c = 45 \<or> c = 43 then
         if s + 1 = stop then Some strtoll_no_conv else strtoll_unsigned str stop (c = 45) (s + 1)
       else strtoll_unsigned str stop False s
     }
   }"

subsection \<open>What is written\<close>

text \<open>The digits of a number in a radix, highest first, and the number they spell.\<close>

function digits_of :: "nat \<Rightarrow> nat \<Rightarrow> nat list" where
  "digits_of r n = (if n < r \<or> r < 2 then [n] else digits_of r (n div r) @ [n mod r])"
  by pat_completeness auto
termination
  by (relation "measure snd") auto

declare digits_of.simps [simp del]

definition digits_value :: "nat \<Rightarrow> nat list \<Rightarrow> nat" where
  "digits_value r ds = foldl (\<lambda>a d. a * r + d) 0 ds"

text \<open>As the loops produce them, nothing is written for zero.\<close>

definition radix_text :: "bytes \<Rightarrow> nat \<Rightarrow> nat \<Rightarrow> bytes" where
  "radix_text dig_vec r n = (if n = 0 then [] else map ((!) dig_vec) (digits_of r n))"

lemma radix_text_0 [simp]: "radix_text dig_vec r 0 = []"
  by (simp add: radix_text_def)

lemma radix_text_step:
  assumes "2 \<le> r" "0 < n"
  shows "radix_text dig_vec r n = radix_text dig_vec r (n div r) @ [dig_vec ! (n mod r)]"
proof (cases "n < r")
  case True
  then show ?thesis using assms by (simp add: radix_text_def digits_of.simps [of r n])
next
  case False
  then show ?thesis using assms by (simp add: radix_text_def digits_of.simps [of r n] div_eq_0_iff)
qed

lemma length_radix_text: "2 \<le> r \<Longrightarrow> n < r ^ k \<Longrightarrow> length (radix_text dig_vec r n) \<le> k"
proof (induction k arbitrary: n)
  case (Suc k)
  then show ?case
    by (cases "n = 0") (simp_all add: radix_text_step div_digit_bound)
qed simp

definition table :: "bytes \<Rightarrow> bool" where
  "table dig_vec \<longleftrightarrow> length dig_vec = 36 \<and> 0 \<notin> set dig_vec \<and> dig_vec ! 0 = 48"

lemma tables [simp]: "table dig_vec_upper" "table dig_vec_lower"
  by (simp_all add: table_def dig_vec_upper_def dig_vec_lower_def of_char_def)

lemma push_digit_in: "table dig_vec \<Longrightarrow> i < 36 \<Longrightarrow> length p < 64 \<Longrightarrow> push_digit dig_vec i p = Some (dig_vec ! i # p)"
  by (simp add: push_digit_def table_def nth_append)

lemma long_digits_text:
  assumes "table dig_vec" "2 \<le> r" "r \<le> 36"
  shows "length (radix_text dig_vec r n) + length p \<le> 64 \<Longrightarrow> long_digits dig_vec r (int n) p = Some (radix_text dig_vec r n @ p)"
proof (induction n arbitrary: p rule: less_induct)
  case (less n)
  show ?case
  proof (cases "n = 0")
    case True
    then show ?thesis by (simp add: long_digits.simps)
  next
    case False
    let ?p = "dig_vec ! (n mod r) # p"
    have l: "length (radix_text dig_vec r n) = Suc (length (radix_text dig_vec r (n div r)))"
      using False assms by (simp add: radix_text_step)
    have m: "n mod r < r" using assms by simp
    have "int n - int (n div r) * int r = int (n mod r)"
      using minus_div_mult_eq_mod [of "int n" "int r"] by (simp add: zdiv_int zmod_int)
    then have d: "nat ((int n - int n sdiv int r * int r) mod 256) = n mod r"
      using m assms(3) by (simp add: int_sdiv)
    have p: "push_digit dig_vec (n mod r) p = Some ?p"
      using assms m l less.prems by (intro push_digit_in) linarith+
    have "long_digits dig_vec r (int n) p = long_digits dig_vec r (int (n div r)) ?p"
      using False assms p d by (subst long_digits.simps) (simp add: int_sdiv Let_def)
    also have "\<dots> = Some (radix_text dig_vec r (n div r) @ ?p)"
      using False assms l less.prems by (intro less.IH) auto
    finally show ?thesis using False assms by (simp add: radix_text_step [of r n])
  qed
qed

lemma ulonglong_digits_text:
  assumes "table dig_vec" "2 \<le> r" "r \<le> 36"
  shows "length (radix_text dig_vec r (unat u)) + length p \<le> 64 \<Longrightarrow>
    \<exists>u' q. ulonglong_digits dig_vec r u p = Some (u', q @ p) \<and>
      radix_text dig_vec r (unat u') @ q = radix_text dig_vec r (unat u)"
proof (induction "unat u" arbitrary: u p rule: less_induct)
  case less
  show ?case
  proof (cases "unat u \<le> LONG_MAX")
    case True
    then show ?thesis by (subst ulonglong_digits.simps) simp
  next
    case False
    let ?n = "unat u"
    let ?q = "of_nat (?n div r) :: ulonglong" and ?p = "dig_vec ! (?n mod r) # p"
    have pos: "0 < ?n" using False by (simp add: LONG_MAX_def)
    have q: "unat ?q = ?n div r"
      using unsigned_less [of u, where 'a = nat] div_le_dividend [of ?n r] by (intro unat_of_nat_small) linarith
    have "u - ?q * of_nat r = of_nat (?n - ?n div r * r)"
      by (simp add: of_nat_diff)
    also have "\<dots> = of_nat (?n mod r)" by (simp add: minus_div_mult_eq_mod)
    finally have rem: "unat (ucast (u - ?q * of_nat r) :: uint32) = ?n mod r"
      using mod_less_divisor [of r ?n] assms by (simp add: unat_ucast_mod unat_of_nat del: mod_less_divisor)
    have l: "length (radix_text dig_vec r ?n) = Suc (length (radix_text dig_vec r (?n div r)))"
      using pos assms by (simp add: radix_text_step)
    have p: "push_digit dig_vec (?n mod r) p = Some ?p"
      using assms l less.prems mod_less_divisor [of r ?n] by (intro push_digit_in) linarith+
    have step: "ulonglong_digits dig_vec r u p = ulonglong_digits dig_vec r ?q ?p"
      using False assms p rem by (subst ulonglong_digits.simps) (simp add: Let_def)
    have "unat ?q < ?n" using q pos assms by simp
    then obtain u' q' where "ulonglong_digits dig_vec r ?q ?p = Some (u', q' @ ?p)"
        "radix_text dig_vec r (unat u') @ q' = radix_text dig_vec r (?n div r)"
      using less.hyps [of ?q ?p] less.prems l q by auto
    then show ?thesis using step pos assms
      by (intro exI [of _ u'] exI [of _ "q' @ [dig_vec ! (?n mod r)]"]) (simp add: radix_text_step [of r ?n])
  qed
qed

lemma digits_of_less: "2 \<le> r \<Longrightarrow> d \<in> set (digits_of r n) \<Longrightarrow> d < r"
proof (induction r n rule: digits_of.induct)
  case (1 r n)
  then show ?case by (auto simp: digits_of.simps [of r n] split: if_splits)
qed

lemma digits_text_nonzero:
  assumes "table dig_vec" "2 \<le> r" "r \<le> 36"
  shows "takeWhile (\<lambda>c. c \<noteq> 0) (map ((!) dig_vec) (digits_of r n)) = map ((!) dig_vec) (digits_of r n)"
proof -
  have "dig_vec ! d \<noteq> 0" if "d \<in> set (digits_of r n)" for d
    using digits_of_less [OF assms(2) that] assms by (metis nth_mem order_less_le_trans table_def)
  then show ?thesis by simp
qed

text \<open>The text of a number in a radix.\<close>

definition numeral_text :: "bytes \<Rightarrow> nat \<Rightarrow> nat \<Rightarrow> bytes" where
  "numeral_text dig_vec r n = map ((!) dig_vec) (digits_of r n)"

lemma longlong_text_eq:
  assumes t: "table dig_vec" "2 \<le> r" "r \<le> 36"
  shows "longlong_text dig_vec r (sign, u) = Some (sign @ numeral_text dig_vec r (unat u))"
proof (cases "u = 0")
  case True
  then show ?thesis using t by (simp add: longlong_text_def numeral_text_def digits_of.simps table_def)
next
  case False
  then have u: "unat u \<noteq> 0" by (simp add: unat_eq_0)
  have "(2 :: nat) ^ 64 \<le> r ^ 64" using t(2) by (rule power_mono) simp
  then have "unat u < r ^ 64" using unsigned_less [of u, where 'a = nat] by simp
  then have l: "length (radix_text dig_vec r (unat u)) \<le> 64" by (rule length_radix_text [OF t(2)])
  obtain u' q where q: "ulonglong_digits dig_vec r u [] = Some (u', q)"
      "radix_text dig_vec r (unat u') @ q = radix_text dig_vec r (unat u)"
    using ulonglong_digits_text [OF t, of u "[]"] l by auto
  have "long_digits dig_vec r (int (unat u')) q = Some (radix_text dig_vec r (unat u') @ q)"
    using l unfolding q(2) [symmetric] by (intro long_digits_text [OF t]) simp
  then show ?thesis
    using False q u digits_text_nonzero [OF t, of "unat u"]
    by (simp add: longlong_text_def radix_text_def numeral_text_def del: of_nat_unat)
qed

lemma long_text_eq:
  assumes t: "table dig_vec" "2 \<le> r" "r \<le> 36"
  shows "long_text dig_vec r (sign, u) = Some (sign @ numeral_text dig_vec r (unat u))"
proof -
  let ?n = "unat u"
  let ?q = "of_nat (?n div r) :: ulong" and ?p = "[dig_vec ! (?n mod r)]"
  have b: "?n < 4294967296" by (rule unat_mask_32)
  have h: "?n div r < 2147483648" using b t(2) div_le_mono2 [of 2 r ?n] by linarith
  then have q: "unat ?q = ?n div r" by (intro unat_of_nat_small) simp
  then have sq: "sint ?q = int (?n div r)"
    using h by (simp add: sint_uint signed_take_bit_int_eq_self uint_nat del: of_nat_unat)
  have "u - ?q * of_nat r = of_nat (?n - ?n div r * r)" by (simp add: of_nat_diff)
  also have "\<dots> = of_nat (?n mod r)" by (simp add: minus_div_mult_eq_mod)
  finally have rem: "unat (ucast (u - ?q * of_nat r) :: uchar) = ?n mod r"
    using mod_less_divisor [of r ?n] t by (simp add: unat_ucast_mod unat_of_nat del: mod_less_divisor)
  have p: "push_digit dig_vec (?n mod r) [] = Some ?p"
    using t mod_less_divisor [of r ?n] by (intro push_digit_in) (linarith | simp)+
  have "(2 :: nat) ^ 32 \<le> r ^ 32" using t(2) by (rule power_mono) simp
  then have "?n div r < r ^ 32" using h by simp
  then have "length (radix_text dig_vec r (?n div r)) \<le> 32" by (rule length_radix_text [OF t(2)])
  then have "long_digits dig_vec r (int (?n div r)) ?p = Some (radix_text dig_vec r (?n div r) @ ?p)"
    by (intro long_digits_text [OF t]) simp
  moreover have "radix_text dig_vec r (?n div r) @ ?p = numeral_text dig_vec r ?n"
    using t by (auto simp: radix_text_def numeral_text_def digits_of.simps [of r ?n] div_eq_0_iff)
  ultimately show ?thesis
    using t p rem sq digits_text_nonzero [OF t, of ?n]
    by (simp add: long_text_def numeral_text_def Let_def)
qed

lemma uint_mod_sint: "uint (x :: 'a::len word) = sint x mod 2 ^ LENGTH('a)"
  by (simp add: take_bit_eq_mod [symmetric] sint_uint take_bit_signed_take_bit bintr_uint)

lemma unat_magnitude:
  "unat (snd (magnitude radix (val :: 'a::len word))) = nat \<bar>if radix < 0 then sint val else uint val\<bar>"
proof -
  have "(2 :: int) ^ (LENGTH('a) - 1) < 2 ^ LENGTH('a)" by (rule power_strict_increasing) simp_all
  then have b: "- (2 ^ LENGTH('a)) < sint val" "sint val < 2 ^ LENGTH('a)"
    using sint_ge [of val] sint_lt [of val] by linarith+
  have "uint (- val) = - uint val mod 2 ^ LENGTH('a)" by (rule uint_word_ariths(4))
  also have "\<dots> = - sint val mod 2 ^ LENGTH('a)" by (subst uint_mod_sint) (rule mod_minus_eq)
  also have "\<dots> = - sint val" if "sint val < 0" using b that by (intro mod_pos_pos_trivial) linarith+
  finally have n: "uint (- val) = - sint val" if "sint val < 0" using that by blast
  have p: "uint val = sint val" if "\<not> sint val < 0"
    using b that by (subst uint_mod_sint) (intro mod_pos_pos_trivial, linarith+)
  show ?thesis
  proof (cases "radix < 0 \<and> sint val < 0")
    case True
    then have "unat (- val) = nat (- sint val)" using n by (simp only: unat_eq_nat_uint)
    then show ?thesis using True by (simp add: magnitude_def)
  next
    case False
    then have "(if radix < 0 then sint val else uint val) = uint val" using p by (cases "radix < 0") simp_all
    then show ?thesis using False by (simp only: magnitude_def if_False snd_conv) simp
  qed
qed

lemma fst_magnitude: "fst (magnitude radix val) = (if radix < 0 \<and> sint val < 0 then [45] else [])"
  by (simp add: magnitude_def)

lemma longlong_text_magnitude:
  assumes "table dig_vec" "2 \<le> r" "r \<le> 36"
  shows "longlong_text dig_vec r (magnitude radix val) =
    Some ((if radix < 0 \<and> sint val < 0 then [45] else []) @
      numeral_text dig_vec r (nat \<bar>if radix < 0 then sint val else uint val\<bar>))"
  using longlong_text_eq [OF assms, of "fst (magnitude radix val)" "snd (magnitude radix val)"]
  by (simp only: prod.collapse unat_magnitude) (simp only: fst_magnitude)

lemma long_text_magnitude:
  assumes "table dig_vec" "2 \<le> r" "r \<le> 36"
  shows "long_text dig_vec r (magnitude radix val) =
    Some ((if radix < 0 \<and> sint val < 0 then [45] else []) @
      numeral_text dig_vec r (nat \<bar>if radix < 0 then sint val else uint val\<bar>))"
  using long_text_eq [OF assms, of "fst (magnitude radix val)" "snd (magnitude radix val)"]
  by (simp only: prod.collapse unat_magnitude) (simp only: fst_magnitude)

lemma decimal_tables: "d < 10 \<Longrightarrow> dig_vec_upper ! d = digit_char d \<and> dig_vec_lower ! d = digit_char d"
  using digit_char_cases [of d] by (auto simp: dig_vec_upper_def dig_vec_lower_def of_char_def digit_char_def)

lemma decimal_text:
  "numeral_text dig_vec_upper 10 n = map digit_char (digits_of 10 n)"
  "numeral_text dig_vec_lower 10 n = map digit_char (digits_of 10 n)"
  using digits_of_less [of 10 _ n] by (auto simp: numeral_text_def decimal_tables)

lemma sint_scast_32: "sint (scast (v :: ulong) :: ulonglong) = sint v"
  by (rule sint_up_scast) (simp add: is_up)

lemma uint_ucast_32: "uint (ucast (v :: ulong) :: ulonglong) = uint v"
  using uint_lt2p [of v] by (simp add: unsigned_ucast_eq take_bit_int_eq_self)

text \<open>
  C27: For every radix the writers accept, the text is a minus sign for a negative value of a signed conversion and
  then the digits of the magnitude in that radix, also for the lowest value, whose negation does not exist; the
  work buffer is never overrun. \<open>int2str\<close>, which divides in 32 bits, writes the same text as \<open>ll2str\<close> for the widened
  value, and the two decimal variants are the case of radix 10.
\<close>

theorem ll2str_correct:
  assumes "2 \<le> \<bar>radix\<bar>" "\<bar>radix\<bar> \<le> 36"
  shows "ll2str val radix upcase =
      Some (Some ((if radix < 0 \<and> sint val < 0 then [45] else []) @
        numeral_text (if upcase then dig_vec_upper else dig_vec_lower) (nat \<bar>radix\<bar>)
          (nat \<bar>if radix < 0 then sint val else uint val\<bar>))) \<and>
    int2str v radix upcase = ll2str (if radix < 0 then scast v else ucast v) radix upcase \<and>
    (\<bar>radix\<bar> = 10 \<longrightarrow>
      map_option Some (longlong10_to_str val radix) = ll2str val radix upcase \<and>
      map_option Some (int10_to_str v radix) = int2str v radix upcase)"
proof -
  let ?dig = "if upcase then dig_vec_upper else dig_vec_lower" and ?r = "nat \<bar>radix\<bar>"
  have t: "table ?dig" "2 \<le> ?r" "?r \<le> 36" "radix_ok radix" using assms by (auto simp: radix_ok_def)
  note l = longlong_text_magnitude [OF t(1-3)] and i = long_text_magnitude [OF t(1-3)]
  have "longlong10_to_str val radix = longlong_text ?dig 10 (magnitude radix val)"
    using longlong_text_magnitude [of _ 10] decimal_text by (simp add: longlong10_to_str_def)
  moreover have "int10_to_str v radix = long_text ?dig 10 (magnitude radix v)"
    using long_text_magnitude [of _ 10] decimal_text by (simp add: int10_to_str_def)
  ultimately show ?thesis
    using t(4) l i by (auto simp: ll2str_def int2str_def sint_scast_32 uint_ucast_32)
qed

theorem ll2str_correct_witness: "ll2str (- 255) (- 16) False = Some (Some (map of_char ''-ff''))"
proof -
  have "sint (- 255 :: ulonglong) = - 255" by simp
  then have "ll2str (- 255) (- 16) False = Some (Some ([45] @ numeral_text dig_vec_lower 16 255))"
    using ll2str_correct [of "- 16" "- 255" False 0] by simp
  then show ?thesis by (simp add: numeral_text_def digits_of.simps dig_vec_lower_def of_char_def)
qed

subsection \<open>What is read\<close>

text \<open>The digits at a position, and a position where a number ends.\<close>

definition at_digits :: "bytes \<Rightarrow> nat \<Rightarrow> nat list \<Rightarrow> bool" where
  "at_digits str s ds \<longleftrightarrow> (\<forall>i < length ds. ds ! i < 10 \<and> byte_at str (s + i) = Some (digit_char (ds ! i)))"

definition ends_at :: "bytes \<Rightarrow> nat \<Rightarrow> nat \<Rightarrow> bool" where
  "ends_at str stop e \<longleftrightarrow> e = stop \<or> e < stop \<and> (\<exists>c. byte_at str e = Some c \<and> c - 48 > 9)"

lemma at_digits_Nil [simp]: "at_digits str s []"
  by (simp add: at_digits_def)

lemma at_digits_Cons: "at_digits str s (d # ds) \<longleftrightarrow> d < 10 \<and> byte_at str s = Some (digit_char d) \<and> at_digits str (s + 1) ds"
  by (auto simp: at_digits_def nth_Cons split: nat.splits)

lemma at_digits_append: "at_digits str s (xs @ ys) \<longleftrightarrow> at_digits str s xs \<and> at_digits str (s + length xs) ys"
  by (induction xs arbitrary: s) (simp_all add: at_digits_Cons ac_simps)

lemma at_digits_text: "(\<forall>d \<in> set ds. d < 10) \<Longrightarrow> at_digits (pre @ map digit_char ds @ post) (length pre) ds"
  by (auto simp: at_digits_def byte_at_def nth_append)

lemma digit_char_minus [simp]:
  assumes "d < 10"
  shows "digit_char d - 48 = of_nat d" "\<not> of_nat d > (9 :: uchar)" "(ucast (of_nat d :: uchar) :: 'a::len word) = of_nat d"
proof -
  have "(of_nat d :: uchar) = of_nat d" "unat (of_nat d :: uchar) = d" using assms by (simp_all add: unat_of_nat)
  then show "digit_char d - 48 = of_nat d" "\<not> of_nat d > (9 :: uchar)" "(ucast (of_nat d :: uchar) :: 'a::len word) = of_nat d"
    using assms by (simp_all add: digit_char_def word_less_nat_alt ucast_of_nat_unat)
qed

lemma digits_value_Nil [simp]: "digits_value r [] = 0"
  by (simp add: digits_value_def)

lemma digits_value_snoc [simp]: "digits_value r (ds @ [d]) = digits_value r ds * r + d"
  by (simp add: digits_value_def)

lemma digits_value_append: "digits_value r (xs @ ys) = digits_value r xs * r ^ length ys + digits_value r ys"
  by (induction ys rule: rev_induct) (simp_all add: append_assoc [symmetric] algebra_simps del: append_assoc)

lemma digits_value_less: "(\<forall>d \<in> set ds. d < r) \<Longrightarrow> digits_value r ds < r ^ length ds"
proof (induction ds rule: rev_induct)
  case (snoc d ds)
  then have "d + r * digits_value r ds < r * r ^ length ds" by (intro digit_less) simp_all
  then show ?case by (simp add: ac_simps)
qed simp

lemma digits_value_digits_of: "2 \<le> r \<Longrightarrow> digits_value r (digits_of r n) = n"
proof (induction r n rule: digits_of.induct)
  case (1 r n)
  then show ?case
    by (cases "n < r") (simp_all add: digits_of.simps [of r n] digits_value_def)
qed

lemma read_digits_pass:
  "at_digits str s ds \<Longrightarrow> s + length ds \<le> n_end \<Longrightarrow>
    read_digits str n_end s (of_nat a) = read_digits str n_end (s + length ds) (of_nat (a * 10 ^ length ds + digits_value 10 ds))"
proof (induction ds arbitrary: s a)
  case (Cons d ds)
  then have d: "d < 10" "byte_at str s = Some (digit_char d)" "at_digits str (s + 1) ds"
    by (simp_all add: at_digits_Cons)
  have "read_digits str n_end s (of_nat a) = read_digits str n_end (s + 1) (of_nat (a * 10 + d))"
    using Cons.prems d by (subst read_digits.simps) simp
  also have "\<dots> = read_digits str n_end (s + 1 + length ds) (of_nat ((a * 10 + d) * 10 ^ length ds + digits_value 10 ds))"
    using Cons.prems d by (intro Cons.IH) simp_all
  also have "(a * 10 + d) * 10 ^ length ds + digits_value 10 ds = a * 10 ^ length (d # ds) + digits_value 10 (d # ds)"
    using digits_value_append [of 10 "[d]" ds] by (simp add: digits_value_def algebra_simps)
  finally show ?case by simp
qed simp

lemma read_digits_full:
  assumes "at_digits str s ds" "n_end = s + length ds"
  shows "read_digits str n_end s 0 = Some (False, n_end, of_nat (digits_value 10 ds))"
  using read_digits_pass [OF assms(1), of n_end 0] assms(2) by (simp add: read_digits.simps [of str "s + length ds" "s + length ds"])

lemma read_digits_stop:
  assumes "at_digits str s ds" "s + length ds < n_end" "byte_at str (s + length ds) = Some c" "c - 48 > 9"
  shows "read_digits str n_end s 0 = Some (True, s + length ds, of_nat (digits_value 10 ds))"
  using read_digits_pass [OF assms(1), of n_end 0] assms(2-) by (simp add: read_digits.simps [of str n_end "s + length ds"])

lemma strtoll_end_i_signed:
  assumes "n < 10 ^ 9"
  shows "strtoll_end_i negative (of_nat n) e = strtoll_signed negative (of_nat n) e"
proof -
  have w: "(- of_nat n :: ulong) = word_of_int (- int n)" by simp
  have "sint (word_of_int (- int n) :: ulong) = signed_take_bit 31 (- int n)"
    using sint_sbintrunc' [of "- int n", where 'a = 32] by simp
  also have "\<dots> = - int n" using assms by (simp add: signed_take_bit_int_eq_self)
  finally have "(scast (- of_nat n :: ulong) :: ulonglong) = word_of_int (- int n)" by (simp only: w scast_eq)
  then have "(scast (- of_nat n :: ulong) :: ulonglong) = - of_nat n" by simp
  moreover have "(ucast (of_nat n :: ulong) :: ulonglong) = of_nat n"
    using assms by (simp add: ucast_of_nat_unat unat_of_nat_small)
  ultimately show ?thesis by (simp add: strtoll_end_i_def strtoll_signed_def)
qed

lemma digits_at_less: "at_digits str s ds \<Longrightarrow> \<forall>d \<in> set ds. d < 10"
  by (auto simp: at_digits_def in_set_conv_nth)

lemmas value_at_less = digits_value_less [OF digits_at_less]

lemma ucast_of_nat_9: "n < 10 ^ 9 \<Longrightarrow> (ucast (of_nat n :: ulong) :: ulonglong) = of_nat n"
  by (simp add: ucast_of_nat_unat unat_of_nat_small)

lemma strtoll_k_end:
  assumes "ends_at str stop s" "s \<noteq> stop"
  shows "strtoll_k str stop negative i j s = Some (strtoll_signed negative (ucast i * LFACTOR + ucast j) s)"
  using assms by (auto simp: ends_at_def strtoll_k_def)

lemma strtoll_j_short:
  assumes d: "at_digits str s ds" "length ds \<le> 9" and e: "ends_at str stop (s + length ds)" "s \<noteq> stop"
  shows "strtoll_j str stop negative i s = Some (strtoll_signed negative (ucast i * 10 ^ length ds + of_nat (digits_value 10 ds)) (s + length ds))"
proof -
  let ?e = "s + length ds"
  have j: "(ucast (of_nat (digits_value 10 ds) :: ulong) :: ulonglong) = of_nat (digits_value 10 ds)"
    using value_at_less [OF d(1)] power_increasing [OF d(2), of "10 :: nat"] by (intro ucast_of_nat_9) simp
  have f: "lfactor (length ds) = Some (10 ^ length ds)" "(ucast (10 ^ length ds :: ulong) :: ulonglong) = 10 ^ length ds"
    if "length ds < 9"
  proof -
    have "(10 :: nat) ^ length ds < 10 ^ 9" using that by (intro power_strict_increasing) simp_all
    then show "(ucast (10 ^ length ds :: ulong) :: ulonglong) = 10 ^ length ds" using ucast_of_nat_9 [of "10 ^ length ds"] by simp
  qed (simp add: lfactor_def that)
  consider (stop) "?e = stop" | (more) c where "?e < stop" "byte_at str ?e = Some c" "c - 48 > 9"
    using e(1) by (auto simp: ends_at_def)
  then show ?thesis
  proof cases
    case stop
    then have "min (s + 9) stop = ?e" using d(2) by simp
    then show ?thesis
      using stop f j d(2) read_digits_full [OF d(1) refl]
      by (cases "length ds = 9") (auto simp: strtoll_j_def INIT_CNT_def LFACTOR_def)
  next
    case more
    show ?thesis
    proof (cases "length ds = 9")
      case True
      then have "read_digits str (min (s + 9) stop) s 0 = Some (False, s + 9, of_nat (digits_value 10 ds))"
        using more read_digits_full [OF d(1) refl] by (simp add: min_def)
      then show ?thesis using True more j e strtoll_k_end [of str stop "s + 9" negative]
        by (simp add: strtoll_j_def INIT_CNT_def LFACTOR_def)
    next
      case False
      then have "read_digits str (min (s + 9) stop) s 0 = Some (True, ?e, of_nat (digits_value 10 ds))"
        using more d(2) by (intro read_digits_stop [OF d(1)]) auto
      then show ?thesis using False more f j d(2) by (simp add: strtoll_j_def INIT_CNT_def)
    qed
  qed
qed

lemma strtoll_j_more:
  assumes d: "at_digits str s (ds @ ds')" "length ds = 9" and e: "s + 9 < stop"
  shows "strtoll_j str stop negative i s = strtoll_k str stop negative i (of_nat (digits_value 10 ds)) (s + 9)"
proof -
  have "read_digits str (min (s + 9) stop) s 0 = Some (False, s + 9, of_nat (digits_value 10 ds))"
    using d e read_digits_full [OF _ refl, of str s ds] by (simp add: at_digits_append min_def)
  then show ?thesis using e by (simp add: strtoll_j_def INIT_CNT_def)
qed

lemma strtoll_i_short:
  assumes d: "at_digits str s ds" "length ds \<le> 9" and e: "ends_at str stop (s + length ds)"
  shows "strtoll_i str stop negative 0 (s + 9) s = Some (strtoll_signed negative (of_nat (digits_value 10 ds)) (s + length ds))"
proof -
  let ?e = "s + length ds"
  have v: "digits_value 10 ds < 10 ^ 9"
    using value_at_less [OF d(1)] power_increasing [OF d(2), of "10 :: nat"] by simp
  consider (stop) "?e = stop" | (more) c where "?e < stop" "byte_at str ?e = Some c" "c - 48 > 9"
    using e(1) by (auto simp: ends_at_def)
  then show ?thesis
  proof cases
    case stop
    then have "min (s + 9) stop = ?e" using d(2) by simp
    then show ?thesis using stop v read_digits_full [OF d(1) refl] by (simp add: strtoll_i_def strtoll_end_i_signed)
  next
    case more
    show ?thesis
    proof (cases "length ds = 9")
      case True
      then have "read_digits str (min (s + 9) stop) s 0 = Some (False, s + 9, of_nat (digits_value 10 ds))"
        using more read_digits_full [OF d(1) refl] by (simp add: min_def)
      then show ?thesis
        using True more e v strtoll_j_short [of str "s + 9" "[]" stop negative]
        by (simp add: strtoll_i_def ucast_of_nat_9)
    next
      case False
      then have "read_digits str (min (s + 9) stop) s 0 = Some (True, ?e, of_nat (digits_value 10 ds))"
        using more d(2) by (intro read_digits_stop [OF d(1)]) auto
      then show ?thesis using v by (simp add: strtoll_i_def strtoll_end_i_signed)
    qed
  qed
qed

lemma strtoll_i_more:
  assumes d: "at_digits str s (ds @ ds')" "length ds = 9" and e: "s + 9 < stop"
  shows "strtoll_i str stop negative 0 (s + 9) s = strtoll_j str stop negative (of_nat (digits_value 10 ds)) (s + 9)"
proof -
  have "read_digits str (min (s + 9) stop) s 0 = Some (False, s + 9, of_nat (digits_value 10 ds))"
    using d e read_digits_full [OF _ refl, of str s ds] by (simp add: at_digits_append min_def)
  then show ?thesis using e by (simp add: strtoll_i_def)
qed

lemma strtoll_k_19:
  assumes "at_digits str s [d]" "ends_at str stop e" "e = s + 1"
  shows "strtoll_k str stop negative i j s = Some (strtoll_end4 negative i j (of_nat d) e)"
  using assms by (auto simp: at_digits_Cons ends_at_def strtoll_k_def)

lemma strtoll_k_20:
  assumes "at_digits str s [d, d']" "ends_at str stop e" "e = s + 2"
  shows "strtoll_k str stop negative i j s = strtoll_k20 str stop negative i j (of_nat (d * 10 + d')) e"
  using assms by (auto simp: at_digits_Cons ends_at_def strtoll_k_def)

lemma strtoll_cutoffs:
  "ucast ((NOT 0 :: ulonglong) div LFACTOR2) = (184467440 :: ulong)"
  "ucast ((NOT 0 :: ulonglong) mod LFACTOR2 div 100) = (737095516 :: ulong)"
  "ucast ((NOT 0 :: ulonglong) mod 100) = (15 :: ulong)"
  by code_simp+

lemma strtoll_k20_unsigned:
  assumes "ends_at str stop s" "a < 10 ^ 9" "b < 10 ^ 9" "c < 100"
  shows "strtoll_k20 str stop False (of_nat a) (of_nat b) (of_nat c) s =
    Some (if a > 184467440 \<or> a = 184467440 \<and> b \<ge> 737095516 \<and> c > 15 then strtoll_overflow False s
          else (of_nat (a * 10 ^ 11 + b * 100 + c), s, 0))"
proof -
  have u: "unat (of_nat a :: ulong) = a" "unat (of_nat b :: ulong) = b" "unat (of_nat c :: ulong) = c"
    using assms by (simp_all add: unat_of_nat_small)
  have cmp: "(of_nat a :: ulong) > 184467440 \<longleftrightarrow> a > 184467440" "(of_nat a :: ulong) = 184467440 \<longleftrightarrow> a = 184467440"
    "(of_nat b :: ulong) > 737095516 \<longleftrightarrow> b > 737095516" "(of_nat b :: ulong) = 737095516 \<longleftrightarrow> b = 737095516"
    "(of_nat c :: ulong) > 15 \<longleftrightarrow> c > 15"
    by (simp_all add: word_less_nat_alt word_unat_eq_iff u)
  have w: "(ucast (of_nat a :: ulong) :: ulonglong) = of_nat a" "(ucast (of_nat b :: ulong) :: ulonglong) = of_nat b"
    "(ucast (of_nat c :: ulong) :: ulonglong) = of_nat c"
    using u by (simp_all add: ucast_of_nat_unat)
  have t: "(if s = stop then Some False else map_option (\<lambda>c. c - 48 \<le> 9) (byte_at str s)) = Some False"
    using assms(1) by (auto simp: ends_at_def)
  show ?thesis
    unfolding strtoll_k20_def t Let_def if_False bind.bind_lunit strtoll_cutoffs cmp w
    by (auto simp: LFACTOR2_def)
qed

lemma at_digits_take_drop: "at_digits str s ds \<Longrightarrow> n \<le> length ds \<Longrightarrow> at_digits str s (take n ds) \<and> at_digits str (s + n) (drop n ds)"
  using at_digits_append [of str s "take n ds" "drop n ds"] by simp

lemma digits_value_take_drop: "digits_value r ds = digits_value r (take n ds) * r ^ (length ds - n) + digits_value r (drop n ds)"
  using digits_value_append [of r "take n ds" "drop n ds"] by simp

text \<open>The whole conversion after the leading zeros, by the number of digits.\<close>

lemma strtoll_18:
  assumes d: "at_digits str s ds" "length ds \<le> 18" and e: "ends_at str stop (s + length ds)"
  shows "strtoll_i str stop negative 0 (s + 9) s = Some (strtoll_signed negative (of_nat (digits_value 10 ds)) (s + length ds))"
proof (cases "length ds \<le> 9")
  case True
  then show ?thesis using strtoll_i_short [OF d(1)] e by simp
next
  case False
  let ?x = "take 9 ds" and ?y = "drop 9 ds"
  have a: "at_digits str s ?x" "at_digits str (s + 9) ?y" using at_digits_take_drop [OF d(1), of 9] False by simp_all
  have p: "s + 9 < stop" using e False by (auto simp: ends_at_def)
  have x: "(ucast (of_nat (digits_value 10 ?x) :: ulong) :: ulonglong) = of_nat (digits_value 10 ?x)"
    using value_at_less [OF a(1)] False by (intro ucast_of_nat_9) (simp add: min_def)
  have "strtoll_i str stop negative 0 (s + 9) s = strtoll_j str stop negative (of_nat (digits_value 10 ?x)) (s + 9)"
    using d p False by (intro strtoll_i_more [of _ _ _ ?y]) simp_all
  also have "\<dots> = Some (strtoll_signed negative (of_nat (digits_value 10 ?x) * 10 ^ length ?y + of_nat (digits_value 10 ?y)) (s + 9 + length ?y))"
    unfolding x [symmetric] using a d p e False by (intro strtoll_j_short) simp_all
  finally show ?thesis using False digits_value_take_drop [of 10 ds 9] by simp
qed

text \<open>The first eighteen of more than eighteen digits.\<close>

lemma strtoll_past_18:
  assumes d: "at_digits str s ds" "18 < length ds" and e: "ends_at str stop (s + length ds)"
  shows "strtoll_i str stop negative 0 (s + 9) s =
    strtoll_k str stop negative (of_nat (digits_value 10 (take 9 ds))) (of_nat (digits_value 10 (take 9 (drop 9 ds)))) (s + 18)"
proof -
  let ?x = "take 9 ds" and ?y = "drop 9 ds"
  have a: "at_digits str s ?x" "at_digits str (s + 9) ?y" using at_digits_take_drop [OF d(1), of 9] d(2) by simp_all
  have p: "s + 18 < stop" using e d(2) by (auto simp: ends_at_def)
  have "strtoll_i str stop negative 0 (s + 9) s = strtoll_j str stop negative (of_nat (digits_value 10 ?x)) (s + 9)"
    using d p by (intro strtoll_i_more [of _ _ _ ?y]) simp_all
  also have "\<dots> = strtoll_k str stop negative (of_nat (digits_value 10 ?x)) (of_nat (digits_value 10 (take 9 ?y))) (s + 9 + 9)"
    using a d p by (intro strtoll_j_more [of _ _ _ "drop 9 ?y"]) (simp_all only: append_take_drop_id, simp_all)
  finally show ?thesis by (simp add: ac_simps)
qed

lemma strtoll_19:
  assumes d: "at_digits str s ds" "length ds = 19" and e: "ends_at str stop (s + length ds)"
    and r: "negative \<Longrightarrow> digits_value 10 ds \<le> 2 ^ 63"
  shows "strtoll_i str stop negative 0 (s + 9) s = Some (strtoll_signed negative (of_nat (digits_value 10 ds)) (s + length ds))"
proof -
  let ?x = "take 9 ds" and ?y = "take 9 (drop 9 ds)" and ?z = "drop 18 ds" and ?v = "digits_value 10 ds"
  have a: "at_digits str s ?x" "at_digits str (s + 9) ?y" "at_digits str (s + 18) ?z"
    using at_digits_take_drop [OF d(1), of 9] at_digits_take_drop [OF d(1), of 18] at_digits_take_drop [of str "s + 9" "drop 9 ds" 9] d(2)
    by simp_all
  have "length ?z = 1" using d(2) by simp
  then obtain z where z: "?z = [z]" by (metis One_nat_def length_0_conv length_Suc_conv)
  have "?v = digits_value 10 (take 18 ds) * 10 + z" using digits_value_take_drop [of 10 ds 18] d(2) z by (simp add: digits_value_def)
  moreover have "digits_value 10 (take 18 ds) = digits_value 10 ?x * 10 ^ 9 + digits_value 10 ?y"
    using digits_value_take_drop [of 10 "take 18 ds" 9] d(2) by (simp add: drop_take)
  ultimately have v: "?v = digits_value 10 ?x * 10 ^ 10 + digits_value 10 ?y * 10 + z" by simp
  have x: "(ucast (of_nat (digits_value 10 ?x) :: ulong) :: ulonglong) = of_nat (digits_value 10 ?x)"
    "(ucast (of_nat (digits_value 10 ?y) :: ulong) :: ulonglong) = of_nat (digits_value 10 ?y)"
    using value_at_less [OF a(1)] value_at_less [OF a(2)] d(2) by (simp_all add: ucast_of_nat_9)
  have "z < 10" using a(3) z by (simp add: at_digits_Cons)
  then have z': "(ucast (of_nat z :: ulong) :: ulonglong) = of_nat z" by (intro ucast_of_nat_9) simp
  have li: "(of_nat (digits_value 10 ?x) * LFACTOR1 + of_nat (digits_value 10 ?y) * 10 + of_nat z :: ulonglong) = of_nat ?v"
    unfolding v by (simp add: LFACTOR1_def)
  have "?v < 10 ^ 19" using value_at_less [OF d(1)] d(2) by simp
  then have "unat (of_nat ?v :: ulonglong) = ?v" by (intro unat_of_nat_small) simp
  then have o: "\<not> (negative \<and> (of_nat ?v :: ulonglong) > MAX_NEGATIVE_NUMBER)"
    using r by (auto simp: word_less_nat_alt MAX_NEGATIVE_NUMBER_def)
  have "strtoll_i str stop negative 0 (s + 9) s =
      Some (strtoll_end4 negative (of_nat (digits_value 10 ?x)) (of_nat (digits_value 10 ?y)) (of_nat z) (s + 19))"
    using strtoll_past_18 [OF d(1) _ e] a(3) z d(2) e by (simp add: strtoll_k_19 [of _ _ _ _ "s + 19"])
  then show ?thesis using o d(2) by (simp add: strtoll_end4_def x z' li)
qed

lemma split_digit: "(d::nat) < b \<Longrightarrow> (n * b + d) div b = n" "(d::nat) < b \<Longrightarrow> (n * b + d) mod b = d"
  using digit_div [of d b n] digit_mod [of d b n] by (simp_all only: ac_simps)

lemma strtoll_20:
  assumes d: "at_digits str s ds" "length ds = 20" and e: "ends_at str stop (s + length ds)"
    and v: "digits_value 10 ds = a * 10 ^ 11 + b * 100 + c" "b < 10 ^ 9" "c < 100"
  shows "strtoll_i str stop False 0 (s + 9) s =
    Some (if a > 184467440 \<or> a = 184467440 \<and> b \<ge> 737095516 \<and> c > 15 then strtoll_overflow False (s + 20)
          else (of_nat (digits_value 10 ds), s + 20, 0))"
proof -
  let ?x = "take 9 ds" and ?y = "take 9 (drop 9 ds)" and ?z = "drop 18 ds" and ?v = "digits_value 10 ds"
  have p: "at_digits str s ?x" "at_digits str (s + 9) ?y" "at_digits str (s + 18) ?z"
    using at_digits_take_drop [OF d(1), of 9] at_digits_take_drop [OF d(1), of 18] at_digits_take_drop [of str "s + 9" "drop 9 ds" 9] d(2)
    by simp_all
  have "length ?z = Suc (Suc 0)" using d(2) by simp
  then obtain z z' where z: "?z = [z, z']" by (metis length_0_conv length_Suc_conv)
  have zs: "z < 10" "z' < 10" using p(3) z by (simp_all add: at_digits_Cons)
  have "?v = digits_value 10 (take 18 ds) * 100 + (z * 10 + z')"
    using digits_value_take_drop [of 10 ds 18] d(2) z by (simp add: digits_value_def)
  moreover have "digits_value 10 (take 18 ds) = digits_value 10 ?x * 10 ^ 9 + digits_value 10 ?y"
    using digits_value_take_drop [of 10 "take 18 ds" 9] d(2) by (simp add: drop_take)
  ultimately have w: "?v = (digits_value 10 ?x * 10 ^ 9 + digits_value 10 ?y) * 100 + (z * 10 + z')" by simp
  have b: "digits_value 10 ?x < 10 ^ 9" "digits_value 10 ?y < 10 ^ 9"
    using value_at_less [OF p(1)] value_at_less [OF p(2)] d(2) by simp_all
  have v': "?v = (a * 10 ^ 9 + b) * 100 + c" using v(1) by simp
  have "?v div 100 = a * 10 ^ 9 + b" "?v mod 100 = c" unfolding v' by (rule split_digit [OF v(3)])+
  moreover have "?v div 100 = digits_value 10 ?x * 10 ^ 9 + digits_value 10 ?y" "?v mod 100 = z * 10 + z'"
    unfolding w using zs by (intro split_digit; simp)+
  ultimately have m: "z * 10 + z' = c" "a * 10 ^ 9 + b = digits_value 10 ?x * 10 ^ 9 + digits_value 10 ?y" by simp_all
  have "(a * 10 ^ 9 + b) div 10 ^ 9 = a" "(a * 10 ^ 9 + b) mod 10 ^ 9 = b" by (rule split_digit [OF v(2)])+
  moreover have "(digits_value 10 ?x * 10 ^ 9 + digits_value 10 ?y) div 10 ^ 9 = digits_value 10 ?x"
    "(digits_value 10 ?x * 10 ^ 9 + digits_value 10 ?y) mod 10 ^ 9 = digits_value 10 ?y"
    by (rule split_digit [OF b(2)])+
  ultimately have "digits_value 10 ?x = a" "digits_value 10 ?y = b" by (simp_all only: m(2))
  then show ?thesis
    using strtoll_past_18 [OF d(1) _ e, of False] strtoll_k20_unsigned [of str stop "s + 20" a b c] p(3) z d(2) e m(1) b v
    by (simp add: strtoll_k_20 [of _ _ _ _ _ "s + 20"])
qed

lemma skip_zeros_pass:
  "at_digits str s (replicate n 0) \<Longrightarrow> s + n \<le> stop \<Longrightarrow> skip_zeros str stop s = skip_zeros str stop (s + n)"
proof (induction n arbitrary: s)
  case (Suc n)
  then have "skip_zeros str stop s = skip_zeros str stop (s + 1)"
    by (subst skip_zeros.simps) (simp add: at_digits_Cons digit_char_def)
  then show ?case using Suc.IH [of "s + 1"] Suc.prems by (simp add: at_digits_Cons)
qed simp

lemma digit_char_nonzero: "d < 10 \<Longrightarrow> d \<noteq> 0 \<Longrightarrow> digit_char d \<noteq> 48"
  using digit_char_cases [of d] by (auto simp: digit_char_def)

text \<open>The leading zeros do not matter.\<close>

lemma strtoll_unsigned_zeros:
  assumes d: "at_digits str s (replicate n 0 @ ds)" "0 < n" and nz: "ds = [] \<or> hd ds \<noteq> 0"
    and e: "ends_at str stop (s + n + length ds)"
  shows "strtoll_unsigned str stop negative s = strtoll_i str stop negative 0 (s + n + 9) (s + n)"
proof -
  have a: "at_digits str s (replicate n 0)" "at_digits str (s + n) ds" using d(1) by (simp_all add: at_digits_append)
  have le: "s + n \<le> stop" using e by (auto simp: ends_at_def)
  obtain m where m: "n = Suc m" using d(2) by (cases n) simp_all
  have c: "byte_at str s = Some 48" "at_digits str (s + 1) (replicate m 0)" using a(1) m by (simp_all add: at_digits_Cons digit_char_def)
  have sk: "skip_zeros str stop (s + 1) = skip_zeros str stop (s + n)"
    using skip_zeros_pass [OF c(2), of stop] le m by simp
  show ?thesis
  proof (cases "s + n = stop")
    case True
    then have "skip_zeros str stop (s + n) = Some (True, s + n)" by (subst skip_zeros.simps) simp
    moreover have "read_digits str stop (s + n) 0 = Some (False, s + n, 0)" using True by (subst read_digits.simps) simp
    ultimately show ?thesis using True sk c(1) by (simp add: strtoll_unsigned_def strtoll_i_def)
  next
    case False
    have "\<exists>c. byte_at str (s + n) = Some c \<and> c \<noteq> 48"
    proof (cases ds)
      case Nil
      then show ?thesis using e False by (auto simp: ends_at_def)
    next
      case (Cons x xs)
      then show ?thesis using a(2) nz by (auto simp: at_digits_Cons digit_char_nonzero)
    qed
    then have "skip_zeros str stop (s + n) = Some (False, s + n)" using False by (subst skip_zeros.simps) auto
    then show ?thesis using sk c(1) by (simp add: strtoll_unsigned_def INIT_CNT_def)
  qed
qed

lemma strtoll_unsigned_nonzero:
  assumes d: "at_digits str s ds" "ds \<noteq> []" "hd ds \<noteq> 0" and e: "ends_at str stop (s + length ds)"
  shows "strtoll_unsigned str stop negative s = strtoll_i str stop negative 0 (s + 9) s"
proof -
  obtain x xs where x: "ds = x # xs" using d(2) by (cases ds) simp_all
  have c: "x < 10" "x \<noteq> 0" "byte_at str s = Some (digit_char x)" using d x by (simp_all add: at_digits_Cons)
  have "min (s + 9) stop \<noteq> s" using e x by (auto simp: ends_at_def)
  then have "read_digits str (min (s + 9) stop) s 0 = read_digits str (min (s + 9) stop) (s + 1) (of_nat x)"
    using c by (subst read_digits.simps) simp
  then show ?thesis using c digit_char_nonzero [of x] by (simp add: strtoll_unsigned_def strtoll_i_def INIT_CNT_def ac_simps)
qed

lemma digits_value_zeros [simp]: "digits_value r (replicate n 0) = 0"
  by (induction n) (simp_all add: digits_value_def)

lemma digits_value_Cons: "digits_value r (d # ds) = d * r ^ length ds + digits_value r ds"
  using digits_value_append [of r "[d]" ds] by (simp add: digits_value_def)

lemma leading_zeros:
  obtains n sig where "ds = replicate n (0::nat) @ sig" "sig = [] \<or> hd sig \<noteq> 0"
proof (induction ds arbitrary: thesis)
  case (Cons x ds)
  then obtain n sig where "ds = replicate n 0 @ sig" "sig = [] \<or> hd sig \<noteq> 0" by blast
  then show ?case
    using Cons.prems [of "Suc n" sig] Cons.prems [of 0 "x # ds"] by (cases "x = 0") simp_all
qed simp

lemma strtoll_unsigned_stripped:
  assumes d: "at_digits str s ds" "ds \<noteq> []" and e: "ends_at str stop (s + length ds)"
  obtains n sig where "strtoll_unsigned str stop negative s = strtoll_i str stop negative 0 (s + n + 9) (s + n)"
    "at_digits str (s + n) sig" "s + n + length sig = s + length ds" "digits_value 10 sig = digits_value 10 ds"
    "sig = [] \<or> 10 ^ (length sig - 1) \<le> digits_value 10 sig"
proof -
  obtain n sig where ds: "ds = replicate n 0 @ sig" and nz: "sig = [] \<or> hd sig \<noteq> 0"
    by (rule leading_zeros)
  have "at_digits str (s + n) sig" "digits_value 10 sig = digits_value 10 ds" "s + n + length sig = s + length ds"
    using d(1) by (simp_all add: ds at_digits_append digits_value_append)
  moreover have "sig = [] \<or> 10 ^ (length sig - 1) \<le> digits_value 10 sig"
    using nz by (cases sig) (auto simp: digits_value_Cons intro: trans_le_add1)
  moreover have "strtoll_unsigned str stop negative s = strtoll_i str stop negative 0 (s + n + 9) (s + n)"
  proof (cases "n = 0")
    case True
    then show ?thesis using strtoll_unsigned_nonzero [OF d _ e] nz d(2) ds by simp
  next
    case False
    then show ?thesis using d(1) e nz by (intro strtoll_unsigned_zeros [of _ _ _ sig]) (simp_all add: ds ac_simps)
  qed
  ultimately show ?thesis using that by blast
qed

lemma split_20: "(n :: nat) = n div 10 ^ 11 * 10 ^ 11 + (n div 100 mod 10 ^ 9) * 100 + n mod 100"
proof -
  have "n div 100 = n div 100 div 10 ^ 9 * 10 ^ 9 + n div 100 mod 10 ^ 9" by (rule div_mult_mod_eq [symmetric])
  also have "n div 100 div 10 ^ 9 = n div 10 ^ 11" by (simp add: div_mult2_eq [symmetric])
  finally have "n div 100 * 100 = (n div 10 ^ 11 * 10 ^ 9 + n div 100 mod 10 ^ 9) * 100" by (simp only:)
  then have "n div 100 * 100 = n div 10 ^ 11 * 10 ^ 11 + (n div 100 mod 10 ^ 9) * 100" by simp
  then show ?thesis using div_mult_mod_eq [of n 100] by linarith
qed

lemma no_overflow_20:
  assumes "(n :: nat) < 2 ^ 64" and n: "n = a * 10 ^ 11 + b * 100 + c" and "b < 10 ^ 9" "c < 100"
  shows "\<not> (a > 184467440 \<or> a = 184467440 \<and> b \<ge> 737095516 \<and> c > 15)"
  using assms by auto

lemma strtoll_unsigned_value:
  assumes d: "at_digits str s ds" "ds \<noteq> []" and e: "ends_at str stop (s + length ds)"
    and r: "if negative then digits_value 10 ds \<le> 2 ^ 63 else digits_value 10 ds < 2 ^ 64"
  shows "strtoll_unsigned str stop negative s = Some (strtoll_signed negative (of_nat (digits_value 10 ds)) (s + length ds))"
proof -
  obtain n sig where i: "strtoll_unsigned str stop negative s = strtoll_i str stop negative 0 (s + n + 9) (s + n)"
    and sg: "at_digits str (s + n) sig" and l: "s + n + length sig = s + length ds"
    and v: "digits_value 10 sig = digits_value 10 ds" and lo: "sig = [] \<or> 10 ^ (length sig - 1) \<le> digits_value 10 sig"
    by (rule strtoll_unsigned_stripped [OF d e])
  have e': "ends_at str stop (s + n + length sig)" using e by (simp only: l)
  have up: "length sig - 1 < k" if "digits_value 10 ds < 10 ^ k" "0 < k" for k
  proof (cases "sig = []")
    case False
    then have "(10 :: nat) ^ (length sig - 1) < 10 ^ k" using lo v that(1) by linarith
    then show ?thesis by (rule power_less_imp_less_exp [rotated]) simp
  qed (use that in simp)
  have "digits_value 10 ds < 10 ^ (if negative then 19 else 20)" using r by (auto split: if_splits)
  from up [OF this] have "length sig \<le> (if negative then 19 else 20)" by (cases negative) simp_all
  then consider "length sig \<le> 18" | "length sig = 19" | "length sig = 20" "\<not> negative"
    by (cases "length sig \<le> 18"; cases "length sig = 19") (auto split: if_splits)
  then show ?thesis
  proof cases
    case 1
    from strtoll_18 [OF sg 1 e'] show ?thesis by (simp only: i l v)
  next
    case 2
    have "negative \<Longrightarrow> digits_value 10 sig \<le> 2 ^ 63" using r v by simp
    from strtoll_19 [OF sg 2 e' this] show ?thesis by (simp only: i l v)
  next
    case 3
    let ?v = "digits_value 10 ds"
    have "\<not> (?v div 10 ^ 11 > 184467440 \<or> ?v div 10 ^ 11 = 184467440 \<and> ?v div 100 mod 10 ^ 9 \<ge> 737095516 \<and> ?v mod 100 > 15)"
      using r 3 by (intro no_overflow_20 [OF _ split_20]) simp_all
    then have "strtoll_i str stop False 0 (s + n + 9) (s + n) = Some (of_nat ?v, s + n + 20, 0)"
      using strtoll_20 [OF sg 3(1) e', unfolded v, OF split_20] by (simp only: if_False) simp
    then show ?thesis using i l 3 by (simp add: strtoll_signed_def)
  qed
qed

lemma skip_blanks_pass:
  assumes "set blanks \<subseteq> {32, 9}" "str = blanks @ rest" "\<forall>e. stop = Some e \<longrightarrow> length blanks < e"
    "rest \<noteq> []" "hd rest \<noteq> 32" "hd rest \<noteq> 9"
  shows "skip_blanks str stop 0 = Some (length blanks)"
proof -
  have "skip_blanks str stop s = skip_blanks str stop (s + n)" if "s + n \<le> length blanks" for s n
    using that
  proof (induction n arbitrary: s)
    case (Suc n)
    then have "blanks ! s \<in> set blanks" by (intro nth_mem) simp
    then have "blanks ! s \<in> {32, 9}" using assms(1) by blast
    then have "skip_blanks str stop s = skip_blanks str stop (s + 1)"
      using Suc.prems assms(2,3) by (subst skip_blanks.simps) (auto simp: byte_at_def nth_append)
    then show ?case using Suc.IH [of "s + 1"] Suc.prems by simp
  qed simp
  from this [of 0 "length blanks"] have "skip_blanks str stop 0 = skip_blanks str stop (length blanks)" by simp
  also have "\<dots> = Some (length blanks)"
    using assms by (subst skip_blanks.simps) (cases rest, auto simp: byte_at_def)
  finally show ?thesis .
qed

text \<open>Where the conversion of a text stops reading: at the given end or at a character that is not a digit.\<close>

definition number_ends :: "bytes \<Rightarrow> nat option \<Rightarrow> nat \<Rightarrow> bool" where
  "number_ends str endptr e =
     (case endptr of Some stop \<Rightarrow> ends_at str stop e | None \<Rightarrow> (\<exists>c. byte_at str e = Some c \<and> c - 48 > 9))"

lemma my_strtoll10_text:
  assumes t: "str = blanks @ sign @ map digit_char ds @ post" and b: "set blanks \<subseteq> {32, 9}" and sg: "sign = [] \<or> sign = [43] \<or> sign = [45]"
    and ds: "ds \<noteq> []" "\<forall>d \<in> set ds. d < 10" and e: "number_ends str endptr (length (blanks @ sign) + length ds)"
    and l: "endptr = None \<Longrightarrow> length sign + length ds < 65535"
  shows "\<exists>stop. my_strtoll10 str endptr = strtoll_unsigned str stop (sign = [45]) (length (blanks @ sign)) \<and>
    ends_at str stop (length (blanks @ sign) + length ds)"
proof -
  let ?s = "length blanks"
  define stop where "stop = (case endptr of Some e \<Rightarrow> e | None \<Rightarrow> ?s + 65535)"
  have st: "ends_at str stop (length (blanks @ sign) + length ds)"
    using e l by (auto simp: number_ends_def stop_def ends_at_def split: option.splits)
  then have gt: "?s + length sign < stop" using ds(1) by (cases ds) (auto simp: ends_at_def)
  obtain d ds' where d: "ds = d # ds'" "d < 10" using ds by (cases ds) auto
  have dc: "digit_char d \<noteq> 32" "digit_char d \<noteq> 9" "digit_char d \<noteq> 45" "digit_char d \<noteq> 43" "digit_char d \<noteq> 0"
    using digit_char_cases [OF d(2)] by (auto simp: digit_char_def)
  have rest: "sign @ map digit_char ds @ post \<noteq> []" "hd (sign @ map digit_char ds @ post) \<notin> {32, 9, 0}"
    using d sg dc by auto
  have sk: "skip_blanks str endptr 0 = Some ?s"
    using rest gt by (intro skip_blanks_pass [OF b t]) (auto simp: stop_def)
  have c: "byte_at str ?s = Some (hd (sign @ map digit_char ds @ post))"
    using rest(1) unfolding t byte_at_def by (simp add: nth_append hd_conv_nth)
  have "my_strtoll10 str endptr = strtoll_unsigned str stop (sign = [45]) (length (blanks @ sign))"
    using sk c rest(2) gt sg d dc
    by (cases endptr) (auto simp: my_strtoll10_def stop_def)
  then show ?thesis using st by blast
qed

lemma my_strtoll10_value:
  assumes "str = blanks @ sign @ map digit_char ds @ post" and "set blanks \<subseteq> {32, 9}" and "sign = [] \<or> sign = [43] \<or> sign = [45]"
    and "ds \<noteq> []" "\<forall>d \<in> set ds. d < 10" and "number_ends str endptr (length (blanks @ sign) + length ds)"
    and "endptr = None \<Longrightarrow> length sign + length ds < 65535"
    and "if sign = [45] then digits_value 10 ds \<le> 2 ^ 63 else digits_value 10 ds < 2 ^ 64"
  shows "my_strtoll10 str endptr =
    Some (strtoll_signed (sign = [45]) (of_nat (digits_value 10 ds)) (length (blanks @ sign) + length ds))"
proof -
  obtain stop where s: "my_strtoll10 str endptr = strtoll_unsigned str stop (sign = [45]) (length (blanks @ sign))"
      "ends_at str stop (length (blanks @ sign) + length ds)"
    using my_strtoll10_text [OF assms(1-7)] by blast
  have "at_digits str (length (blanks @ sign)) ds"
    using at_digits_text [OF assms(5), of "blanks @ sign" post] assms(1) by simp
  from strtoll_unsigned_value [OF this assms(4) s(2) assms(8)] s(1) show ?thesis by simp
qed

text \<open>
  C18: \<open>my_strtoll10\<close> on blanks, an optional sign and any number of decimal digits, leading zeros included, returns the
  number they spell and the position behind them, with error -1 after a minus sign and 0 otherwise, provided the
  number is at most 2^63 after a minus sign and below 2^64 otherwise. This holds with an end pointer and without.
\<close>

theorem my_strtoll10_correct:
  assumes "str = blanks @ sign @ map digit_char ds @ post" and "set blanks \<subseteq> {32, 9}" and "sign = [] \<or> sign = [43] \<or> sign = [45]"
    and "ds \<noteq> []" "\<forall>d \<in> set ds. d < 10" and "number_ends str endptr (length (blanks @ sign) + length ds)"
    and "endptr = None \<Longrightarrow> length sign + length ds < 65535"
    and "if sign = [45] then digits_value 10 ds \<le> 2 ^ 63 else digits_value 10 ds < 2 ^ 64"
  shows "my_strtoll10 str endptr =
    Some (if sign = [45] then - of_nat (digits_value 10 ds) else of_nat (digits_value 10 ds),
          length (blanks @ sign) + length ds, if sign = [45] then - 1 else 0)"
  using my_strtoll10_value [OF assms] by (simp add: strtoll_signed_def)

theorem my_strtoll10_correct_witness:
  "my_strtoll10 (map of_char ''  -00042 rest'') None = Some (- 42, 8, - 1)"
proof -
  have "my_strtoll10 (map of_char ''  -00042 rest'') None =
      Some (if [45] = [45 :: uchar] then - of_nat (digits_value 10 [0, 0, 0, 4, 2]) else of_nat (digits_value 10 [0, 0, 0, 4, 2]),
        length ([32, 32] @ [45 :: uchar]) + length [0, 0, 0, 4, 2 :: nat], if [45] = [45 :: uchar] then - 1 else 0)"
    by (rule my_strtoll10_correct [where post = "map of_char '' rest''"])
      (simp_all add: of_char_def digit_char_def number_ends_def byte_at_def digits_value_def)
  then show ?thesis by (simp add: digits_value_def)
qed

lemma length_digits_of: "2 \<le> r \<Longrightarrow> n < r ^ k \<Longrightarrow> 0 < k \<Longrightarrow> length (digits_of r n) \<le> k"
proof (induction k arbitrary: n)
  case (Suc k)
  then show ?case
    by (cases "n < r"; cases k) (simp_all add: digits_of.simps [of r n] div_digit_bound)
qed simp

lemma length_digits_exact: "2 \<le> r \<Longrightarrow> r ^ k \<le> n \<Longrightarrow> n < r ^ Suc k \<Longrightarrow> length (digits_of r n) = Suc k"
proof (induction k arbitrary: n)
  case 0
  then show ?case by (simp add: digits_of.simps)
next
  case (Suc k)
  have "r \<le> r ^ Suc k" using Suc.prems(1) by (simp add: self_le_power)
  then have "\<not> n < r" using Suc.prems(2) by linarith
  moreover have "r ^ k \<le> n div r" using div_le_mono [OF Suc.prems(2), of r] Suc.prems(1) by simp
  moreover have "n div r < r ^ Suc k" using Suc.prems by (intro div_digit_bound) simp_all
  ultimately show ?case using Suc.IH [of "n div r"] Suc.prems(1) by (simp add: digits_of.simps [of r n])
qed

lemma hd_digits_of: "2 \<le> r \<Longrightarrow> 0 < n \<Longrightarrow> hd (digits_of r n) \<noteq> 0"
proof (induction r n rule: digits_of.induct)
  case (1 r n)
  show ?case
  proof (cases "n < r")
    case False
    then have "0 < n div r" using "1.prems" by (simp add: div_greater_zero_iff)
    moreover have "digits_of r (n div r) \<noteq> []" by (simp add: digits_of.simps [of r "n div r"])
    ultimately show ?thesis using 1 False by (simp add: digits_of.simps [of r n])
  qed (use "1.prems" in \<open>simp add: digits_of.simps [of r n]\<close>)
qed

lemma decimal_digits:
  "digits_of 10 n \<noteq> []" "\<forall>d \<in> set (digits_of 10 n). d < 10" "digits_value 10 (digits_of 10 n) = n"
  using digits_of_less [of 10 _ n] by (auto simp: digits_value_digits_of) (simp add: digits_of.simps [of 10 n] split: if_splits)

text \<open>The decimal text of a number in range is read back.\<close>

lemma decimal_read_back:
  assumes e: "number_ends (t @ rest) endptr (length t)" and t: "t = (if neg then [45] else []) @ map digit_char (digits_of 10 m)"
    and r: "if neg then m \<le> 2 ^ 63 else m < 2 ^ 64"
  shows "my_strtoll10 (t @ rest) endptr = Some (strtoll_signed neg (of_nat m) (length t))" and "length t \<le> 20"
proof -
  have "length (digits_of 10 m) \<le> (if neg then 19 else 20)" using r by (intro length_digits_of) (auto split: if_splits)
  then show l: "length t \<le> 20" using t by (auto split: if_splits)
  define sign :: bytes where "sign = (if neg then [45] else [])"
  have s: "sign = [] \<or> sign = [43] \<or> sign = [45]" "(sign = [45]) = neg" by (simp_all add: sign_def)
  have t': "t = sign @ map digit_char (digits_of 10 m)" "length t = length ([] @ sign) + length (digits_of 10 m)"
    by (simp_all add: t sign_def)
  have "my_strtoll10 (t @ rest) endptr =
      Some (strtoll_signed (sign = [45]) (of_nat (digits_value 10 (digits_of 10 m))) (length ([] @ sign) + length (digits_of 10 m)))"
    by (rule my_strtoll10_value [OF _ _ s(1) decimal_digits(1,2), where post = rest])
      (use e l r in \<open>simp_all only: t'(2) [symmetric] s(2) decimal_digits(3), simp_all add: t'(1)\<close>)
  then show "my_strtoll10 (t @ rest) endptr = Some (strtoll_signed neg (of_nat m) (length t))"
    by (simp only: s(2) decimal_digits(3) t'(2))
qed

lemma magnitude_range:
  fixes val :: ulonglong
  assumes "neg = (radix < 0 \<and> sint val < 0)"
  shows "if neg then unat (snd (magnitude radix val)) \<le> 2 ^ 63 else unat (snd (magnitude radix val)) < 2 ^ 64"
proof (cases neg)
  case True
  have "- (2 ^ 63) \<le> sint val" using sint_ge [of val] by simp
  then show ?thesis using True assms unfolding unat_magnitude by (simp add: nat_le_iff)
next
  case False
  then show ?thesis using unsigned_less [of "snd (magnitude radix val)", where 'a = nat] by simp
qed

text \<open>
  C17: Every 64-bit value written by \<open>longlong10_to_str\<close>, signed or unsigned, is at most 20 characters long and is read back
  by \<open>my_strtoll10\<close>, both as a string with its zero byte and as a piece of text with an end pointer. The error
  code is -1 exactly for negative values.
\<close>

theorem longlong_text_roundtrip:
  "\<exists>t. longlong10_to_str val radix = Some t \<and> length t \<le> 20 \<and>
     my_strtoll10 (t @ 0 # rest) None = Some (val, length t, if radix < 0 \<and> sint val < 0 then - 1 else 0) \<and>
     my_strtoll10 (t @ rest) (Some (length t)) = Some (val, length t, if radix < 0 \<and> sint val < 0 then - 1 else 0)"
proof -
  define neg where "neg = (radix < 0 \<and> sint val < 0)"
  define m where "m = unat (snd (magnitude radix val))"
  define t where "t = (if neg then [45] else [] :: bytes) @ map digit_char (digits_of 10 m)"
  have w: "longlong10_to_str val radix = Some t"
    unfolding longlong10_to_str_def longlong_text_magnitude [OF tables(1), of 10 radix val, simplified] t_def m_def neg_def
      unat_magnitude decimal_text ..
  have r: "if neg then m \<le> 2 ^ 63 else m < 2 ^ 64" unfolding m_def by (rule magnitude_range [OF neg_def])
  have v: "strtoll_signed neg (of_nat m) n = (val, n, if neg then - 1 else 0)" for n
    by (simp add: strtoll_signed_def m_def magnitude_def neg_def)
  have "number_ends (t @ 0 # rest) None (length t)" "number_ends (t @ rest) (Some (length t)) (length t)"
    by (simp_all add: number_ends_def byte_at_def ends_at_def nth_append)
  from this [THEN decimal_read_back(1) [OF _ t_def r]] decimal_read_back(2) [OF this(2) t_def r] w
  show ?thesis unfolding v neg_def [symmetric] by blast
qed

text \<open>
  C28: The test for a number above 2^64 - 1 misses part of the range. Of a number with twenty digits it compares the parts of
  nine, nine and two digits with those of 2^64 - 1, but asks for a larger last part even when the middle part is
  already larger. Every number above 2^64 - 1 with the first nine digits 184467440 and a last part of at most 15 is accepted
  without error and its value is the number modulo 2^64.
\<close>

theorem my_strtoll10_misses_overflow:
  assumes "737095516 < b" "b < 10 ^ 9" "c \<le> 15" "n = 184467440 * 10 ^ 11 + b * 100 + c"
  shows "my_strtoll10 (map digit_char (digits_of 10 n) @ rest) (Some 20) = Some (of_nat n, 20, 0) \<and>
    2 ^ 64 \<le> n \<and> unat (of_nat n :: ulonglong) = n - 2 ^ 64"
proof -
  let ?ds = "digits_of 10 n" and ?str = "map digit_char (digits_of 10 n) @ rest"
  have n: "10 ^ 19 \<le> n" "n < 10 ^ 20" "2 ^ 64 \<le> n" "n - 2 ^ 64 < 2 ^ 64" using assms by simp_all
  have l: "length ?ds = 20" by (rule length_digits_exact [of 10 19 n, simplified]) (use n in simp_all)
  have a: "at_digits ?str 0 ?ds" using at_digits_text [OF decimal_digits(2), of "[]" n rest] by simp
  have e: "number_ends ?str (Some 20) 20" by (simp add: number_ends_def ends_at_def)
  obtain stop where s: "my_strtoll10 ?str (Some 20) = strtoll_unsigned ?str stop False 0" "ends_at ?str stop 20"
    using my_strtoll10_text [of ?str "[]" "[]" ?ds rest "Some 20"] decimal_digits [of n] e l by auto
  have "hd ?ds \<noteq> 0" using n(1) by (intro hd_digits_of) simp_all
  then have "strtoll_unsigned ?str stop False 0 = strtoll_i ?str stop False 0 (0 + 9) 0"
    using a s(2) l decimal_digits(1) [of n] by (intro strtoll_unsigned_nonzero [of _ _ ?ds, simplified]) simp_all
  also have "\<dots> = Some (of_nat n, 20, 0)"
    using strtoll_20 [OF a l, of stop 184467440 b c] s(2) l assms by (simp add: decimal_digits)
  finally have "my_strtoll10 ?str (Some 20) = Some (of_nat n, 20, 0)" using s(1) by simp
  moreover have "unat (of_nat n :: ulonglong) = n mod 2 ^ 64" by (simp add: unat_of_nat)
  moreover have "n mod 2 ^ 64 = n - 2 ^ 64" using n(3,4) by (simp only: le_mod_geq mod_less)
  ultimately show ?thesis using n(3) by simp
qed

theorem my_strtoll10_misses_overflow_witness:
  "my_strtoll10 (map digit_char (digits_of 10 18446744073709551700)) (Some 20) = Some (84, 20, 0)"
proof -
  have "my_strtoll10 (map digit_char (digits_of 10 18446744073709551700) @ []) (Some 20) = Some (of_nat 18446744073709551700, 20, 0)"
    using my_strtoll10_misses_overflow [of 737095517 0 18446744073709551700 "[]"] by simp
  then show ?thesis by simp
qed

end
