(* ===== verification/Client.thy ===== *)
theory Client
  imports Net_Serv Pack
begin

text \<open>
  The client library's protocol layer: \<^verbatim>\<open>libmysql/client.c\<close> and the commands of
  \<^verbatim>\<open>libmysql/libmysql.c\<close> that are built on it. A \<open>MYSQL\<close> handle and a \<open>MYSQL_RES\<close> are records. Pointers into
  the packet buffer or into the block of a stored row are offsets, a null pointer is \<^const>\<open>None\<close>, and an
  operation is \<^const>\<open>None\<close> as a whole where the code would access memory outside a block or not return.
  Sizes are those of a platform with 32-bit pointers and \<open>long\<close>. The strings \<open>last_error\<close> and \<open>sqlstate\<close> of \<open>NET\<close>,
  which only the client writes, are fields of the handle. Signal masks and debug output are left out, and the
  sizes computed from the number of columns are taken to fit 32 bits, except where \<open>unpack_fields\<close> truncates them.
\<close>

subsection \<open>Constants\<close>

definition SQLSTATE_LENGTH :: nat where "SQLSTATE_LENGTH = 5"
definition MYSQL_ERRMSG_SIZE :: nat where "MYSQL_ERRMSG_SIZE = 512"

definition CLIENT_LONG_FLAG :: ulong where "CLIENT_LONG_FLAG = 4"
definition CLIENT_LOCAL_FILES :: ulong where "CLIENT_LOCAL_FILES = 128"
definition CLIENT_PROTOCOL_41 :: ulong where "CLIENT_PROTOCOL_41 = 512"
definition CLIENT_TRANSACTIONS :: ulong where "CLIENT_TRANSACTIONS = 8192"

definition SERVER_STATUS_IN_TRANS :: uint32 where "SERVER_STATUS_IN_TRANS = 1"
definition SERVER_STATUS_AUTOCOMMIT :: uint32 where "SERVER_STATUS_AUTOCOMMIT = 2"
definition SERVER_MORE_RESULTS_EXISTS :: uint32 where "SERVER_MORE_RESULTS_EXISTS = 8"

definition COM_QUIT :: uchar where "COM_QUIT = 1"
definition COM_INIT_DB :: uchar where "COM_INIT_DB = 2"
definition COM_QUERY :: uchar where "COM_QUERY = 3"
definition COM_FIELD_LIST :: uchar where "COM_FIELD_LIST = 4"
definition COM_REFRESH :: uchar where "COM_REFRESH = 7"
definition COM_SHUTDOWN :: uchar where "COM_SHUTDOWN = 8"
definition COM_STATISTICS :: uchar where "COM_STATISTICS = 9"
definition COM_PROCESS_INFO :: uchar where "COM_PROCESS_INFO = 10"
definition COM_PROCESS_KILL :: uchar where "COM_PROCESS_KILL = 12"
definition COM_DEBUG :: uchar where "COM_DEBUG = 13"
definition COM_PING :: uchar where "COM_PING = 14"
definition COM_SET_OPTION :: uchar where "COM_SET_OPTION = 27"

definition CR_UNKNOWN_ERROR :: net_errno where "CR_UNKNOWN_ERROR = 2000"
definition CR_SERVER_GONE_ERROR :: net_errno where "CR_SERVER_GONE_ERROR = 2006"
definition CR_OUT_OF_MEMORY :: net_errno where "CR_OUT_OF_MEMORY = 2008"
definition CR_WRONG_HOST_INFO :: net_errno where "CR_WRONG_HOST_INFO = 2009"
definition CR_SERVER_LOST :: net_errno where "CR_SERVER_LOST = 2013"
definition CR_COMMANDS_OUT_OF_SYNC :: net_errno where "CR_COMMANDS_OUT_OF_SYNC = 2014"
definition CR_NET_PACKET_TOO_LARGE :: net_errno where "CR_NET_PACKET_TOO_LARGE = 2020"
definition CR_MALFORMED_PACKET :: net_errno where "CR_MALFORMED_PACKET = 2027"
definition CR_FETCH_CANCELED :: net_errno where "CR_FETCH_CANCELED = 2050"

definition c_string :: "string \<Rightarrow> bytes" where
  "c_string s = map of_char s"

definition unknown_sqlstate :: bytes where "unknown_sqlstate = c_string ''HY000''"
definition not_error_sqlstate :: bytes where "not_error_sqlstate = c_string ''00000''"

text \<open>The English table of messages.\<close>

definition client_errors :: "string list" where
  "client_errors =
     [''Unknown MySQL error'',
      ''Can't create UNIX socket (%d)'',
      ''Can't connect to local MySQL server through socket '%-.100s' (%d)'',
      ''Can't connect to MySQL server on '%-.100s' (%d)'',
      ''Can't create TCP/IP socket (%d)'',
      ''Unknown MySQL server host '%-.100s' (%d)'',
      ''MySQL server has gone away'',
      ''Protocol mismatch; server version = %d, client version = %d'',
      ''MySQL client ran out of memory'',
      ''Wrong host info'',
      ''Localhost via UNIX socket'',
      ''%-.100s via TCP/IP'',
      ''Error in server handshake'',
      ''Lost connection to MySQL server during query'',
      ''Commands out of sync; you can't run this command now'',
      ''Named pipe: %-.32s'',
      ''Can't wait for named pipe to host: %-.64s  pipe: %-.32s (%lu)'',
      ''Can't open named pipe to host: %-.64s  pipe: %-.32s (%lu)'',
      ''Can't set state of named pipe to host: %-.64s  pipe: %-.32s (%lu)'',
      ''Can't initialize character set %-.32s (path: %-.100s)'',
      ''Got packet bigger than 'max_allowed_packet' bytes'',
      ''Embedded server'',
      ''Error on SHOW SLAVE STATUS:'',
      ''Error on SHOW SLAVE HOSTS:'',
      ''Error connecting to slave:'',
      ''Error connecting to master:'',
      ''SSL connection error'',
      ''Malformed packet'',
      ''This client library is licensed only for use with MySQL servers having '%s' license'',
      ''Invalid use of null pointer'',
      ''Statement not prepared'',
      ''No data supplied for parameters in prepared statement'',
      ''Data truncated'',
      ''No parameters exist in the statement'',
      ''Invalid parameter number'',
      ''Can't send long data for non-string/non-binary data types (parameter: %d)'',
      ''Using unsupported buffer type: %d  (parameter: %d)'',
      ''Shared memory: %-.100s'',
      ''Can't open shared memory; client could not create request event (%lu)'',
      ''Can't open shared memory; no answer event received from server (%lu)'',
      ''Can't open shared memory; server could not allocate file mapping (%lu)'',
      ''Can't open shared memory; server could not get pointer to file mapping (%lu)'',
      ''Can't open shared memory; client could not allocate file mapping (%lu)'',
      ''Can't open shared memory; client could not get pointer to file mapping (%lu)'',
      ''Can't open shared memory; client could not create %s event (%lu)'',
      ''Can't open shared memory; no answer from server (%lu)'',
      ''Can't open shared memory; cannot send request event to server (%lu)'',
      ''Wrong or unknown protocol'',
      ''Invalid connection handle'',
      ''Connection using old (pre-4.1.1) authentication protocol refused (client option 'secure_auth' enabled)'',
      ''Row retrieval was canceled by mysql_stmt_close() call'',
      ''Attempt to read column without prior row fetch'',
      ''Prepared statement contains no metadata'',
      ''Attempt to read a row while there is no result set associated with the statement'',
      ''This feature is not implemented yet'',
      ''Lost connection to MySQL server at '%s', system error: %d'',
      ''Statement closed indirectly because of a preceeding %s() call'',
      ''The number of columns in the result set differs from the number of bound buffers. You must reset the statement, rebind the result set columns, and execute the statement again'',
      ''This handle is already connected. Use a separate handle for each connection.'']"

definition ER :: "net_errno \<Rightarrow> bytes" where
  "ER code =
     (if CR_UNKNOWN_ERROR \<le> code \<and> code - CR_UNKNOWN_ERROR < length client_errors
      then c_string (client_errors ! (code - CR_UNKNOWN_ERROR)) else [])"

subsection \<open>The handle\<close>

datatype mysql_status = MYSQL_STATUS_READY | MYSQL_STATUS_GET_RESULT | MYSQL_STATUS_USE_RESULT

record MYSQL_FIELD =
  field_name :: "bytes option"
  org_name :: "bytes option"
  field_table :: "bytes option"
  org_table :: "bytes option"
  field_db :: "bytes option"
  catalog :: "bytes option"
  field_def :: "bytes option"
  field_length :: nat
  max_length :: nat
  name_length :: nat
  org_name_length :: nat
  table_length :: nat
  org_table_length :: nat
  db_length :: nat
  catalog_length :: nat
  def_length :: nat
  field_flags :: uint32
  decimals :: uchar
  charsetnr :: nat
  field_type :: uchar

record stored_row =
  row_data :: "nat option list"
  row_block :: bytes

record 'v mysql =
  mysql_net :: "'v net"
  last_error :: bytes
  sqlstate :: bytes
  mysql_status :: mysql_status
  server_status :: uint32
  server_capabilities :: ulong
  options_client_flag :: ulong
  warning_count :: uint32
  affected_rows :: ulonglong
  insert_id :: ulonglong
  mysql_info :: "nat option"
  mysql_db :: "bytes option"
  mysql_fields :: "MYSQL_FIELD list option"
  field_count :: nat
  packet_length :: "nat option"
  mysql_reconnect_flag :: bool
  unbuffered_fetch_owner :: "nat option"
  fetch_cancelled :: "nat list"

text \<open>
  What \<open>local_infile_init\<close>, \<open>local_infile_read\<close> and \<open>local_infile_error\<close>, callbacks of the application, do with
  one file: the first fails with an error, or the second delivers these blocks and then reports the end of
  the file or an error.
\<close>

datatype infile =
    Infile_refused net_errno bytes
  | Infile_blocks "bytes list" "(net_errno \<times> bytes) option"

text \<open>
  What the operations get from outside: the packet layer's environment, the memory \<open>alloc_root\<close> hands out,
  how the handle reconnects and the callbacks for local files.
\<close>

record 'v client_env =
  client_net :: "'v net_env"
  alloc_root :: "nat \<Rightarrow> bytes option"
  client_reconnect :: "'v mysql \<Rightarrow> (bool \<times> 'v mysql) option"
  local_infile :: "bytes \<Rightarrow> nat \<Rightarrow> infile"

definition sizeof_pointer :: nat where "sizeof_pointer = 4"
definition sizeof_MYSQL_ROWS :: nat where "sizeof_MYSQL_ROWS = 12"
definition sizeof_MYSQL_DATA :: nat where "sizeof_MYSQL_DATA = 56"
definition sizeof_MYSQL_FIELD :: nat where "sizeof_MYSQL_FIELD = 84"

definition protocol_41 :: "'v mysql \<Rightarrow> bool" where
  "protocol_41 mysql \<longleftrightarrow> server_capabilities mysql AND CLIENT_PROTOCOL_41 \<noteq> 0"

definition set_mysql_error :: "'v mysql \<Rightarrow> net_errno \<Rightarrow> bytes \<Rightarrow> 'v mysql" where
  "set_mysql_error mysql errcode state =
     mysql\<lparr>mysql_net := (mysql_net mysql)\<lparr>last_errno := errcode\<rparr>, last_error := ER errcode, sqlstate := state\<rparr>"

definition net_clear_error :: "'v mysql \<Rightarrow> 'v mysql" where
  "net_clear_error mysql =
     mysql\<lparr>mysql_net := (mysql_net mysql)\<lparr>last_errno := 0\<rparr>, last_error := [], sqlstate := not_error_sqlstate\<rparr>"

definition free_old_query :: "'v mysql \<Rightarrow> 'v mysql" where
  "free_old_query mysql = mysql\<lparr>mysql_fields := None, field_count := 0, warning_count := 0, mysql_info := None\<rparr>"

definition end_server :: "'v mysql \<Rightarrow> 'v mysql" where
  "end_server mysql = free_old_query (mysql\<lparr>mysql_net := net_end ((mysql_net mysql)\<lparr>net_vio := None\<rparr>)\<rparr>)"

text \<open>The bytes from \<open>net->read_pos\<close> on.\<close>

definition read_bytes :: "'v mysql \<Rightarrow> bytes option" where
  "read_bytes mysql = map_option (drop (net_read_pos (mysql_net mysql))) (buff (mysql_net mysql))"

text \<open>\<open>strmake\<close> copies up to \<open>n\<close> bytes and stops at a zero byte.\<close>

definition strmake :: "bytes \<Rightarrow> nat \<Rightarrow> bytes option" where
  "strmake from n =
     (let s = takeWhile (\<lambda>c. c \<noteq> 0) (take n from)
      in if length s < length (take n from) \<or> n \<le> length from then Some s else None)"

subsection \<open>Reading a packet\<close>

text \<open>The error packet at \<open>read_pos\<close>: the code, the SQL state if there is one, the message.\<close>

definition read_error_packet :: "'v mysql \<Rightarrow> bytes \<Rightarrow> nat \<Rightarrow> 'v mysql option" where
  "read_error_packet mysql packet len =
     (if len > 3 then do {
        code \<leftarrow> uint2korr (drop 1 packet);
        c \<leftarrow> get_byte (Some packet) 3;
        (state, pos) \<leftarrow>
          (if protocol_41 mysql \<and> c = 35 then do {
             s \<leftarrow> strmake (drop 4 packet) SQLSTATE_LENGTH;
             Some (s, 3 + SQLSTATE_LENGTH + 1)
           } else Some (unknown_sqlstate, 3));
        message \<leftarrow> strmake (drop pos packet) (min (len - 2) (MYSQL_ERRMSG_SIZE - 1));
        Some (mysql\<lparr>mysql_net := (mysql_net mysql)\<lparr>last_errno := unat code\<rparr>, last_error := message, sqlstate := state\<rparr>)
      } else Some (set_mysql_error mysql CR_UNKNOWN_ERROR unknown_sqlstate))"

definition cli_safe_read :: "'v client_env \<Rightarrow> 'v mysql \<Rightarrow> (nat option \<times> 'v mysql) option" where
  "cli_safe_read env mysql = do {
     (len, net) \<leftarrow> (if net_vio (mysql_net mysql) \<noteq> None then my_net_read (client_net env) (mysql_net mysql)
                    else Some (Some 0, mysql_net mysql));
     let mysql = mysql\<lparr>mysql_net := net\<rparr>;
     if len = None \<or> len = Some 0 then
       let mysql = end_server mysql in
       Some (None, set_mysql_error mysql
                     (if last_errno (mysql_net mysql) = ER_NET_PACKET_TOO_LARGE then CR_NET_PACKET_TOO_LARGE else CR_SERVER_LOST)
                     unknown_sqlstate)
     else do {
       packet \<leftarrow> read_bytes mysql;
       c \<leftarrow> get_byte (Some packet) 0;
       if c = 255 then do {
         mysql \<leftarrow> read_error_packet mysql packet (the len);
         Some (None, mysql\<lparr>server_status := server_status mysql AND NOT SERVER_MORE_RESULTS_EXISTS\<rparr>)
       } else Some (len, mysql)
     }
   }"

subsection \<open>Sending a command\<close>

text \<open>\<open>stmt_skip\<close> is the test of the statement's state, false without a statement.\<close>

definition cli_advanced_command ::
  "'v client_env \<Rightarrow> 'v mysql \<Rightarrow> uchar \<Rightarrow> bytes \<Rightarrow> bytes \<Rightarrow> bool \<Rightarrow> bool \<Rightarrow> (bool \<times> 'v mysql) option" where
  "cli_advanced_command env mysql command header arg skip_check stmt_skip = do {
     (gone, mysql) \<leftarrow>
       (if net_vio (mysql_net mysql) = None then do {
          (failed, mysql) \<leftarrow> client_reconnect env mysql;
          Some (failed \<or> stmt_skip, mysql)
        } else Some (False, mysql));
     if gone then Some (True, mysql)
     else if mysql_status mysql \<noteq> MYSQL_STATUS_READY \<or> server_status mysql AND SERVER_MORE_RESULTS_EXISTS \<noteq> 0
     then Some (True, set_mysql_error mysql CR_COMMANDS_OUT_OF_SYNC unknown_sqlstate)
     else do {
       let mysql = (net_clear_error mysql)\<lparr>mysql_info := None, affected_rows := NOT 0\<rparr>;
       net \<leftarrow> net_clear (client_net env) (mysql_net mysql) (command \<noteq> COM_QUIT);
       (failed, net) \<leftarrow> net_write_command (client_net env) net command header arg;
       let mysql = mysql\<lparr>mysql_net := net\<rparr>;
       (failed, mysql) \<leftarrow>
         (if \<not> failed then Some (False, mysql)
          else if last_errno net = ER_NET_PACKET_TOO_LARGE
          then Some (True, set_mysql_error mysql CR_NET_PACKET_TOO_LARGE unknown_sqlstate)
          else do {
            (failed, mysql) \<leftarrow> client_reconnect env (end_server mysql);
            if failed \<or> stmt_skip then Some (True, mysql)
            else do {
              (failed, net) \<leftarrow> net_write_command (client_net env) (mysql_net mysql) command header arg;
              let mysql = mysql\<lparr>mysql_net := net\<rparr>;
              Some (failed, if failed then set_mysql_error mysql CR_SERVER_GONE_ERROR unknown_sqlstate else mysql)
            }
          });
       if failed then Some (True, mysql)
       else if skip_check then Some (False, mysql)
       else do {
         (len, mysql) \<leftarrow> cli_safe_read env mysql;
         Some (len = None, mysql\<lparr>packet_length := len\<rparr>)
       }
     }
   }"

definition simple_command :: "'v client_env \<Rightarrow> 'v mysql \<Rightarrow> uchar \<Rightarrow> bytes \<Rightarrow> bool \<Rightarrow> (bool \<times> 'v mysql) option" where
  "simple_command env mysql command arg skip_check = cli_advanced_command env mysql command [] arg skip_check False"

subsection \<open>Rows\<close>

text \<open>
  One row packet copied into its block by \<open>cli_read_rows\<close>. \<open>cp\<close> is what follows in the packet buffer, \<open>to\<close> and
  \<open>end_to\<close> are offsets into the block; the difference of the two is cast to \<open>ulong\<close>. The flag is false for a
  malformed packet.
\<close>

definition pointer_diff :: "nat \<Rightarrow> nat \<Rightarrow> nat" where
  "pointer_diff p q = nat ((int p - int q) mod 2 ^ 32)"

definition raise_max_length :: "MYSQL_FIELD list option \<Rightarrow> nat \<Rightarrow> nat \<Rightarrow> MYSQL_FIELD list option option" where
  "raise_max_length flds i len =
     (case flds of
        None \<Rightarrow> Some None
      | Some fs \<Rightarrow>
          if i < length fs
          then Some (Some (if max_length (fs ! i) < len then fs[i := (fs ! i)\<lparr>max_length := len\<rparr>] else fs))
          else None)"

fun store_fields ::
  "nat \<Rightarrow> bytes \<Rightarrow> nat \<Rightarrow> nat \<Rightarrow> nat \<Rightarrow> stored_row \<Rightarrow> MYSQL_FIELD list option
     \<Rightarrow> (bool \<times> stored_row \<times> MYSQL_FIELD list option) option" where
  "store_fields 0 cp to end_to i row flds = Some (True, row\<lparr>row_data := row_data row @ [Some to]\<rparr>, flds)"
| "store_fields (Suc n) cp to end_to i row flds = do {
     (len, k) \<leftarrow> net_field_length cp;
     let cp = drop k cp;
     if len = NULL_LENGTH
     then store_fields n cp to end_to (i + 1) (row\<lparr>row_data := row_data row @ [None]\<rparr>) flds
     else do {
       let row = row\<lparr>row_data := row_data row @ [Some to]\<rparr>;
       if unat len > pointer_diff end_to to then Some (False, row, flds)
       else do {
         from \<leftarrow> get_bytes (Some cp) 0 (unat len);
         block \<leftarrow> put_bytes (Some (row_block row)) to (from @ [0]);
         flds \<leftarrow> raise_max_length flds i (unat len);
         store_fields n (drop (unat len) cp) (to + unat len + 1) end_to (i + 1) (row\<lparr>row_block := block\<rparr>) flds
       }
     }
   }"

text \<open>
  The loop of \<open>cli_read_rows\<close>; \<open>with_fields\<close> says that the caller passed \<open>mysql->fields\<close>, whose \<open>max_length\<close> is
  kept, rather than a null pointer. The result is the list of rows.
\<close>

definition read_eof_packet :: "'v mysql \<Rightarrow> bytes \<Rightarrow> nat \<Rightarrow> 'v mysql option" where
  "read_eof_packet mysql packet pkt_len =
     (if pkt_len > 1 then do {
        warnings \<leftarrow> uint2korr (drop 1 packet);
        status \<leftarrow> uint2korr (drop 3 packet);
        Some (mysql\<lparr>warning_count := ucast warnings, server_status := ucast status\<rparr>)
      } else Some mysql)"

partial_function (option) read_rows_loop ::
  "'v client_env \<Rightarrow> bool \<Rightarrow> nat \<Rightarrow> 'v mysql \<Rightarrow> nat \<Rightarrow> stored_row list \<Rightarrow> (stored_row list option \<times> 'v mysql) option" where
  "read_rows_loop env with_fields flds mysql pkt_len rows = do {
     packet \<leftarrow> read_bytes mysql;
     c \<leftarrow> get_byte (Some packet) 0;
     if c \<noteq> 254 \<or> pkt_len \<ge> 8 then
       (case (alloc_root env sizeof_MYSQL_ROWS, alloc_root env ((flds + 1) * sizeof_pointer + pkt_len)) of
          (Some _, Some block) \<Rightarrow> do {
            (ok, row, fs) \<leftarrow>
              store_fields flds packet 0 (pkt_len - 1) 0 \<lparr>row_data = [], row_block = drop ((flds + 1) * sizeof_pointer) block\<rparr>
                (if with_fields then mysql_fields mysql else None);
            let mysql = (if with_fields then mysql\<lparr>mysql_fields := fs\<rparr> else mysql);
            if \<not> ok then Some (None, set_mysql_error mysql CR_MALFORMED_PACKET unknown_sqlstate)
            else do {
              (len, mysql) \<leftarrow> cli_safe_read env mysql;
              case len of
                None \<Rightarrow> Some (None, mysql)
              | Some pkt_len \<Rightarrow> read_rows_loop env with_fields flds mysql pkt_len (rows @ [row])
            }
          }
        | _ \<Rightarrow> Some (None, set_mysql_error mysql CR_OUT_OF_MEMORY unknown_sqlstate))
     else do {
       mysql \<leftarrow> read_eof_packet mysql packet pkt_len;
       Some (Some rows, mysql)
     }
   }"

definition cli_read_rows :: "'v client_env \<Rightarrow> bool \<Rightarrow> nat \<Rightarrow> 'v mysql \<Rightarrow> (stored_row list option \<times> 'v mysql) option" where
  "cli_read_rows env with_fields flds mysql = do {
     (len, mysql) \<leftarrow> cli_safe_read env mysql;
     case len of
       None \<Rightarrow> Some (None, mysql)
     | Some pkt_len \<Rightarrow>
         if \<not> env_malloc (client_net env) sizeof_MYSQL_DATA
         then Some (None, set_mysql_error mysql CR_OUT_OF_MEMORY unknown_sqlstate)
         else read_rows_loop env with_fields flds mysql pkt_len []
   }"

text \<open>
  \<open>read_one_row\<close> leaves the fields in the packet buffer and terminates each where the length of the next one
  was. \<open>pos\<close> and \<open>end_pos\<close> are offsets into the buffer \<open>b\<close>.
\<close>

fun point_fields ::
  "nat \<Rightarrow> bytes \<Rightarrow> nat \<Rightarrow> nat \<Rightarrow> nat option \<Rightarrow> nat option list \<Rightarrow> nat list
     \<Rightarrow> (bool \<times> bytes \<times> nat option list \<times> nat list) option" where
  "point_fields 0 b pos end_pos prev_pos row lengths = do {
     p \<leftarrow> prev_pos;
     b \<leftarrow> put_bytes (Some b) p [0];
     Some (True, b, row @ [Some (p + 1)], lengths)
   }"
| "point_fields (Suc n) b pos end_pos prev_pos row lengths = do {
     (len, k) \<leftarrow> net_field_length (drop pos b);
     let pos = pos + k;
     if len \<noteq> NULL_LENGTH \<and> unat len > pointer_diff end_pos pos then Some (False, b, row, lengths)
     else do {
       let (r, len) = (if len = NULL_LENGTH then (None, 0) else (Some pos, unat len));
       b \<leftarrow> (case prev_pos of None \<Rightarrow> Some b | Some p \<Rightarrow> put_bytes (Some b) p [0]);
       point_fields n b (pos + len) end_pos (Some (pos + len)) (row @ [r]) (lengths @ [len])
     }
   }"

text \<open>What is already written to the arrays \<open>row\<close> and \<open>lengths\<close> stays when the packet turns out to be malformed.\<close>

definition overwrite :: "'a list \<Rightarrow> 'a list \<Rightarrow> 'a list" where
  "overwrite old new = new @ drop (length new) old"

definition read_one_row ::
  "'v client_env \<Rightarrow> 'v mysql \<Rightarrow> nat \<Rightarrow> nat option list \<Rightarrow> nat list \<Rightarrow> (int \<times> 'v mysql \<times> nat option list \<times> nat list) option" where
  "read_one_row env mysql flds row lengths = do {
     (len, mysql) \<leftarrow> cli_safe_read env mysql;
     case len of
       None \<Rightarrow> Some (- 1, mysql, row, lengths)
     | Some pkt_len \<Rightarrow> do {
         packet \<leftarrow> read_bytes mysql;
         c \<leftarrow> get_byte (Some packet) 0;
         if pkt_len \<le> 8 \<and> c = 254 then do {
           mysql \<leftarrow> read_eof_packet mysql packet pkt_len;
           Some (1, mysql, row, lengths)
         } else do {
           b \<leftarrow> buff (mysql_net mysql);
           let start = net_read_pos (mysql_net mysql);
           (ok, b, r, l) \<leftarrow> point_fields flds b start (start + pkt_len) None [] [];
           let mysql = mysql\<lparr>mysql_net := (mysql_net mysql)\<lparr>buff := Some b\<rparr>\<rparr>;
           if ok then Some (0, mysql, overwrite row r, overwrite lengths l)
           else Some (- 1, set_mysql_error mysql CR_UNKNOWN_ERROR unknown_sqlstate, overwrite row r, overwrite lengths l)
         }
       }
   }"

text \<open>
  \<open>cli_fetch_lengths\<close>: the length of a column from the offset of the next one that is not null. \<open>start\<close> is
  the last such column seen, with its index.
\<close>

fun fetch_lengths_loop :: "nat option list \<Rightarrow> nat \<Rightarrow> (nat \<times> nat) option \<Rightarrow> nat list \<Rightarrow> nat list" where
  "fetch_lengths_loop [] i start lengths = lengths"
| "fetch_lengths_loop (None # column) i start lengths = fetch_lengths_loop column (i + 1) start (lengths[i := 0])"
| "fetch_lengths_loop (Some p # column) i start lengths =
     fetch_lengths_loop column (i + 1) (Some (p, i))
       (case start of None \<Rightarrow> lengths | Some (q, j) \<Rightarrow> lengths[j := pointer_diff p (q + 1)])"

definition cli_fetch_lengths :: "nat list \<Rightarrow> nat option list \<Rightarrow> nat \<Rightarrow> nat list" where
  "cli_fetch_lengths lengths column n = fetch_lengths_loop (take (n + 1) column) 0 None lengths"

subsection \<open>Column definitions\<close>

definition zero_field :: MYSQL_FIELD where
  "zero_field = \<lparr>field_name = None, org_name = None, field_table = None, org_table = None, field_db = None, catalog = None,
     field_def = None, field_length = 0, max_length = 0, name_length = 0, org_name_length = 0, table_length = 0,
     org_table_length = 0, db_length = 0, catalog_length = 0, def_length = 0, field_flags = 0, decimals = 0, charsetnr = 0,
     field_type = 0\<rparr>"

definition NUM_FLAG :: uint32 where "NUM_FLAG = 32768"

definition INTERNAL_NUM_FIELD :: "uchar \<Rightarrow> nat \<Rightarrow> bool" where
  "INTERNAL_NUM_FIELD type len \<longleftrightarrow> type \<le> 9 \<and> (type \<noteq> 7 \<or> len = 14 \<or> len = 8) \<or> type = 13"

definition strmake_root :: "'v client_env \<Rightarrow> bytes \<Rightarrow> bytes option" where
  "strmake_root env s = map_option (\<lambda>_. s) (alloc_root env (length s + 1))"

text \<open>The bytes of a column by its length, and as a zero-terminated string.\<close>

definition column_bytes :: "stored_row \<Rightarrow> nat \<Rightarrow> nat \<Rightarrow> bytes option" where
  "column_bytes row i len =
     (if i < length (row_data row) then
        case row_data row ! i of
          None \<Rightarrow> if len = 0 then Some [] else None
        | Some p \<Rightarrow> get_bytes (Some (row_block row)) p len
      else None)"

definition column_rest :: "stored_row \<Rightarrow> nat \<Rightarrow> bytes option" where
  "column_rest row i =
     (if i < length (row_data row) then map_option (\<lambda>p. drop p (row_block row)) (row_data row ! i) else None)"

definition column_string :: "stored_row \<Rightarrow> nat \<Rightarrow> bytes option" where
  "column_string row i = do {
     s \<leftarrow> column_rest row i;
     if 0 \<in> set s then Some (takeWhile (\<lambda>c. c \<noteq> 0) s) else None
   }"

definition number_flag :: "MYSQL_FIELD \<Rightarrow> MYSQL_FIELD" where
  "number_flag f =
     (if INTERNAL_NUM_FIELD (field_type f) (field_length f) then f\<lparr>field_flags := field_flags f OR NUM_FLAG\<rparr> else f)"

definition unpack_field_41 :: "'v client_env \<Rightarrow> bool \<Rightarrow> stored_row \<Rightarrow> MYSQL_FIELD option" where
  "unpack_field_41 env default_value row = do {
     let lengths = cli_fetch_lengths (replicate 9 0) (row_data row) (if default_value then 8 else 7);
     c0 \<leftarrow> column_bytes row 0 (lengths ! 0);
     c1 \<leftarrow> column_bytes row 1 (lengths ! 1);
     c2 \<leftarrow> column_bytes row 2 (lengths ! 2);
     c3 \<leftarrow> column_bytes row 3 (lengths ! 3);
     c4 \<leftarrow> column_bytes row 4 (lengths ! 4);
     c5 \<leftarrow> column_bytes row 5 (lengths ! 5);
     pos \<leftarrow> column_rest row 6;
     charset \<leftarrow> uint2korr pos;
     len \<leftarrow> uint4korr (drop 2 pos);
     type \<leftarrow> get_byte (Some pos) 6;
     flags \<leftarrow> uint2korr (drop 7 pos);
     decs \<leftarrow> get_byte (Some pos) 9;
     let f = number_flag (zero_field\<lparr>catalog := strmake_root env c0, field_db := strmake_root env c1, field_table := strmake_root env c2,
               org_table := strmake_root env c3, field_name := strmake_root env c4, org_name := strmake_root env c5,
               catalog_length := lengths ! 0, db_length := lengths ! 1, table_length := lengths ! 2, org_table_length := lengths ! 3,
               name_length := lengths ! 4, org_name_length := lengths ! 5, charsetnr := unat charset, field_length := unat len,
               field_type := type, field_flags := ucast flags, decimals := decs\<rparr>);
     if default_value \<and> row_data row ! 7 \<noteq> None then do {
       d \<leftarrow> column_bytes row 7 (lengths ! 7);
       Some (f\<lparr>field_def := strmake_root env d, def_length := lengths ! 7\<rparr>)
     } else Some f
   }"

definition unpack_field_40 :: "'v client_env \<Rightarrow> ulong \<Rightarrow> bool \<Rightarrow> stored_row \<Rightarrow> MYSQL_FIELD option" where
  "unpack_field_40 env capabilities default_value row = do {
     let lengths = cli_fetch_lengths (replicate 9 0) (row_data row) (if default_value then 6 else 5);
     table \<leftarrow> column_string row 0;
     name \<leftarrow> column_string row 1;
     p2 \<leftarrow> column_rest row 2;
     len \<leftarrow> uint3korr p2;
     p3 \<leftarrow> column_rest row 3;
     type \<leftarrow> get_byte (Some p3) 0;
     p4 \<leftarrow> column_rest row 4;
     (flags, decs) \<leftarrow>
       (if capabilities AND CLIENT_LONG_FLAG \<noteq> 0 then do {
          flags \<leftarrow> uint2korr p4;
          decs \<leftarrow> get_byte (Some p4) 2;
          Some (ucast flags, decs)
        } else do {
          flags \<leftarrow> get_byte (Some p4) 0;
          decs \<leftarrow> get_byte (Some p4) 1;
          Some (ucast flags, decs)
        });
     let f = number_flag (zero_field\<lparr>org_table := strmake_root env table, field_table := strmake_root env table,
               field_name := strmake_root env name, field_length := unat len, field_type := type, catalog := Some [], field_db := Some [],
               org_table_length := lengths ! 0, table_length := lengths ! 0, name_length := lengths ! 1,
               field_flags := flags, decimals := decs\<rparr>);
     if default_value \<and> row_data row ! 5 \<noteq> None then do {
       d \<leftarrow> column_string row 5;
       Some (f\<lparr>field_def := strmake_root env d, def_length := lengths ! 5\<rparr>)
     } else Some f
   }"

text \<open>
  The array has room for as many fields as its size in bytes, computed in \<open>uint\<close>, allows; there may be more
  rows than that. The outer option is the allocation.
\<close>

fun unpack_loop :: "(stored_row \<Rightarrow> MYSQL_FIELD option) \<Rightarrow> MYSQL_FIELD list \<Rightarrow> nat \<Rightarrow> stored_row list \<Rightarrow> MYSQL_FIELD list option" where
  "unpack_loop unpack result i [] = Some result"
| "unpack_loop unpack result i (row # rows) =
     (if i < length result then do {
        f \<leftarrow> unpack row;
        unpack_loop unpack (result[i := f]) (i + 1) rows
      } else None)"

definition unpack_fields ::
  "'v client_env \<Rightarrow> stored_row list \<Rightarrow> nat \<Rightarrow> bool \<Rightarrow> ulong \<Rightarrow> MYSQL_FIELD list option option" where
  "unpack_fields env rows flds default_value capabilities =
     (let bytes = (sizeof_MYSQL_FIELD * flds) mod 2 ^ 32 in
      case alloc_root env bytes of
        None \<Rightarrow> Some None
      | Some _ \<Rightarrow> do {
          fs \<leftarrow> unpack_loop (if capabilities AND CLIENT_PROTOCOL_41 \<noteq> 0 then unpack_field_41 env default_value
                              else unpack_field_40 env capabilities default_value)
                  (replicate (bytes div sizeof_MYSQL_FIELD) zero_field) 0 rows;
          Some (Some fs)
        })"

subsection \<open>The reply to a query\<close>

text \<open>The rest of an OK packet, from offset \<open>pos\<close> of the packet on.\<close>

definition read_ok_packet :: "'v mysql \<Rightarrow> bytes \<Rightarrow> nat \<Rightarrow> nat \<Rightarrow> 'v mysql option" where
  "read_ok_packet mysql packet pos len = do {
     (rows, k) \<leftarrow> net_field_length_ll (drop pos packet);
     let pos = pos + k;
     (id, k) \<leftarrow> net_field_length_ll (drop pos packet);
     let pos = pos + k;
     let mysql = mysql\<lparr>affected_rows := rows, insert_id := id\<rparr>;
     (mysql, pos) \<leftarrow>
       (if protocol_41 mysql then do {
          status \<leftarrow> uint2korr (drop pos packet);
          warnings \<leftarrow> uint2korr (drop (pos + 2) packet);
          Some (mysql\<lparr>server_status := ucast status, warning_count := ucast warnings\<rparr>, pos + 4)
        } else if server_capabilities mysql AND CLIENT_TRANSACTIONS \<noteq> 0 then do {
          status \<leftarrow> uint2korr (drop pos packet);
          Some (mysql\<lparr>server_status := ucast status, warning_count := 0\<rparr>, pos + 2)
        } else Some (mysql, pos));
     if pos < len then do {
       (n, k) \<leftarrow> net_field_length (drop pos packet);
       Some (if n \<noteq> 0 then mysql\<lparr>mysql_info := Some (net_read_pos (mysql_net mysql) + pos + k)\<rparr> else mysql)
     } else Some mysql
   }"

fun send_blocks :: "'v net_env \<Rightarrow> 'v net \<Rightarrow> bytes list \<Rightarrow> (bool \<times> 'v net) option" where
  "send_blocks env net [] = Some (False, net)"
| "send_blocks env net (block # blocks) = do {
     (failed, net) \<leftarrow> my_net_write env net block;
     if failed then Some (True, net) else send_blocks env net blocks
   }"

definition handle_local_infile :: "'v client_env \<Rightarrow> 'v mysql \<Rightarrow> bytes \<Rightarrow> (bool \<times> 'v mysql) option" where
  "handle_local_infile env mysql net_filename =
     (let net = mysql_net mysql;
          nenv = client_net env;
          packet_length = (max_packet net - 16 + IO_SIZE - 1) div IO_SIZE * IO_SIZE
      in if \<not> env_malloc nenv packet_length then Some (True, set_mysql_error mysql CR_OUT_OF_MEMORY unknown_sqlstate)
      else case local_infile env net_filename packet_length of
        Infile_refused code message \<Rightarrow> do {
          (_, net) \<leftarrow> my_net_write nenv net [];
          (_, net) \<leftarrow> net_flush nenv net;
          Some (True, mysql\<lparr>mysql_net := net\<lparr>last_errno := code\<rparr>, last_error := message, sqlstate := unknown_sqlstate\<rparr>)
        }
      | Infile_blocks blocks error \<Rightarrow> do {
          (failed, net) \<leftarrow> send_blocks nenv net blocks;
          let lost = (\<lambda>net. set_mysql_error (mysql\<lparr>mysql_net := net\<rparr>) CR_SERVER_LOST unknown_sqlstate);
          if failed then Some (True, lost net)
          else do {
            (failed, net) \<leftarrow> my_net_write nenv net [];
            if failed then Some (True, lost net)
            else do {
              (failed, net) \<leftarrow> net_flush nenv net;
              if failed then Some (True, lost net)
              else case error of
                Some (code, message) \<Rightarrow> Some (True, mysql\<lparr>mysql_net := net\<lparr>last_errno := code\<rparr>, last_error := message\<rparr>)
              | None \<Rightarrow> Some (False, mysql\<lparr>mysql_net := net\<rparr>)
            }
          }
        })"

text \<open>\<open>cli_read_query_result\<close> from its label \<open>get_info\<close> on; a file is sent and the reply to it read the same way.\<close>

partial_function (option) query_result_info :: "'v client_env \<Rightarrow> 'v mysql \<Rightarrow> nat \<Rightarrow> (bool \<times> 'v mysql) option" where
  "query_result_info env mysql len = do {
     packet \<leftarrow> read_bytes mysql;
     (cnt, k) \<leftarrow> net_field_length packet;
     if cnt = 0 then do {
       mysql \<leftarrow> read_ok_packet mysql packet k len;
       Some (False, mysql)
     } else if cnt = NULL_LENGTH then
       if options_client_flag mysql AND CLIENT_LOCAL_FILES = 0
       then Some (True, set_mysql_error mysql CR_MALFORMED_PACKET unknown_sqlstate)
       else do {
         name \<leftarrow> strmake (drop k packet) (length packet);
         (error, mysql) \<leftarrow> handle_local_infile env mysql name;
         (len, mysql) \<leftarrow> cli_safe_read env mysql;
         case len of
           None \<Rightarrow> Some (True, mysql)
         | Some len \<Rightarrow> if error then Some (True, mysql) else query_result_info env mysql len
       }
     else do {
       let mysql = (if server_status mysql AND SERVER_STATUS_AUTOCOMMIT = 0
                    then mysql\<lparr>server_status := server_status mysql OR SERVER_STATUS_IN_TRANS\<rparr> else mysql);
       (rows, mysql) \<leftarrow> cli_read_rows env False (if protocol_41 mysql then 7 else 5) mysql;
       case rows of
         None \<Rightarrow> Some (True, mysql)
       | Some rows \<Rightarrow> do {
           fs \<leftarrow> unpack_fields env rows (unat cnt) False (server_capabilities mysql);
           let mysql = mysql\<lparr>mysql_fields := fs\<rparr>;
           if fs = None then Some (True, mysql)
           else Some (False, mysql\<lparr>mysql_status := MYSQL_STATUS_GET_RESULT, field_count := unat cnt\<rparr>)
         }
     }
   }"

definition cli_read_query_result :: "'v client_env \<Rightarrow> 'v mysql \<Rightarrow> (bool \<times> 'v mysql) option" where
  "cli_read_query_result env mysql = do {
     (len, mysql) \<leftarrow> cli_safe_read env mysql;
     case len of
       None \<Rightarrow> Some (True, mysql)
     | Some len \<Rightarrow> query_result_info env (free_old_query mysql) len
   }"

definition mysql_send_query :: "'v client_env \<Rightarrow> 'v mysql \<Rightarrow> bytes \<Rightarrow> (bool \<times> 'v mysql) option" where
  "mysql_send_query env mysql query = simple_command env mysql COM_QUERY query True"

definition mysql_real_query :: "'v client_env \<Rightarrow> 'v mysql \<Rightarrow> bytes \<Rightarrow> (bool \<times> 'v mysql) option" where
  "mysql_real_query env mysql query = do {
     (failed, mysql) \<leftarrow> mysql_send_query env mysql query;
     if failed then Some (True, mysql) else cli_read_query_result env mysql
   }"

subsection \<open>Skipping a result\<close>

partial_function (option) flush_loop :: "'v client_env \<Rightarrow> 'v mysql \<Rightarrow> (bool \<times> 'v mysql) option" where
  "flush_loop env mysql = do {
     (len, mysql) \<leftarrow> cli_safe_read env mysql;
     case len of
       None \<Rightarrow> Some (True, mysql)
     | Some len \<Rightarrow> do {
         packet \<leftarrow> read_bytes mysql;
         c \<leftarrow> get_byte (Some packet) 0;
         if len > 8 \<or> c \<noteq> 254 then flush_loop env mysql else Some (False, mysql)
       }
   }"

definition flush_one_result :: "'v client_env \<Rightarrow> 'v mysql \<Rightarrow> (bool \<times> 'v mysql) option" where
  "flush_one_result env mysql = do {
     (failed, mysql) \<leftarrow> flush_loop env mysql;
     if failed then Some (True, mysql)
     else if protocol_41 mysql then do {
       packet \<leftarrow> read_bytes mysql;
       warnings \<leftarrow> uint2korr (drop 1 packet);
       status \<leftarrow> uint2korr (drop 3 packet);
       Some (False, mysql\<lparr>warning_count := ucast warnings, server_status := ucast status\<rparr>)
     } else Some (False, mysql)
   }"

text \<open>The first flag is the error, the second whether the packet was an OK packet.\<close>

definition opt_flush_ok_packet :: "'v client_env \<Rightarrow> 'v mysql \<Rightarrow> (bool \<times> bool \<times> 'v mysql) option" where
  "opt_flush_ok_packet env mysql = do {
     (len, mysql) \<leftarrow> cli_safe_read env mysql;
     if len = None then Some (True, False, mysql)
     else do {
       packet \<leftarrow> read_bytes mysql;
       c \<leftarrow> get_byte (Some packet) 0;
       if c \<noteq> 0 then Some (False, False, mysql)
       else do {
         (_, k) \<leftarrow> net_field_length_ll (drop 1 packet);
         (_, k') \<leftarrow> net_field_length_ll (drop (1 + k) packet);
         status \<leftarrow> uint2korr (drop (1 + k + k') packet);
         let mysql = mysql\<lparr>server_status := ucast status\<rparr>;
         if protocol_41 mysql then do {
           warnings \<leftarrow> uint2korr (drop (3 + k + k') packet);
           Some (False, True, mysql\<lparr>warning_count := ucast warnings\<rparr>)
         } else Some (False, True, mysql)
       }
     }
   }"

partial_function (option) flush_results_loop :: "'v client_env \<Rightarrow> 'v mysql \<Rightarrow> 'v mysql option" where
  "flush_results_loop env mysql =
     (if server_status mysql AND SERVER_MORE_RESULTS_EXISTS \<noteq> 0 then do {
        (failed, is_ok_packet, mysql) \<leftarrow> opt_flush_ok_packet env mysql;
        if failed \<or> is_ok_packet then Some mysql
        else do {
          (failed, mysql) \<leftarrow> flush_one_result env mysql;
          if failed then Some mysql
          else do {
            (failed, mysql) \<leftarrow> flush_one_result env mysql;
            if failed then Some mysql else flush_results_loop env mysql
          }
        }
      } else Some mysql)"

definition cli_flush_use_result :: "'v client_env \<Rightarrow> 'v mysql \<Rightarrow> bool \<Rightarrow> 'v mysql option" where
  "cli_flush_use_result env mysql flush_all_results = do {
     (failed, mysql) \<leftarrow> flush_one_result env mysql;
     if failed \<or> \<not> flush_all_results then Some mysql else flush_results_loop env mysql
   }"

subsection \<open>Results\<close>

datatype current_row = No_row | Stored_row stored_row | Unbuffered_row

text \<open>\<open>res_address\<close> identifies the result: it is what \<open>unbuffered_fetch_owner\<close> points at.\<close>

record mysql_res =
  res_row_count :: nat
  res_fields :: "MYSQL_FIELD list option"
  res_data :: "stored_row list option"
  res_cursor :: "stored_row list"
  res_lengths :: "nat list"
  res_handle :: bool
  res_row :: "nat option list"
  res_current_row :: current_row
  res_field_count :: nat
  res_current_field :: nat
  res_eof :: bool
  res_address :: nat

definition sizeof_MYSQL_RES :: nat where "sizeof_MYSQL_RES = 88"
definition sizeof_ulong :: nat where "sizeof_ulong = 4"

definition mysql_store_result :: "'v client_env \<Rightarrow> nat \<Rightarrow> 'v mysql \<Rightarrow> (mysql_res option \<times> 'v mysql) option" where
  "mysql_store_result env address mysql =
     (if mysql_fields mysql = None then Some (None, mysql)
      else if mysql_status mysql \<noteq> MYSQL_STATUS_GET_RESULT
      then Some (None, set_mysql_error mysql CR_COMMANDS_OUT_OF_SYNC unknown_sqlstate)
      else
        let mysql = mysql\<lparr>mysql_status := MYSQL_STATUS_READY\<rparr> in
        if \<not> env_malloc (client_net env) (sizeof_MYSQL_RES + sizeof_ulong * field_count mysql)
        then Some (None, set_mysql_error mysql CR_OUT_OF_MEMORY unknown_sqlstate)
        else do {
          (data, mysql) \<leftarrow> cli_read_rows env True (field_count mysql) mysql;
          case data of
            None \<Rightarrow> Some (None, mysql)
          | Some rows \<Rightarrow>
              Some (Some \<lparr>res_row_count = length rows, res_fields = mysql_fields mysql, res_data = Some rows, res_cursor = rows,
                          res_lengths = replicate (field_count mysql) 0, res_handle = False, res_row = [], res_current_row = No_row,
                          res_field_count = field_count mysql, res_current_field = 0, res_eof = True, res_address = address\<rparr>,
                    mysql\<lparr>affected_rows := of_nat (length rows), mysql_fields := None, unbuffered_fetch_owner := None\<rparr>)
        })"

definition cli_use_result :: "'v client_env \<Rightarrow> nat \<Rightarrow> 'v mysql \<Rightarrow> mysql_res option \<times> 'v mysql" where
  "cli_use_result env address mysql =
     (if mysql_fields mysql = None then (None, mysql)
      else if mysql_status mysql \<noteq> MYSQL_STATUS_GET_RESULT
      then (None, set_mysql_error mysql CR_COMMANDS_OUT_OF_SYNC unknown_sqlstate)
      else if \<not> env_malloc (client_net env) (sizeof_MYSQL_RES + sizeof_ulong * field_count mysql) \<or>
              \<not> env_malloc (client_net env) (sizeof_pointer * (field_count mysql + 1))
      then (None, mysql)
      else (Some \<lparr>res_row_count = 0, res_fields = mysql_fields mysql, res_data = None, res_cursor = [],
                  res_lengths = replicate (field_count mysql) 0, res_handle = True, res_row = replicate (field_count mysql + 1) None,
                  res_current_row = No_row, res_field_count = field_count mysql, res_current_field = 0, res_eof = False,
                  res_address = address\<rparr>,
            mysql\<lparr>mysql_fields := None, mysql_status := MYSQL_STATUS_USE_RESULT, unbuffered_fetch_owner := Some address,
                  fetch_cancelled := filter (\<lambda>a. a \<noteq> address) (fetch_cancelled mysql)\<rparr>))"

text \<open>The row an unbuffered fetch ends with: the handle is ready again and forgets the result.\<close>

definition fetch_ended :: "'v mysql \<Rightarrow> mysql_res \<Rightarrow> 'v mysql \<times> mysql_res" where
  "fetch_ended mysql res =
     (mysql\<lparr>mysql_status := MYSQL_STATUS_READY,
            unbuffered_fetch_owner :=
              (if unbuffered_fetch_owner mysql = Some (res_address res) then None else unbuffered_fetch_owner mysql)\<rparr>,
      res\<lparr>res_eof := True, res_handle := False\<rparr>)"

definition mysql_fetch_row :: "'v client_env \<Rightarrow> 'v mysql \<Rightarrow> mysql_res \<Rightarrow> (current_row \<times> 'v mysql \<times> mysql_res) option" where
  "mysql_fetch_row env mysql res =
     (case res_data res of
        None \<Rightarrow>
          if res_eof res then Some (No_row, mysql, res)
          else if mysql_status mysql \<noteq> MYSQL_STATUS_USE_RESULT then
            Some (No_row, fetch_ended (set_mysql_error mysql
                            (if res_address res \<in> set (fetch_cancelled mysql) then CR_FETCH_CANCELED else CR_COMMANDS_OUT_OF_SYNC)
                            unknown_sqlstate) res)
          else do {
            (r, mysql, row, lengths) \<leftarrow> read_one_row env mysql (res_field_count res) (res_row res) (res_lengths res);
            let res = res\<lparr>res_row := row, res_lengths := lengths\<rparr>;
            if r = 0 then
              Some (Unbuffered_row, mysql, res\<lparr>res_row_count := res_row_count res + 1, res_current_row := Unbuffered_row\<rparr>)
            else Some (No_row, fetch_ended mysql res)
          }
      | Some _ \<Rightarrow>
          (case res_cursor res of
             [] \<Rightarrow> Some (No_row, mysql, res\<lparr>res_current_row := No_row\<rparr>)
           | row # rows \<Rightarrow> Some (Stored_row row, mysql, res\<lparr>res_cursor := rows, res_current_row := Stored_row row\<rparr>)))"

text \<open>The lengths are null without a current row.\<close>

definition mysql_fetch_lengths :: "mysql_res \<Rightarrow> nat list option \<times> mysql_res" where
  "mysql_fetch_lengths res =
     (case res_current_row res of
        No_row \<Rightarrow> (None, res)
      | Stored_row row \<Rightarrow>
          let lengths = (if res_data res \<noteq> None then cli_fetch_lengths (res_lengths res) (row_data row) (res_field_count res)
                         else res_lengths res)
          in (Some lengths, res\<lparr>res_lengths := lengths\<rparr>)
      | Unbuffered_row \<Rightarrow> (Some (res_lengths res), res))"

definition mysql_free_result :: "'v client_env \<Rightarrow> 'v mysql \<Rightarrow> mysql_res \<Rightarrow> 'v mysql option" where
  "mysql_free_result env mysql res =
     (if res_handle res then
        let mysql = (if unbuffered_fetch_owner mysql = Some (res_address res) then mysql\<lparr>unbuffered_fetch_owner := None\<rparr> else mysql)
        in if mysql_status mysql = MYSQL_STATUS_USE_RESULT then do {
          mysql \<leftarrow> cli_flush_use_result env mysql False;
          let mysql = mysql\<lparr>mysql_status := MYSQL_STATUS_READY\<rparr>;
          Some (case unbuffered_fetch_owner mysql of
                  None \<Rightarrow> mysql
                | Some owner \<Rightarrow> mysql\<lparr>fetch_cancelled := owner # fetch_cancelled mysql\<rparr>)
        } else Some mysql
      else Some mysql)"

definition mysql_more_results :: "'v mysql \<Rightarrow> bool" where
  "mysql_more_results mysql \<longleftrightarrow> server_status mysql AND SERVER_MORE_RESULTS_EXISTS \<noteq> 0"

definition mysql_next_result :: "'v client_env \<Rightarrow> 'v mysql \<Rightarrow> (int \<times> 'v mysql) option" where
  "mysql_next_result env mysql =
     (if mysql_status mysql \<noteq> MYSQL_STATUS_READY
      then Some (1, set_mysql_error mysql CR_COMMANDS_OUT_OF_SYNC unknown_sqlstate)
      else
        let mysql = (net_clear_error mysql)\<lparr>affected_rows := NOT 0\<rparr> in
        if server_status mysql AND SERVER_MORE_RESULTS_EXISTS \<noteq> 0 then do {
          (failed, mysql) \<leftarrow> cli_read_query_result env mysql;
          Some (if failed then 1 else 0, mysql)
        } else Some (- 1, mysql))"

definition mysql_data_seek :: "mysql_res \<Rightarrow> nat \<Rightarrow> mysql_res" where
  "mysql_data_seek res row =
     res\<lparr>res_current_row := No_row, res_cursor := (case res_data res of None \<Rightarrow> [] | Some rows \<Rightarrow> drop row rows)\<rparr>"

definition mysql_row_seek :: "mysql_res \<Rightarrow> stored_row list \<Rightarrow> stored_row list \<times> mysql_res" where
  "mysql_row_seek res row = (res_cursor res, res\<lparr>res_current_row := No_row, res_cursor := row\<rparr>)"

definition mysql_field_seek :: "mysql_res \<Rightarrow> nat \<Rightarrow> nat \<times> mysql_res" where
  "mysql_field_seek res field_offset = (res_current_field res, res\<lparr>res_current_field := field_offset\<rparr>)"

definition mysql_fetch_field :: "mysql_res \<Rightarrow> (MYSQL_FIELD option \<times> mysql_res) option" where
  "mysql_fetch_field res =
     (if res_current_field res \<ge> res_field_count res then Some (None, res)
      else do {
        fs \<leftarrow> res_fields res;
        if res_current_field res < length fs
        then Some (Some (fs ! res_current_field res), res\<lparr>res_current_field := res_current_field res + 1\<rparr>) else None
      })"

subsection \<open>Commands\<close>

definition mysql_select_db :: "'v client_env \<Rightarrow> 'v mysql \<Rightarrow> bytes \<Rightarrow> (bool \<times> 'v mysql) option" where
  "mysql_select_db env mysql db = do {
     (failed, mysql) \<leftarrow> simple_command env mysql COM_INIT_DB db False;
     if failed then Some (True, mysql)
     else Some (False, mysql\<lparr>mysql_db := (if env_malloc (client_net env) (length db + 1) then Some db else None)\<rparr>)
   }"

definition cli_list_fields :: "'v client_env \<Rightarrow> 'v mysql \<Rightarrow> (MYSQL_FIELD list option \<times> 'v mysql) option" where
  "cli_list_fields env mysql = do {
     (query, mysql) \<leftarrow> cli_read_rows env False (if protocol_41 mysql then 8 else 6) mysql;
     case query of
       None \<Rightarrow> Some (None, mysql)
     | Some rows \<Rightarrow> do {
         let mysql = mysql\<lparr>field_count := length rows mod 2 ^ 32\<rparr>;
         fs \<leftarrow> unpack_fields env rows (field_count mysql) True (server_capabilities mysql);
         Some (fs, mysql)
       }
   }"

definition mysql_list_fields ::
  "'v client_env \<Rightarrow> nat \<Rightarrow> 'v mysql \<Rightarrow> bytes \<Rightarrow> bytes \<Rightarrow> (mysql_res option \<times> 'v mysql) option" where
  "mysql_list_fields env address mysql table wild = do {
     (failed, mysql) \<leftarrow> simple_command env (free_old_query mysql) COM_FIELD_LIST (take 128 table @ [0] @ take 128 wild) True;
     if failed then Some (None, mysql)
     else do {
       (fs, mysql) \<leftarrow> cli_list_fields env mysql;
       if fs = None \<or> \<not> env_malloc (client_net env) sizeof_MYSQL_RES then Some (None, mysql)
       else Some (Some \<lparr>res_row_count = 0, res_fields = fs, res_data = None, res_cursor = [], res_lengths = [], res_handle = False,
                        res_row = [], res_current_row = No_row, res_field_count = field_count mysql, res_current_field = 0,
                        res_eof = True, res_address = address\<rparr>,
                  mysql\<lparr>mysql_fields := None\<rparr>)
     }
   }"

definition mysql_list_processes :: "'v client_env \<Rightarrow> nat \<Rightarrow> 'v mysql \<Rightarrow> (mysql_res option \<times> 'v mysql) option" where
  "mysql_list_processes env address mysql = do {
     (failed, mysql) \<leftarrow> simple_command env mysql COM_PROCESS_INFO [] False;
     if failed then Some (None, mysql)
     else do {
       let mysql = free_old_query mysql;
       packet \<leftarrow> read_bytes mysql;
       (cnt, _) \<leftarrow> net_field_length packet;
       (flds, mysql) \<leftarrow> cli_read_rows env False (if protocol_41 mysql then 7 else 5) mysql;
       case flds of
         None \<Rightarrow> Some (None, mysql)
       | Some rows \<Rightarrow> do {
           fs \<leftarrow> unpack_fields env rows (unat cnt) False (server_capabilities mysql);
           let mysql = mysql\<lparr>mysql_fields := fs\<rparr>;
           if fs = None then Some (None, mysql)
           else mysql_store_result env address (mysql\<lparr>mysql_status := MYSQL_STATUS_GET_RESULT, field_count := unat cnt\<rparr>)
         }
     }
   }"

text \<open>A pattern added to a \<open>show\<close> command; \<open>room\<close> is what is left of the buffer.\<close>

fun append_wild_loop :: "nat \<Rightarrow> bytes \<Rightarrow> bytes" where
  "append_wild_loop room [] = []"
| "append_wild_loop room (c # wild) =
     (if room = 0 then [37]
      else if c = 92 \<or> c = 39 then 92 # c # append_wild_loop (room - 2) wild
      else c # append_wild_loop (room - 1) wild)"

definition append_wild :: "bytes \<Rightarrow> nat \<Rightarrow> bytes \<Rightarrow> bytes" where
  "append_wild buf bufsize wild =
     (if wild \<noteq> [] then
        let to = buf @ c_string '' like '' @ [39] in to @ append_wild_loop (bufsize - 5 - length to) wild @ [39]
      else buf)"

definition mysql_list_dbs :: "'v client_env \<Rightarrow> nat \<Rightarrow> 'v mysql \<Rightarrow> bytes \<Rightarrow> (mysql_res option \<times> 'v mysql) option" where
  "mysql_list_dbs env address mysql wild = do {
     (failed, mysql) \<leftarrow> mysql_real_query env mysql (append_wild (c_string ''show databases'') 255 wild);
     if failed then Some (None, mysql) else mysql_store_result env address mysql
   }"

definition mysql_list_tables :: "'v client_env \<Rightarrow> nat \<Rightarrow> 'v mysql \<Rightarrow> bytes \<Rightarrow> (mysql_res option \<times> 'v mysql) option" where
  "mysql_list_tables env address mysql wild = do {
     (failed, mysql) \<leftarrow> mysql_real_query env mysql (append_wild (c_string ''show tables'') 255 wild);
     if failed then Some (None, mysql) else mysql_store_result env address mysql
   }"

definition mysql_shutdown :: "'v client_env \<Rightarrow> 'v mysql \<Rightarrow> uchar \<Rightarrow> (bool \<times> 'v mysql) option" where
  "mysql_shutdown env mysql shutdown_level = simple_command env mysql COM_SHUTDOWN [shutdown_level] False"

definition mysql_refresh :: "'v client_env \<Rightarrow> 'v mysql \<Rightarrow> uint32 \<Rightarrow> (bool \<times> 'v mysql) option" where
  "mysql_refresh env mysql options = simple_command env mysql COM_REFRESH [ucast options] False"

definition mysql_kill :: "'v client_env \<Rightarrow> 'v mysql \<Rightarrow> ulong \<Rightarrow> (bool \<times> 'v mysql) option" where
  "mysql_kill env mysql pid = simple_command env mysql COM_PROCESS_KILL (int4store pid) False"

definition mysql_set_server_option :: "'v client_env \<Rightarrow> 'v mysql \<Rightarrow> uint32 \<Rightarrow> (bool \<times> 'v mysql) option" where
  "mysql_set_server_option env mysql option = simple_command env mysql COM_SET_OPTION (int2store (ucast option)) False"

definition mysql_dump_debug_info :: "'v client_env \<Rightarrow> 'v mysql \<Rightarrow> (bool \<times> 'v mysql) option" where
  "mysql_dump_debug_info env mysql = simple_command env mysql COM_DEBUG [] False"

text \<open>The result is the text the returned pointer points to.\<close>

definition cli_read_statistics :: "'v mysql \<Rightarrow> (bytes \<times> 'v mysql) option" where
  "cli_read_statistics mysql = do {
     let net = mysql_net mysql;
     len \<leftarrow> packet_length mysql;
     b \<leftarrow> put_bytes (buff net) (net_read_pos net + len) [0];
     let mysql = mysql\<lparr>mysql_net := net\<lparr>buff := Some b\<rparr>\<rparr>;
     packet \<leftarrow> read_bytes mysql;
     c \<leftarrow> get_byte (Some packet) 0;
     if c = 0 then let mysql = set_mysql_error mysql CR_WRONG_HOST_INFO unknown_sqlstate in Some (last_error mysql, mysql)
     else do { s \<leftarrow> strmake packet (length packet); Some (s, mysql) }
   }"

definition mysql_stat :: "'v client_env \<Rightarrow> 'v mysql \<Rightarrow> (bytes \<times> 'v mysql) option" where
  "mysql_stat env mysql = do {
     (failed, mysql) \<leftarrow> simple_command env mysql COM_STATISTICS [] False;
     if failed then Some (last_error mysql, mysql) else cli_read_statistics mysql
   }"

text \<open>The command's \<open>my_bool\<close> is compared with an error code, as the code does.\<close>

definition mysql_ping :: "'v client_env \<Rightarrow> 'v mysql \<Rightarrow> (nat \<times> 'v mysql) option" where
  "mysql_ping env mysql = do {
     (failed, mysql) \<leftarrow> simple_command env mysql COM_PING [] False;
     let res = of_bool failed;
     if res = CR_SERVER_LOST \<and> mysql_reconnect_flag mysql then do {
       (failed, mysql) \<leftarrow> simple_command env mysql COM_PING [] False;
       Some (of_bool failed, mysql)
     } else Some (res, mysql)
   }"

definition mysql_commit :: "'v client_env \<Rightarrow> 'v mysql \<Rightarrow> (bool \<times> 'v mysql) option" where
  "mysql_commit env mysql = mysql_real_query env mysql (c_string ''commit'')"

definition mysql_rollback :: "'v client_env \<Rightarrow> 'v mysql \<Rightarrow> (bool \<times> 'v mysql) option" where
  "mysql_rollback env mysql = mysql_real_query env mysql (c_string ''rollback'')"

definition mysql_autocommit :: "'v client_env \<Rightarrow> 'v mysql \<Rightarrow> bool \<Rightarrow> (bool \<times> 'v mysql) option" where
  "mysql_autocommit env mysql auto_mode =
     mysql_real_query env mysql (c_string (if auto_mode then ''set autocommit=1'' else ''set autocommit=0''))"

end
