(* ===== verification/Client_Result.thy ===== *)
theory Client_Result
  imports Client Net_Read
begin

text \<open>
  What is proved of the client's results. The protocol sends a row as a sequence of values, each with its
  length in front; \<open>encode_row\<close> is that format. Stored rows are compared with the values by the pointers and the
  lengths an application gets.
\<close>

subsection \<open>The format of a row\<close>

definition encode_value :: "bytes option \<Rightarrow> bytes" where
  "encode_value v = (case v of None \<Rightarrow> [251] | Some s \<Rightarrow> net_store_length (of_nat (length s)) @ s)"

definition encode_row :: "bytes option list \<Rightarrow> bytes" where
  "encode_row vs = concat (map encode_value vs)"

definition value_length :: "bytes option \<Rightarrow> nat" where
  "value_length v = (case v of None \<Rightarrow> 0 | Some s \<Rightarrow> length s)"

text \<open>The values as they stand in the block of a stored row, and the pointers to them.\<close>

definition packed :: "bytes option list \<Rightarrow> bytes" where
  "packed vs = concat (map (\<lambda>v. case v of None \<Rightarrow> [] | Some s \<Rightarrow> s @ [0]) vs)"

fun value_pointers :: "nat \<Rightarrow> bytes option list \<Rightarrow> nat option list" where
  "value_pointers to [] = []"
| "value_pointers to (None # vs) = None # value_pointers to vs"
| "value_pointers to (Some s # vs) = Some to # value_pointers (to + length s + 1) vs"

fun widen :: "nat \<Rightarrow> bytes option list \<Rightarrow> MYSQL_FIELD list \<Rightarrow> MYSQL_FIELD list" where
  "widen i [] fs = fs"
| "widen i (v # vs) fs = widen (i + 1) vs (if v = None then fs else fs[i := (fs ! i)\<lparr>max_length := max (max_length (fs ! i)) (value_length v)\<rparr>])"

lemma encode_row_simps [simp]:
  "encode_row [] = []" "encode_row (v # vs) = encode_value v @ encode_row vs"
  by (simp_all add: encode_row_def)

lemma packed_simps [simp]:
  "packed [] = []" "packed (None # vs) = packed vs" "packed (Some s # vs) = s @ 0 # packed vs"
  by (simp_all add: packed_def)

lemma length_value_pointers [simp]: "length (value_pointers to vs) = length vs"
  by (induction to vs rule: value_pointers.induct) simp_all

lemma length_widen [simp]: "length (widen i vs fs) = length fs"
  by (induction vs arbitrary: i fs) simp_all

lemma ulong_of_nat: "n < 2 ^ 32 - 1 \<Longrightarrow> unat (of_nat n :: ulong) = n" "n < 2 ^ 32 - 1 \<Longrightarrow> (of_nat n :: ulong) \<noteq> NULL_LENGTH"
proof -
  assume n: "n < 2 ^ 32 - 1"
  then show u: "unat (of_nat n :: ulong) = n" by (simp add: unat_of_nat)
  have "unat NULL_LENGTH = 2 ^ 32 - 1" by (simp add: NULL_LENGTH_def unsigned_minus_1_eq_mask mask_eq_exp_minus_1)
  then show "(of_nat n :: ulong) \<noteq> NULL_LENGTH" using u n by auto
qed

lemma net_field_length_null: "net_field_length (encode_value None @ r) = Some (NULL_LENGTH, 1)"
  by (simp add: encode_value_def net_field_length_def)

lemma net_field_length_value:
  "length s < 2 ^ 32 - 1 \<Longrightarrow>
   net_field_length (encode_value (Some s) @ r) = Some (of_nat (length s), length (net_store_length (of_nat (length s))))"
  using ulong_of_nat(1) [of "length s"]
  by (simp add: encode_value_def net_field_length_store) (rule word_unat_eq_iff [THEN iffD2], simp add: unat_ucast_mod unat_of_nat)

lemma net_store_length_pos: "0 < length (net_store_length n)"
  by (simp add: length_net_store_length)

lemma length_encode_Some: "length (encode_value (Some s)) > length s"
  using net_store_length_pos by (simp add: encode_value_def)

lemma length_packed_le: "length (packed vs) \<le> length (encode_row vs)"
proof (induction vs)
  case (Cons v vs)
  then show ?case
  proof (cases v)
    case (Some s)
    then show ?thesis using Cons length_encode_Some [of s] by simp
  qed simp
qed simp

lemma value_room: "Some s \<in> set vs \<Longrightarrow> length s < length (encode_row vs)"
  using net_store_length_pos by (induction vs) (auto simp: encode_value_def trans_less_add1)

lemma pointer_diff_le:
  assumes "q \<le> p" "p < 2 ^ 32"
  shows "pointer_diff p q = p - q"
proof -
  have "int p - int q = int (p - q)" using assms(1) by simp
  moreover have "int (p - q) mod 2 ^ 32 = int (p - q)" using assms by simp
  ultimately show ?thesis by (simp only: pointer_diff_def nat_int)
qed

subsection \<open>Storing a row\<close>

definition stored :: "nat \<Rightarrow> bytes option list \<Rightarrow> stored_row \<Rightarrow> stored_row" where
  "stored to vs row =
     row\<lparr>row_data := row_data row @ value_pointers to vs @ [Some (to + length (packed vs))],
         row_block := take to (row_block row) @ packed vs @ drop (to + length (packed vs)) (row_block row)\<rparr>"

definition widen_opt :: "nat \<Rightarrow> bytes option list \<Rightarrow> MYSQL_FIELD list option \<Rightarrow> MYSQL_FIELD list option" where
  "widen_opt i vs flds = map_option (widen i vs) flds"

definition room_for_fields :: "nat \<Rightarrow> nat \<Rightarrow> MYSQL_FIELD list option \<Rightarrow> bool" where
  "room_for_fields i n flds \<longleftrightarrow> (\<forall>fs. flds = Some fs \<longrightarrow> i + n \<le> length fs)"

lemma raise_max_length_widen:
  "room_for_fields i (Suc n) flds \<Longrightarrow> raise_max_length flds i (length s) = Some (widen_opt i [Some s] flds)"
  by (cases flds) (auto simp: raise_max_length_def widen_opt_def room_for_fields_def value_length_def max_def list_update_same_conv)

lemma widen_opt_Cons: "widen_opt i (v # vs) flds = widen_opt (i + 1) vs (widen_opt i [v] flds)"
  by (cases flds) (simp_all add: widen_opt_def)

lemma room_for_fields_widen: "room_for_fields i (Suc n) flds \<Longrightarrow> room_for_fields (i + 1) n (widen_opt j vs flds)"
  by (auto simp: room_for_fields_def widen_opt_def)

lemma store_fields_Some:
  assumes "net_field_length cp = Some (len, k)" "len \<noteq> NULL_LENGTH" "drop k cp = s @ cp'" "unat len = length s"
    and "length s \<le> pointer_diff end_to to" "put_bytes (Some (row_block row)) to (s @ [0]) = Some b"
    and "raise_max_length flds i (length s) = Some flds'"
  shows "store_fields (Suc n) cp to end_to i row flds =
    store_fields n cp' (to + length s + 1) end_to (i + 1) (row\<lparr>row_data := row_data row @ [Some to], row_block := b\<rparr>) flds'"
proof -
  have "get_bytes (Some (drop k cp)) 0 (length s) = Some s" "drop (length s) (drop k cp) = cp'" using assms(3) by (simp_all add: get_bytes_def)
  then show ?thesis using assms by (simp del: drop_drop)
qed

lemma store_fields_encode:
  "to + length (encode_row vs) \<le> length (row_block row) \<Longrightarrow> length (row_block row) = Suc end_to \<Longrightarrow> Suc end_to < 2 ^ 32 - 1 \<Longrightarrow>
   room_for_fields i (length vs) flds \<Longrightarrow>
   store_fields (length vs) (encode_row vs @ r) to end_to i row flds = Some (True, stored to vs row, widen_opt i vs flds)"
proof (induction vs arbitrary: to i row flds)
  case Nil
  then show ?case by (cases flds) (simp_all add: stored_def widen_opt_def)
next
  case (Cons v vs)
  show ?case
  proof (cases v)
    case None
    have "room_for_fields (i + 1) (length vs) flds" using Cons.prems(4) by (auto simp: room_for_fields_def)
    then have "store_fields (length vs) (encode_row vs @ r) to end_to (i + 1) (row\<lparr>row_data := row_data row @ [None]\<rparr>) flds =
        Some (True, stored to vs (row\<lparr>row_data := row_data row @ [None]\<rparr>), widen_opt (i + 1) vs flds)"
      using Cons.prems None by (intro Cons.IH) simp_all
    moreover have "widen_opt i (None # vs) flds = widen_opt (i + 1) vs flds" by (cases flds) (simp_all add: widen_opt_def)
    ultimately show ?thesis
      using None net_field_length_null [of "encode_row vs @ r"] by (simp add: stored_def encode_value_def)
  next
    case (Some s)
    define k where "k = length (net_store_length (of_nat (length s)))"
    have k: "0 < k" unfolding k_def by (rule net_store_length_pos)
    have fit: "to + k + length s + length (encode_row vs) \<le> Suc end_to"
      using Cons.prems(1,2) Some by (simp add: encode_value_def k_def)
    have s: "length s < 2 ^ 32 - 1" "length s \<le> end_to - to" "to \<le> end_to" using fit k Cons.prems(3) by linarith+
    note len = ulong_of_nat [OF s(1)]
    have nf: "net_field_length (encode_value (Some s) @ encode_row vs @ r) = Some (of_nat (length s), k)"
      using net_field_length_value [OF s(1)] by (simp add: k_def)
    have diff: "pointer_diff end_to to = end_to - to" using s Cons.prems(3) by (intro pointer_diff_le) simp_all
    have dk: "drop k (encode_value (Some s) @ encode_row vs @ r) = s @ encode_row vs @ r" by (simp add: encode_value_def k_def)
    let ?b = "take to (row_block row) @ (s @ [0]) @ drop (to + length (s @ [0])) (row_block row)"
    let ?row = "row\<lparr>row_data := row_data row @ [Some to], row_block := ?b\<rparr>"
    have put: "put_bytes (Some (row_block row)) to (s @ [0]) = Some ?b"
      using fit k Cons.prems(2) by (simp add: put_bytes_def)
    have lb: "length ?b = Suc end_to" using fit k Cons.prems(2) by simp
    have "store_fields (length vs) (encode_row vs @ r) (to + length s + 1) end_to (i + 1) ?row (widen_opt i [v] flds) =
        Some (True, stored (to + length s + 1) vs ?row, widen_opt (i + 1) vs (widen_opt i [v] flds))"
      using Cons.prems fit k lb Some room_for_fields_widen [of i "length vs" flds] by (intro Cons.IH) simp_all
    moreover have "stored (to + length s + 1) vs ?row = stored to (v # vs) row"
      using Some fit k Cons.prems(2) by (simp add: stored_def ac_simps)
    moreover have "length s \<le> pointer_diff end_to to" using diff s(2) by simp
    moreover have "room_for_fields i (Suc (length vs)) flds" using Cons.prems(4) by simp
    note raise_max_length_widen [OF this]
    ultimately have "store_fields (length (v # vs)) (encode_value (Some s) @ encode_row vs @ r) to end_to i row flds =
        Some (True, stored to (v # vs) row, widen_opt (i + 1) vs (widen_opt i [v] flds))"
      using store_fields_Some [OF nf len(2) dk len(1) _ put] Some by simp
    then show ?thesis
      using Some widen_opt_Cons [of i v vs flds] by simp
  qed
qed

subsection \<open>The lengths of the columns\<close>

definition close_length :: "(nat \<times> nat) option \<Rightarrow> nat \<Rightarrow> nat list \<Rightarrow> nat list" where
  "close_length start to lens = (case start of None \<Rightarrow> lens | Some (q, j) \<Rightarrow> lens[j := to - (q + 1)])"

lemma length_close_length [simp]: "length (close_length start to lens) = length lens"
  by (simp add: close_length_def split: option.splits prod.splits)

lemma fetch_lengths_pointers:
  "i + length vs \<le> length lens \<Longrightarrow> to + length (packed vs) < 2 ^ 32 \<Longrightarrow>
   (\<forall>q j. start = Some (q, j) \<longrightarrow> j < i \<and> q + 1 \<le> to) \<Longrightarrow>
   fetch_lengths_loop (value_pointers to vs @ [Some (to + length (packed vs))]) i start lens =
     take i (close_length start to lens) @ map value_length vs @ drop (i + length vs) lens"
proof (induction vs arbitrary: to i start lens)
  case Nil
  have "pointer_diff to (q + 1) = to - (q + 1)" if "start = Some (q, j)" for q j
    using Nil that by (intro pointer_diff_le) auto
  moreover have "lens[j := x] = (take i lens)[j := x] @ drop i lens" if "j < i" for j x
    using that Nil(1) by (metis append_take_drop_id drop_update_cancel take_update_swap)
  ultimately show ?case using Nil by (auto simp: close_length_def take_update_swap split: option.splits)
next
  case (Cons v vs)
  show ?case
  proof (cases v)
    case None
    then have "fetch_lengths_loop (value_pointers to (v # vs) @ [Some (to + length (packed (v # vs)))]) i start lens =
        take (i + 1) (close_length start to (lens[i := 0])) @ map value_length vs @ drop (i + 1 + length vs) (lens[i := 0])"
      using Cons.prems Cons.IH [of "i + 1" "lens[i := 0]" to start] by (simp add: less_Suc_eq)
    moreover have "take (i + 1) (close_length start to (lens[i := 0])) = take i (close_length start to lens) @ [0]"
      using Cons.prems by (auto simp: close_length_def take_Suc_conv_app_nth take_update_swap list_update_beyond split: option.splits)
    ultimately show ?thesis using None Cons.prems(1) by (simp add: value_length_def)
  next
    case (Some s)
    let ?lens = "close_length start to lens"
    have pd: "pointer_diff to (q + 1) = to - (q + 1)" if "start = Some (q, j)" for q j
      using Cons.prems that by (intro pointer_diff_le) auto
    have "fetch_lengths_loop (value_pointers to (v # vs) @ [Some (to + length (packed (v # vs)))]) i start lens =
        fetch_lengths_loop (value_pointers (to + length s + 1) vs @ [Some (to + length s + 1 + length (packed vs))]) (i + 1)
          (Some (to, i)) ?lens"
      using Some pd by (auto simp: close_length_def ac_simps split: option.splits)
    also have "\<dots> = take (i + 1) (close_length (Some (to, i)) (to + length s + 1) ?lens) @ map value_length vs @ drop (i + 1 + length vs) ?lens"
      using Cons.prems Some by (intro Cons.IH) auto
    also have "take (i + 1) (close_length (Some (to, i)) (to + length s + 1) ?lens) = take i ?lens @ [length s]"
      using Cons.prems(1) by (simp add: close_length_def [of "Some (to, i)"] take_Suc_conv_app_nth)
    also have "drop (i + 1 + length vs) ?lens = drop (i + 1 + length vs) lens"
      using Cons.prems(3) by (auto simp: close_length_def split: option.splits)
    finally show ?thesis using Some by (simp add: value_length_def)
  qed
qed

lemma cli_fetch_lengths_stored:
  assumes "row_data row = []" "length lens = length vs" "length (row_block row) < 2 ^ 32" "length (packed vs) \<le> length (row_block row)"
  shows "cli_fetch_lengths lens (row_data (stored 0 vs row)) (length vs) = map value_length vs"
  using fetch_lengths_pointers [of 0 vs lens 0 None] assms by (simp add: cli_fetch_lengths_def stored_def)

text \<open>The value a column pointer and a length stand for.\<close>

definition column_value :: "bytes \<Rightarrow> nat option \<Rightarrow> nat \<Rightarrow> bytes option" where
  "column_value block p len = map_option (\<lambda>p. take len (drop p block)) p"

lemma column_values_packed:
  "map2 (column_value (pre @ packed vs @ rest)) (value_pointers (length pre) vs) (map value_length vs) = vs"
proof (induction vs arbitrary: pre)
  case (Cons v vs)
  show ?case
  proof (cases v)
    case (Some s)
    then show ?thesis using Cons.IH [of "pre @ s @ [0]"] by (simp add: column_value_def value_length_def)
  qed (use Cons.IH [of pre] in \<open>simp add: column_value_def\<close>)
qed simp

lemma column_terminated:
  "p = Some q \<Longrightarrow> (p, v) \<in> set (zip (value_pointers (length pre) vs) vs) \<Longrightarrow> (pre @ packed vs @ rest) ! (q + value_length v) = 0"
proof (induction vs arbitrary: pre)
  case (Cons v' vs)
  show ?case
  proof (cases v')
    case None
    then show ?thesis using Cons.IH [of pre] Cons.prems by auto
  next
    case (Some s)
    then show ?thesis
      using Cons.IH [of "pre @ s @ [0]"] Cons.prems by (auto simp: value_length_def nth_append)
  qed
qed simp

subsection \<open>Reading packets off the stream\<close>

text \<open>Several logical packets in a row, numbered from \<open>nr\<close> on.\<close>

fun packets :: "uint32 \<Rightarrow> bytes list \<Rightarrow> bytes" where
  "packets nr [] = []"
| "packets nr (p # ps) = frames nr p @ packets (nr + of_nat (frame_count p)) ps"

fun packets_nr :: "uint32 \<Rightarrow> bytes list \<Rightarrow> uint32" where
  "packets_nr nr [] = nr"
| "packets_nr nr (p # ps) = packets_nr (nr + of_nat (frame_count p)) ps"

lemma packets_append: "packets nr (ps @ qs) = packets nr ps @ packets (packets_nr nr ps) qs"
  by (induction ps arbitrary: nr) simp_all

definition eof_packet :: "uint16 \<Rightarrow> uint16 \<Rightarrow> bytes" where
  "eof_packet warnings status = 254 # int2store (ucast warnings) @ int2store (ucast status)"

text \<open>A handle on a live socket, between two packets; \<open>rest\<close> is what the server has sent.\<close>

definition client_stream :: "sock vio client_env \<Rightarrow> sock vio mysql \<Rightarrow> bytes \<Rightarrow> bool" where
  "client_stream env mysql rest \<longleftrightarrow>
     read_ready (client_net env) vio_live (mysql_net mysql) \<and> env_ops (client_net env) = socket_ops sock_kernel \<and>
     net_in vio_incoming (mysql_net mysql) = rest"

definition size_fits :: "'v mysql \<Rightarrow> bytes \<Rightarrow> bool" where
  "size_fits mysql p \<longleftrightarrow>
     where_b (mysql_net mysql) + length p < max_packet_size (mysql_net mysql) \<and> where_b (mysql_net mysql) + length p < 2 ^ 32 - 1"

definition packet_fits :: "'v mysql \<Rightarrow> bytes \<Rightarrow> bool" where
  "packet_fits mysql p \<longleftrightarrow> p \<noteq> [] \<and> hd p \<noteq> 255 \<and> size_fits mysql p"

text \<open>\<open>packet_read mysql p mysql'\<close>: the packet is at \<open>read_pos\<close>, and only the packet layer's state has changed.\<close>

definition packet_read :: "'v mysql \<Rightarrow> bytes \<Rightarrow> 'v mysql \<Rightarrow> bool" where
  "packet_read mysql p mysql' \<longleftrightarrow>
     mysql' = mysql\<lparr>mysql_net := mysql_net mysql'\<rparr> \<and> (\<exists>r. read_bytes mysql' = Some (p @ 0 # r)) \<and>
     pkt_nr (mysql_net mysql') = pkt_nr (mysql_net mysql) + of_nat (frame_count p) \<and>
     where_b (mysql_net mysql') = where_b (mysql_net mysql) \<and> max_packet_size (mysql_net mysql') = max_packet_size (mysql_net mysql) \<and>
     net_read_pos (mysql_net mysql') = where_b (mysql_net mysql)"

lemma read_bytes_packet:
  assumes "net_packet (mysql_net mysql) (length p) = Some p" "get_byte (buff (mysql_net mysql)) (net_read_pos (mysql_net mysql) + length p) = Some 0"
  shows "\<exists>r. read_bytes mysql = Some (p @ 0 # r)"
proof -
  obtain b where b: "buff (mysql_net mysql) = Some b" using assms(1) by (cases "buff (mysql_net mysql)") (simp_all add: net_packet_def get_bytes_def)
  define d where "d = drop (net_read_pos (mysql_net mysql)) b"
  have t: "take (length p) d = p" "length p < length d" "d ! length p = 0"
    using assms b by (auto simp: net_packet_def get_bytes_def get_byte_def d_def split: if_splits)
  have "d = take (length p) d @ drop (length p) d" by simp
  also have "drop (length p) d = 0 # drop (Suc (length p)) d" using t(2,3) by (metis Cons_nth_drop_Suc)
  finally show ?thesis using b t(1) by (auto simp: read_bytes_def d_def)
qed

lemma client_net_read:
  assumes "client_stream env mysql (frames (pkt_nr (mysql_net mysql)) p @ rest)" "size_fits mysql p"
  shows "net_vio (mysql_net mysql) \<noteq> None \<and> (\<exists>net'. my_net_read (client_net env) (mysql_net mysql) = Some (Some (length p), net') \<and>
     packet_read mysql p (mysql\<lparr>mysql_net := net'\<rparr>) \<and> client_stream env (mysql\<lparr>mysql_net := net'\<rparr>) rest \<and>
     net_error net' = net_error (mysql_net mysql) \<and>
     (write_pos (mysql_net mysql) = 0 \<longrightarrow> write_pos net' = 0 \<and> net_out vio_outgoing net' = net_out vio_outgoing (mysql_net mysql)))"
proof -
  let ?net = "mysql_net mysql"
  have a: "read_ready (client_net env) vio_live ?net" "env_ops (client_net env) = socket_ops sock_kernel"
    "net_in vio_incoming ?net = frames (pkt_nr ?net) p @ rest" "where_b ?net + length p < max_packet_size ?net"
    using assms by (simp_all add: client_stream_def size_fits_def)
  obtain net' where r: "my_net_read (client_net env) ?net = Some (Some (length p), net')" "net_packet net' (length p) = Some p"
    "get_byte (buff net') (net_read_pos net' + length p) = Some 0" "net_in vio_incoming net' = rest"
    "pkt_nr net' = pkt_nr ?net + of_nat (frame_count p)" "read_ready (client_net env) vio_live net'"
    "where_b net' = where_b ?net" "max_packet_size net' = max_packet_size ?net" "net_read_pos net' = where_b ?net"
    "net_error net' = net_error ?net" "write_pos ?net = 0 \<longrightarrow> write_pos net' = 0 \<and> net_out vio_outgoing net' = net_out vio_outgoing ?net"
    using net_read_framed [OF a] by (elim exE conjE, intro that) assumption+
  obtain rr where "read_bytes (mysql\<lparr>mysql_net := net'\<rparr>) = Some (p @ 0 # rr)"
    using read_bytes_packet [of "mysql\<lparr>mysql_net := net'\<rparr>" p] r(2,3) by auto
  moreover have "net_vio ?net \<noteq> None" using a(1) by (auto simp: read_ready_def read_wf_def)
  ultimately show ?thesis using r a(2) by (auto simp: packet_read_def client_stream_def)
qed

lemma cli_safe_read_packet:
  assumes "client_stream env mysql (frames (pkt_nr (mysql_net mysql)) p @ rest)" "packet_fits mysql p"
  shows "\<exists>mysql'. cli_safe_read env mysql = Some (Some (length p), mysql') \<and> packet_read mysql p mysql' \<and> client_stream env mysql' rest"
proof -
  have p: "p \<noteq> []" "hd p \<noteq> 255" "size_fits mysql p" using assms(2) by (simp_all add: packet_fits_def)
  obtain net' where r: "net_vio (mysql_net mysql) \<noteq> None" "my_net_read (client_net env) (mysql_net mysql) = Some (Some (length p), net')"
    "packet_read mysql p (mysql\<lparr>mysql_net := net'\<rparr>)" "client_stream env (mysql\<lparr>mysql_net := net'\<rparr>) rest"
    using client_net_read [OF assms(1) p(3)] by blast
  obtain rr where rb: "read_bytes (mysql\<lparr>mysql_net := net'\<rparr>) = Some (p @ 0 # rr)" using r(3) by (auto simp: packet_read_def)
  have c: "get_byte (Some (p @ 0 # rr)) 0 = Some (hd p)" using p(1) by (cases p) (simp_all add: get_byte_def)
  have "cli_safe_read env mysql = Some (Some (length p), mysql\<lparr>mysql_net := net'\<rparr>)"
    unfolding cli_safe_read_def using r(1,2) rb c p(1,2) by simp
  then show ?thesis using r(3,4) by blast
qed

lemma encode_row_first:
  assumes "vs \<noteq> []"
  shows "encode_row vs \<noteq> [] \<and> hd (encode_row vs) \<noteq> 255 \<and> (hd (encode_row vs) = 254 \<longrightarrow> 8 < length (encode_row vs))"
proof -
  obtain v ws where vs: "vs = v # ws" using assms by (cases vs) auto
  show ?thesis
  proof (cases v)
    case None
    then show ?thesis by (simp add: vs encode_value_def)
  next
    case (Some s)
    let ?n = "of_nat (length s) :: ulonglong"
    have "net_store_length ?n \<noteq> []" "hd (net_store_length ?n) \<noteq> 255 \<and> (hd (net_store_length ?n) = 254 \<longrightarrow> length (net_store_length ?n) = 9)"
      by (cases ?n rule: net_store_length_cases; auto dest: small_uchar simp: store_simps)+
    then show ?thesis using Some by (auto simp: vs encode_value_def)
  qed
qed

lemma uint2korr_store [simp]: "uint2korr (int2store (ucast w) @ r) = Some w"
  using unsigned_less [of w, where 'a = nat]
  by (simp add: c2.dec_enc) (rule word_unat_eq_iff [THEN iffD2], simp add: unat_of_nat unat_ucast_mod)

lemma length_int2store [simp]: "length (int2store w) = 2"
  by (simp add: c2.length_enc)

lemma read_eof:
  "read_eof_packet mysql (eof_packet w s @ r) (length (eof_packet w s)) = Some (mysql\<lparr>warning_count := ucast w, server_status := ucast s\<rparr>)"
  by (simp add: read_eof_packet_def eof_packet_def)

subsection \<open>Stored results\<close>

definition alloc_ok :: "'v client_env \<Rightarrow> bool" where
  "alloc_ok env \<longleftrightarrow> (\<forall>k. \<exists>b. alloc_root env k = Some b \<and> length b = k) \<and> (\<forall>k. env_malloc (client_net env) k)"

definition row_of :: "'v client_env \<Rightarrow> nat \<Rightarrow> bytes option list \<Rightarrow> stored_row" where
  "row_of env n vs =
     stored 0 vs \<lparr>row_data = [], row_block = drop ((n + 1) * sizeof_pointer) (the (alloc_root env ((n + 1) * sizeof_pointer + length (encode_row vs))))\<rparr>"

definition widen_rows :: "bytes option list list \<Rightarrow> MYSQL_FIELD list \<Rightarrow> MYSQL_FIELD list" where
  "widen_rows rs fs = foldl (\<lambda>fs vs. widen 0 vs fs) fs rs"

lemma length_widen_rows [simp]: "length (widen_rows rs fs) = length fs"
  unfolding widen_rows_def by (induction rs arbitrary: fs) simp_all

definition rows_fit :: "'v mysql \<Rightarrow> nat \<Rightarrow> bytes option list list \<Rightarrow> bool" where
  "rows_fit mysql n rs \<longleftrightarrow> 0 < n \<and> (\<forall>vs \<in> set rs. length vs = n \<and> size_fits mysql (encode_row vs))"

lemma rows_packets_fit:
  assumes "rows_fit mysql n rs" "size_fits mysql (eof_packet w s)" "p \<in> set (map encode_row rs @ [eof_packet w s])"
  shows "packet_fits mysql p"
proof (cases "p = eof_packet w s")
  case True
  then show ?thesis using assms(2) by (simp add: packet_fits_def eof_packet_def)
next
  case False
  then obtain vs where vs: "vs \<in> set rs" "p = encode_row vs" using assms(3) by auto
  then have "vs \<noteq> []" "size_fits mysql p" using assms(1) by (auto simp: rows_fit_def)
  then show ?thesis using encode_row_first [of vs] vs(2) by (simp add: packet_fits_def)
qed

lemma store_row:
  assumes "alloc_ok env" "length vs = n" "0 < n" "length (encode_row vs) < 2 ^ 32 - 1" "room_for_fields 0 n flds"
  shows "\<exists>b. alloc_root env ((n + 1) * sizeof_pointer + length (encode_row vs)) = Some b \<and>
    store_fields n (encode_row vs @ r) 0 (length (encode_row vs) - 1) 0 \<lparr>row_data = [], row_block = drop ((n + 1) * sizeof_pointer) b\<rparr> flds =
      Some (True, row_of env n vs, widen_opt 0 vs flds)"
proof -
  obtain b where b: "alloc_root env ((n + 1) * sizeof_pointer + length (encode_row vs)) = Some b"
    "length b = (n + 1) * sizeof_pointer + length (encode_row vs)" using assms(1) by (auto simp: alloc_ok_def)
  have pos: "0 < length (encode_row vs)" using assms(2,3) encode_row_first [of vs] by auto
  have "store_fields (length vs) (encode_row vs @ r) 0 (length (encode_row vs) - 1) 0
      \<lparr>row_data = [], row_block = drop ((n + 1) * sizeof_pointer) b\<rparr> flds = Some (True, row_of env n vs, widen_opt 0 vs flds)"
    using b pos assms by (subst store_fields_encode) (auto simp: row_of_def)
  then show ?thesis using b assms(2) by auto
qed

lemma read_rows_loop_stream:
  assumes "alloc_ok env"
  shows "ps = map encode_row rs @ [eof_packet w s] \<Longrightarrow> read_bytes mysql = Some (hd ps @ 0 # r) \<Longrightarrow>
    client_stream env mysql (packets (pkt_nr (mysql_net mysql)) (tl ps) @ rest) \<Longrightarrow>
    rows_fit mysql n rs \<Longrightarrow> size_fits mysql (eof_packet w s) \<Longrightarrow>
    (with_fields \<longrightarrow> room_for_fields 0 n (mysql_fields mysql)) \<Longrightarrow>
    \<exists>net'. read_rows_loop env with_fields n mysql (length (hd ps)) acc =
      Some (Some (acc @ map (row_of env n) rs),
        mysql\<lparr>mysql_net := net', mysql_fields := (if with_fields then map_option (widen_rows rs) (mysql_fields mysql) else mysql_fields mysql),
              warning_count := ucast w, server_status := ucast s\<rparr>) \<and>
      client_stream env (mysql\<lparr>mysql_net := net'\<rparr>) rest \<and> where_b net' = where_b (mysql_net mysql) \<and>
      max_packet_size net' = max_packet_size (mysql_net mysql) \<and> pkt_nr net' = packets_nr (pkt_nr (mysql_net mysql)) (tl ps)"
proof (induction rs arbitrary: ps mysql r acc)
  case Nil
  then have p: "hd ps = eof_packet w s" "tl ps = []" by simp_all
  have g: "get_byte (Some (eof_packet w s @ 0 # r)) 0 = Some 254" "length (eof_packet w s) < 8" by (simp_all add: eof_packet_def get_byte_def)
  have "mysql\<lparr>mysql_net := mysql_net mysql, mysql_fields := (if with_fields then map_option (widen_rows []) (mysql_fields mysql) else mysql_fields mysql),
      warning_count := ucast w, server_status := ucast s\<rparr> = mysql\<lparr>warning_count := ucast w, server_status := ucast s\<rparr>"
    by (cases "mysql_fields mysql") (simp_all add: widen_rows_def)
  then show ?case
    using Nil g by (subst read_rows_loop.simps) (auto simp: p read_eof intro!: exI [of _ "mysql_net mysql"])
next
  case (Cons vs rs)
  define ps' where "ps' = map encode_row rs @ [eof_packet w s]"
  have p: "hd ps = encode_row vs" "tl ps = ps'" using Cons.prems(1) by (simp_all add: ps'_def)
  have n: "length vs = n" "0 < n" "size_fits mysql (encode_row vs)" using Cons.prems(4) by (simp_all add: rows_fit_def)
  note first = encode_row_first [of vs]
  have g: "get_byte (Some (encode_row vs @ 0 # r)) 0 = Some (hd (encode_row vs))"
    using first n by (cases "encode_row vs") (auto simp: get_byte_def)
  let ?flds = "if with_fields then mysql_fields mysql else None"
  have room: "room_for_fields 0 n ?flds" using Cons.prems(6) by (auto simp: room_for_fields_def)
  have len: "length (encode_row vs) < 2 ^ 32 - 1" using n(3) by (simp add: size_fits_def)
  obtain b where b: "alloc_root env ((n + 1) * sizeof_pointer + length (encode_row vs)) = Some b"
    "store_fields n (encode_row vs @ 0 # r) 0 (length (encode_row vs) - 1) 0 \<lparr>row_data = [], row_block = drop ((n + 1) * sizeof_pointer) b\<rparr> ?flds =
      Some (True, row_of env n vs, widen_opt 0 vs ?flds)"
    using store_row [OF assms n(1,2) len room] by blast
  obtain a where a: "alloc_root env sizeof_MYSQL_ROWS = Some a" using assms by (auto simp: alloc_ok_def)
  define m1 where "m1 = (if with_fields then mysql\<lparr>mysql_fields := widen_opt 0 vs (mysql_fields mysql)\<rparr> else mysql)"
  have net1: "mysql_net m1 = mysql_net mysql" by (simp add: m1_def)
  have fit1: "size_fits m1 p = size_fits mysql p" for p by (simp add: size_fits_def net1)
  obtain p' ps2 where ps': "ps' = p' # ps2" by (cases ps') (simp_all add: ps'_def)
  have "packet_fits m1 p'"
    using ps' rows_packets_fit [of m1 n rs w s p'] Cons.prems(4,5) by (simp add: fit1 rows_fit_def ps'_def)
  moreover have "client_stream env m1 (frames (pkt_nr (mysql_net m1)) p' @ packets (pkt_nr (mysql_net mysql) + of_nat (frame_count p')) ps2 @ rest)"
    using Cons.prems(3) p(2) ps' by (simp add: client_stream_def net1)
  ultimately obtain m2 where m2: "cli_safe_read env m1 = Some (Some (length p'), m2)" "packet_read m1 p' m2"
    "client_stream env m2 (packets (pkt_nr (mysql_net mysql) + of_nat (frame_count p')) ps2 @ rest)"
    using cli_safe_read_packet by blast
  obtain r2 where r2: "read_bytes m2 = Some (p' @ 0 # r2)" using m2(2) by (auto simp: packet_read_def)
  have nr2: "pkt_nr (mysql_net m2) = pkt_nr (mysql_net mysql) + of_nat (frame_count p')"
    and upd: "m2 = m1\<lparr>mysql_net := mysql_net m2\<rparr>" and same: "where_b (mysql_net m2) = where_b (mysql_net mysql)"
      "max_packet_size (mysql_net m2) = max_packet_size (mysql_net mysql)"
    using m2(2) net1 by (simp_all add: packet_read_def)
  have fit2: "size_fits m2 p = size_fits mysql p" for p using same by (simp add: size_fits_def)
  have f2: "mysql_fields m2 = mysql_fields m1" by (subst upd) simp
  have step: "read_rows_loop env with_fields n mysql (length (hd ps)) acc = read_rows_loop env with_fields n m2 (length p') (acc @ [row_of env n vs])"
    using Cons.prems(2) g b a m2(1) [unfolded m1_def] first n
    by (subst read_rows_loop.simps) (cases with_fields; auto simp: p(1))
  have "\<exists>net'. read_rows_loop env with_fields n m2 (length (hd ps')) (acc @ [row_of env n vs]) =
      Some (Some ((acc @ [row_of env n vs]) @ map (row_of env n) rs),
        m2\<lparr>mysql_net := net', mysql_fields := (if with_fields then map_option (widen_rows rs) (mysql_fields m2) else mysql_fields m2),
              warning_count := ucast w, server_status := ucast s\<rparr>) \<and>
      client_stream env (m2\<lparr>mysql_net := net'\<rparr>) rest \<and> where_b net' = where_b (mysql_net m2) \<and>
      max_packet_size net' = max_packet_size (mysql_net m2) \<and> pkt_nr net' = packets_nr (pkt_nr (mysql_net m2)) (tl ps')"
    using Cons.prems(4-6) ps' r2 m2(3) nr2 fit2 room_for_fields_widen
    by (intro Cons.IH) (auto simp: ps'_def rows_fit_def f2 m1_def room_for_fields_def widen_opt_def)
  then obtain net' where ih: "read_rows_loop env with_fields n m2 (length p') (acc @ [row_of env n vs]) =
      Some (Some (acc @ map (row_of env n) (vs # rs)),
        m2\<lparr>mysql_net := net', mysql_fields := (if with_fields then map_option (widen_rows rs) (mysql_fields m2) else mysql_fields m2),
              warning_count := ucast w, server_status := ucast s\<rparr>)"
      "client_stream env (m2\<lparr>mysql_net := net'\<rparr>) rest" "where_b net' = where_b (mysql_net mysql)"
      "max_packet_size net' = max_packet_size (mysql_net mysql)" "pkt_nr net' = packets_nr (pkt_nr (mysql_net mysql)) (tl ps)"
    using ps' same nr2 p(2) by auto
  have "m2\<lparr>mysql_net := net', mysql_fields := F, warning_count := ucast w, server_status := ucast s\<rparr> =
      m1\<lparr>mysql_net := net', mysql_fields := F, warning_count := ucast w, server_status := ucast s\<rparr>" for F
    using arg_cong [OF upd, of "\<lambda>m. m\<lparr>mysql_net := net', mysql_fields := F, warning_count := ucast w, server_status := ucast s\<rparr>"] by simp
  moreover have "map_option (widen_rows rs) (widen_opt 0 vs fs) = map_option (widen_rows (vs # rs)) fs" for fs
    by (cases fs) (simp_all add: widen_opt_def widen_rows_def)
  moreover have "client_stream env (mysql\<lparr>mysql_net := net'\<rparr>) rest" using ih(2) by (simp add: client_stream_def)
  ultimately show ?case
    using step ih(1,3-5) by (intro exI [of _ net']) (auto simp: f2 m1_def)
qed

subsection \<open>Fetching\<close>

text \<open>
  What an application does with a result: fetch a row, ask for its lengths, look at the columns, until there
  is no row. The values of a row are those at its pointers; the first argument bounds the number of rounds.
\<close>

definition row_columns :: "'v mysql \<Rightarrow> mysql_res \<Rightarrow> current_row \<Rightarrow> nat list \<Rightarrow> bytes option list" where
  "row_columns mysql res row lens =
     (case row of
        No_row \<Rightarrow> []
      | Stored_row r \<Rightarrow> map2 (column_value (row_block r)) (row_data r) lens
      | Unbuffered_row \<Rightarrow>
          (case buff (mysql_net mysql) of None \<Rightarrow> [] | Some b \<Rightarrow> map2 (column_value b) (res_row res) lens))"

fun fetch_all :: "nat \<Rightarrow> 'v client_env \<Rightarrow> 'v mysql \<Rightarrow> mysql_res \<Rightarrow> (bytes option list list \<times> 'v mysql \<times> mysql_res) option" where
  "fetch_all 0 env mysql res = None"
| "fetch_all (Suc k) env mysql res = do {
     (row, mysql, res) \<leftarrow> mysql_fetch_row env mysql res;
     if row = No_row then Some ([], mysql, res)
     else do {
       let (lens, res) = mysql_fetch_lengths res;
       lens \<leftarrow> lens;
       (vs, mysql', res') \<leftarrow> fetch_all k env mysql res;
       Some (row_columns mysql res row lens # vs, mysql', res')
     }
   }"

declare fetch_all.simps [simp del]

lemma row_of_columns:
  assumes "alloc_ok env" "length vs = n" "length (encode_row vs) < 2 ^ 32 - 1" "length lens = n"
  shows "cli_fetch_lengths lens (row_data (row_of env n vs)) n = map value_length vs"
    "map2 (column_value (row_block (row_of env n vs))) (row_data (row_of env n vs)) (map value_length vs) = vs"
proof -
  obtain b where b: "alloc_root env ((n + 1) * sizeof_pointer + length (encode_row vs)) = Some b"
    "length b = (n + 1) * sizeof_pointer + length (encode_row vs)" using assms(1) by (auto simp: alloc_ok_def)
  let ?row = "\<lparr>row_data = [], row_block = drop ((n + 1) * sizeof_pointer) b\<rparr>"
  have r: "row_of env n vs = stored 0 vs ?row" using b by (simp add: row_of_def)
  show "cli_fetch_lengths lens (row_data (row_of env n vs)) n = map value_length vs"
    using cli_fetch_lengths_stored [of ?row lens vs] b assms length_packed_le [of vs] by (simp add: r)
  show "map2 (column_value (row_block (row_of env n vs))) (row_data (row_of env n vs)) (map value_length vs) = vs"
    using column_values_packed [of "[]" vs "drop (length (packed vs)) (row_block ?row)"]
    by (simp add: r stored_def zip_append1)
qed

lemma fetch_all_stored:
  assumes "alloc_ok env"
  shows "\<forall>vs \<in> set rs. length vs = n \<and> length (encode_row vs) < 2 ^ 32 - 1 \<Longrightarrow> res_data res \<noteq> None \<Longrightarrow>
    res_cursor res = map (row_of env n) rs \<Longrightarrow> res_field_count res = n \<Longrightarrow> length (res_lengths res) = n \<Longrightarrow>
    \<exists>res'. fetch_all (Suc (length rs)) env mysql res = Some (rs, mysql, res')"
proof (induction rs arbitrary: res)
  case Nil
  then show ?case by (auto simp: mysql_fetch_row_def fetch_all.simps)
next
  case (Cons vs rs)
  let ?res = "res\<lparr>res_cursor := map (row_of env n) rs, res_current_row := Stored_row (row_of env n vs), res_lengths := map value_length vs\<rparr>"
  have v: "length vs = n" "length (encode_row vs) < 2 ^ 32 - 1" using Cons.prems(1) by simp_all
  note cols = row_of_columns [OF assms v]
  obtain res' where ih: "fetch_all (Suc (length rs)) env mysql ?res = Some (rs, mysql, res')"
    using Cons.IH [of ?res] Cons.prems v(1) by auto
  obtain d where d: "res_data res = Some d" using Cons.prems(2) by auto
  have "mysql_fetch_row env mysql res = Some (Stored_row (row_of env n vs), mysql,
      res\<lparr>res_cursor := map (row_of env n) rs, res_current_row := Stored_row (row_of env n vs)\<rparr>)"
    using d Cons.prems(3) by (simp add: mysql_fetch_row_def)
  moreover have "mysql_fetch_lengths (res\<lparr>res_cursor := map (row_of env n) rs, res_current_row := Stored_row (row_of env n vs)\<rparr>) =
      (Some (map value_length vs), ?res)"
    using d Cons.prems(4,5) cols(1) by (simp add: mysql_fetch_lengths_def Let_def)
  ultimately show ?case
    using ih cols(2) [OF Cons.prems(5)] by (simp add: row_columns_def fetch_all.simps(2) [of "Suc (length rs)"])
qed

text \<open>The width of a column: the longest value in it.\<close>

definition column_width :: "nat \<Rightarrow> bytes option list list \<Rightarrow> nat \<Rightarrow> nat" where
  "column_width i rs m = foldl (\<lambda>m vs. max m (value_length (vs ! i))) m rs"

lemma widen_nth:
  "j < length fs \<Longrightarrow> i + length vs \<le> length fs \<Longrightarrow>
   max_length (widen i vs fs ! j) = (if i \<le> j \<and> j < i + length vs then max (max_length (fs ! j)) (value_length (vs ! (j - i))) else max_length (fs ! j))"
proof (induction vs arbitrary: i fs)
  case (Cons v vs)
  let ?fs = "if v = None then fs else fs[i := (fs ! i)\<lparr>max_length := max (max_length (fs ! i)) (value_length v)\<rparr>]"
  have "max_length (?fs ! j) = (if i = j then max (max_length (fs ! j)) (value_length v) else max_length (fs ! j))"
    using Cons.prems by (auto simp: value_length_def nth_list_update)
  moreover have "max_length (widen (i + 1) vs ?fs ! j) =
      (if i + 1 \<le> j \<and> j < i + 1 + length vs then max (max_length (?fs ! j)) (value_length (vs ! (j - (i + 1)))) else max_length (?fs ! j))"
    using Cons.prems by (intro Cons.IH) simp_all
  moreover have "i + 1 \<le> j \<Longrightarrow> vs ! (j - (i + 1)) = (v # vs) ! (j - i)" by (simp add: nth_Cons')
  ultimately show ?case by (auto simp: nth_Cons')
qed simp

lemma widen_rows_width:
  "i < n \<Longrightarrow> length fs = n \<Longrightarrow> \<forall>vs \<in> set rs. length vs = n \<Longrightarrow> max_length (widen_rows rs fs ! i) = column_width i rs (max_length (fs ! i))"
  unfolding widen_rows_def column_width_def by (induction rs arbitrary: fs) (simp_all add: widen_nth)

text \<open>Only the widths of the fields change.\<close>

definition unmeasured :: "MYSQL_FIELD \<Rightarrow> MYSQL_FIELD" where
  "unmeasured f = f\<lparr>max_length := 0\<rparr>"

lemma widen_unmeasured: "map unmeasured (widen i vs fs) = map unmeasured fs"
proof (induction vs arbitrary: i fs)
  case (Cons v vs)
  have "map unmeasured (fs[i := (fs ! i)\<lparr>max_length := k\<rparr>]) = map unmeasured fs" for k
    by (cases "i < length fs") (simp_all add: map_update unmeasured_def list_update_same_conv list_update_beyond)
  then show ?case using Cons.IH by simp
qed simp

lemma widen_rows_unmeasured: "map unmeasured (widen_rows rs fs) = map unmeasured fs"
  unfolding widen_rows_def by (induction rs arbitrary: fs) (simp_all add: widen_unmeasured)

lemma cli_read_rows_stream:
  assumes "client_stream env mysql (packets (pkt_nr (mysql_net mysql)) (map encode_row rs @ [eof_packet w s]) @ rest)" "alloc_ok env"
    and "rows_fit mysql n rs" "size_fits mysql (eof_packet w s)" "with_fields \<longrightarrow> room_for_fields 0 n (mysql_fields mysql)"
  shows "\<exists>net'. cli_read_rows env with_fields n mysql =
      Some (Some (map (row_of env n) rs),
        mysql\<lparr>mysql_net := net', mysql_fields := (if with_fields then map_option (widen_rows rs) (mysql_fields mysql) else mysql_fields mysql),
              warning_count := ucast w, server_status := ucast s\<rparr>) \<and>
      client_stream env (mysql\<lparr>mysql_net := net'\<rparr>) rest \<and> where_b net' = where_b (mysql_net mysql) \<and>
      max_packet_size net' = max_packet_size (mysql_net mysql) \<and>
      pkt_nr net' = packets_nr (pkt_nr (mysql_net mysql)) (map encode_row rs @ [eof_packet w s])"
proof -
  define ps where "ps = map encode_row rs @ [eof_packet w s]"
  obtain p ps2 where ps: "ps = p # ps2" by (cases ps) (simp_all add: ps_def)
  have "packet_fits mysql p" using rows_packets_fit [OF assms(3,4), of p] ps by (simp add: ps_def [symmetric])
  moreover have "client_stream env mysql (frames (pkt_nr (mysql_net mysql)) p @ packets (pkt_nr (mysql_net mysql) + of_nat (frame_count p)) ps2 @ rest)"
    using assms(1) ps by (simp add: ps_def [symmetric])
  ultimately obtain m where m: "cli_safe_read env mysql = Some (Some (length p), m)" "packet_read mysql p m"
    "client_stream env m (packets (pkt_nr (mysql_net mysql) + of_nat (frame_count p)) ps2 @ rest)"
    using cli_safe_read_packet by blast
  obtain r where r: "read_bytes m = Some (p @ 0 # r)" using m(2) by (auto simp: packet_read_def)
  have nr: "pkt_nr (mysql_net m) = pkt_nr (mysql_net mysql) + of_nat (frame_count p)" and upd: "m = mysql\<lparr>mysql_net := mysql_net m\<rparr>"
    and same: "where_b (mysql_net m) = where_b (mysql_net mysql)" "max_packet_size (mysql_net m) = max_packet_size (mysql_net mysql)"
    using m(2) by (simp_all add: packet_read_def)
  have fit: "size_fits m q = size_fits mysql q" for q using same by (simp add: size_fits_def)
  have f: "mysql_fields m = mysql_fields mysql" by (subst upd) simp
  obtain net' where l: "read_rows_loop env with_fields n m (length (hd ps)) [] =
      Some (Some ([] @ map (row_of env n) rs),
        m\<lparr>mysql_net := net', mysql_fields := (if with_fields then map_option (widen_rows rs) (mysql_fields m) else mysql_fields m),
              warning_count := ucast w, server_status := ucast s\<rparr>)"
      "client_stream env (m\<lparr>mysql_net := net'\<rparr>) rest" "where_b net' = where_b (mysql_net m)"
      "max_packet_size net' = max_packet_size (mysql_net m)" "pkt_nr net' = packets_nr (pkt_nr (mysql_net m)) (tl ps)"
    using read_rows_loop_stream [OF assms(2) ps_def, of m r rest n with_fields "[]"] r m(3) nr ps assms(3-5) fit f
    by (auto simp: rows_fit_def)
  have "m\<lparr>mysql_net := net', mysql_fields := F, warning_count := ucast w, server_status := ucast s\<rparr> =
      mysql\<lparr>mysql_net := net', mysql_fields := F, warning_count := ucast w, server_status := ucast s\<rparr>" for F
    using arg_cong [OF upd, of "\<lambda>m. m\<lparr>mysql_net := net', mysql_fields := F, warning_count := ucast w, server_status := ucast s\<rparr>"] by simp
  moreover have "env_malloc (client_net env) sizeof_MYSQL_DATA" using assms(2) by (simp add: alloc_ok_def)
  moreover have "pkt_nr net' = packets_nr (pkt_nr (mysql_net mysql)) ps" using l(5) nr ps by simp
  ultimately show ?thesis using l m(1) ps f same by (auto simp: cli_read_rows_def client_stream_def ps_def [symmetric])
qed

text \<open>
  A stored result is the one the server sent: when the stream holds the packets of the rows and the EOF packet,
  fetching rows and lengths until there are no more gives exactly the values of every row, and the widths of the
  columns are those of their longest values.
\<close>

lemma store_result_rows:
  assumes "client_stream env mysql (packets (pkt_nr (mysql_net mysql)) (map encode_row rs @ [eof_packet w s]) @ rest)" "alloc_ok env"
    and "mysql_status mysql = MYSQL_STATUS_GET_RESULT" "mysql_fields mysql = Some fs" "length fs = field_count mysql"
    and "rows_fit mysql (field_count mysql) rs" "size_fits mysql (eof_packet w s)"
  shows "\<exists>res mysql' res' fs'. mysql_store_result env address mysql = Some (Some res, mysql') \<and>
     fetch_all (Suc (length rs)) env mysql' res = Some (rs, mysql', res') \<and> res_row_count res = length rs \<and>
     res_field_count res = field_count mysql \<and> res_fields res = Some fs' \<and> map unmeasured fs' = map unmeasured fs \<and>
     (\<forall>i < field_count mysql. max_length (fs' ! i) = column_width i rs (max_length (fs ! i))) \<and>
     mysql_status mysql' = MYSQL_STATUS_READY \<and> warning_count mysql' = ucast w \<and> server_status mysql' = ucast s \<and>
     client_stream env mysql' rest"
proof -
  let ?m = "mysql\<lparr>mysql_status := MYSQL_STATUS_READY\<rparr>" and ?n = "field_count mysql"
  obtain net' where r: "cli_read_rows env True ?n ?m =
      Some (Some (map (row_of env ?n) rs), ?m\<lparr>mysql_net := net', mysql_fields := map_option (widen_rows rs) (mysql_fields ?m),
              warning_count := ucast w, server_status := ucast s\<rparr>)" "client_stream env (?m\<lparr>mysql_net := net'\<rparr>) rest"
    using cli_read_rows_stream [of env ?m rs w s rest ?n True] assms
    by (auto simp: client_stream_def rows_fit_def size_fits_def room_for_fields_def)
  let ?res = "\<lparr>res_row_count = length rs, res_fields = Some (widen_rows rs fs), res_data = Some (map (row_of env ?n) rs), res_cursor = map (row_of env ?n) rs,
      res_lengths = replicate ?n 0, res_handle = False, res_row = [], res_current_row = No_row,
      res_field_count = ?n, res_current_field = 0, res_eof = True, res_address = address\<rparr>"
  let ?m' = "?m\<lparr>mysql_net := net', mysql_fields := None, warning_count := ucast w, server_status := ucast s,
      affected_rows := of_nat (length rs), unbuffered_fetch_owner := None\<rparr>"
  have "mysql_store_result env address mysql = Some (Some ?res, ?m')"
    using r(1) assms(2-4) by (simp add: mysql_store_result_def alloc_ok_def)
  moreover have "\<forall>vs \<in> set rs. length vs = ?n \<and> length (encode_row vs) < 2 ^ 32 - 1"
    using assms(6) by (auto simp: rows_fit_def size_fits_def)
  then obtain res' where "fetch_all (Suc (length rs)) env ?m' ?res = Some (rs, ?m', res')"
    using fetch_all_stored [OF assms(2), of rs ?n ?res ?m'] by auto
  moreover have "max_length (widen_rows rs fs ! i) = column_width i rs (max_length (fs ! i))" if "i < ?n" for i
    using widen_rows_width [OF that assms(5)] assms(6) by (simp add: rows_fit_def)
  moreover have "client_stream env ?m' rest" using r(2) by (simp add: client_stream_def)
  ultimately show ?thesis by (intro exI [of _ ?res] exI [of _ ?m'] exI [of _ res'] exI [of _ "widen_rows rs fs"]) (simp add: widen_rows_unmeasured)
qed

subsection \<open>Unbuffered results\<close>

fun place_pointers :: "nat \<Rightarrow> bytes option list \<Rightarrow> nat option list" where
  "place_pointers pos [] = []"
| "place_pointers pos (v # vs) =
     (case v of None \<Rightarrow> None | Some s \<Rightarrow> Some (pos + length (encode_value v) - length s)) # place_pointers (pos + length (encode_value v)) vs"

lemma length_place_pointers [simp]: "length (place_pointers pos vs) = length vs"
  by (induction vs arbitrary: pos) simp_all

text \<open>Zeroing the byte at \<open>prev_pos\<close>, if there is one.\<close>

definition zero_at :: "nat option \<Rightarrow> bytes \<Rightarrow> bytes" where
  "zero_at prev b = (case prev of None \<Rightarrow> b | Some p \<Rightarrow> take p b @ [0] @ drop (p + 1) b)"

lemma put_zero: "p < length b \<Longrightarrow> put_bytes (Some b) p [0] = Some (zero_at (Some p) b)"
  by (simp add: put_bytes_def zero_at_def)

lemma zero_at_props:
  assumes "prev = None \<or> prev = Some pos" "pos < length b"
  shows "length (zero_at prev b) = length b" "take pos (zero_at prev b) = take pos b" "pos < q \<Longrightarrow> drop q (zero_at prev b) = drop q b"
  using assms by (auto simp: zero_at_def drop_Cons')

lemma point_fields_step:
  assumes "drop pos b = encode_value v @ tail" "tail \<noteq> []" "prev = None \<or> prev = Some pos" "length (encode_value v) < 2 ^ 32 - 1"
    and "end_pos < 2 ^ 32" "pos + length (encode_value v) \<le> end_pos"
  shows "point_fields (Suc n) b pos end_pos prev row lens =
    point_fields n (zero_at prev b) (pos + length (encode_value v)) end_pos (Some (pos + length (encode_value v)))
      (row @ [hd (place_pointers pos [v])]) (lens @ [value_length v])"
proof -
  have inb: "pos < length b" using assms(1,2) by (cases "pos < length b") simp_all
  have put: "(case prev of None \<Rightarrow> Some b | Some p \<Rightarrow> put_bytes (Some b) p [0]) = Some (zero_at prev b)"
    using assms(3) put_zero [OF inb] by (auto simp: zero_at_def)
  show ?thesis
  proof (cases v)
    case None
    then have "net_field_length (drop pos b) = Some (NULL_LENGTH, 1)" using assms(1) net_field_length_null by simp
    then show ?thesis using put None by (simp add: value_length_def encode_value_def)
  next
    case (Some s)
    define k where "k = length (net_store_length (of_nat (length s)))"
    have len: "length (encode_value v) = k + length s" using Some by (simp add: encode_value_def k_def)
    have s: "length s < 2 ^ 32 - 1" using assms(4) len by simp
    have nf: "net_field_length (drop pos b) = Some (of_nat (length s), k)"
      using assms(1) Some net_field_length_value [OF s, of tail] by (simp add: k_def)
    have "pointer_diff end_pos (pos + k) = end_pos - (pos + k)" using assms(5,6) len by (intro pointer_diff_le) simp_all
    then have room: "\<not> unat (of_nat (length s) :: ulong) > pointer_diff end_pos (pos + k)" using ulong_of_nat(1) [OF s] assms(6) len by simp
    show ?thesis
      using nf room put ulong_of_nat [OF s] Some len by (simp add: value_length_def add.assoc)
  qed
qed

lemma point_fields_encode:
  "drop pos b = encode_row vs @ 0 # r \<Longrightarrow> prev = Some pos \<or> prev = None \<and> vs \<noteq> [] \<Longrightarrow> end_pos = pos + length (encode_row vs) \<Longrightarrow>
   end_pos < 2 ^ 32 - 1 \<Longrightarrow>
   \<exists>b'. point_fields (length vs) b pos end_pos prev row lens =
       Some (True, b', row @ place_pointers pos vs @ [Some (end_pos + 1)], lens @ map value_length vs) \<and>
     length b' = length b \<and> take pos b' = take pos b \<and> map2 (column_value b') (place_pointers pos vs) (map value_length vs) = vs"
proof (induction vs arbitrary: pos b prev row lens)
  case Nil
  then have "pos < length b" by (cases "pos < length b") simp_all
  then show ?case using Nil put_zero [of pos b] zero_at_props [of "Some pos" pos b] by auto
next
  case (Cons v vs)
  let ?l = "length (encode_value v)"
  let ?b = "zero_at prev b"
  have inb: "pos < length b" using Cons.prems(1) by (cases "pos < length b") simp_all
  have lb: "length b = pos + ?l + length (encode_row vs) + 1 + length r"
    using arg_cong [OF Cons.prems(1), of length] inb by simp
  have prev: "prev = None \<or> prev = Some pos" using Cons.prems(2) by auto
  note z = zero_at_props [OF prev inb]
  have l0: "0 < ?l" by (cases v) (simp_all add: encode_value_def net_store_length_pos [unfolded length_greater_0_conv])
  have d: "drop (pos + ?l) b = encode_row vs @ 0 # r"
    using arg_cong [OF Cons.prems(1), of "drop ?l"] by (simp add: add.commute)
  have "drop (pos + ?l) ?b = encode_row vs @ 0 # r" using z(3) [of "pos + ?l"] l0 d by simp
  then obtain b' where ih: "point_fields (length vs) ?b (pos + ?l) end_pos (Some (pos + ?l)) (row @ [hd (place_pointers pos [v])]) (lens @ [value_length v]) =
       Some (True, b', (row @ [hd (place_pointers pos [v])]) @ place_pointers (pos + ?l) vs @ [Some (end_pos + 1)], (lens @ [value_length v]) @ map value_length vs)"
     "length b' = length ?b" "take (pos + ?l) b' = take (pos + ?l) ?b"
     "map2 (column_value b') (place_pointers (pos + ?l) vs) (map value_length vs) = vs"
    using Cons.IH [of "pos + ?l" ?b "Some (pos + ?l)" "row @ [hd (place_pointers pos [v])]" "lens @ [value_length v]"] Cons.prems(3,4) z(1) by auto
  have "point_fields (length (v # vs)) b pos end_pos prev row lens =
      point_fields (length vs) ?b (pos + ?l) end_pos (Some (pos + ?l)) (row @ [hd (place_pointers pos [v])]) (lens @ [value_length v])"
    using point_fields_step [of pos b v "encode_row vs @ 0 # r" prev end_pos "length vs" row lens] Cons.prems lb prev by simp
  moreover have "take pos b' = take pos b"
    using arg_cong [OF ih(3), of "take pos"] z(2) by (simp add: min_def)
  moreover have "column_value b' (hd (place_pointers pos [v])) (value_length v) = v"
  proof (cases v)
    case (Some s)
    define q where "q = pos + ?l - length s"
    have q: "q + length s = pos + ?l" "pos < q"
      using Some net_store_length_pos [of "of_nat (length s)"] by (simp_all add: q_def encode_value_def)
    have "take (length s) (drop q b') = drop q (take (pos + ?l) b')" using q(1) by (simp add: take_drop add.commute)
    also have "\<dots> = drop q (take (pos + ?l) b)"
      using z(3) [OF q(2)] ih(3) q(1) by (metis take_drop drop_take)
    also have "\<dots> = drop (q - pos) (take ?l (drop pos b))" using q by (simp add: drop_take add.commute)
    also have "\<dots> = s" using Some Cons.prems(1) q by (simp add: encode_value_def q_def)
    finally show ?thesis using Some by (simp add: column_value_def value_length_def q_def)
  qed (simp add: column_value_def)
  ultimately show ?case using ih z(1) by (intro exI [of _ b']) simp
qed

lemma read_one_row_stream:
  assumes "client_stream env mysql (frames (pkt_nr (mysql_net mysql)) (encode_row vs) @ rest)" "size_fits mysql (encode_row vs)"
    and "length vs = n" "0 < n" "length row = n + 1" "length lens = n"
  shows "\<exists>mysql' row' b. read_one_row env mysql n row lens = Some (0, mysql', row', map value_length vs) \<and> length row' = n + 1 \<and>
     mysql' = mysql\<lparr>mysql_net := mysql_net mysql'\<rparr> \<and> buff (mysql_net mysql') = Some b \<and>
     map2 (column_value b) row' (map value_length vs) = vs \<and> client_stream env mysql' rest \<and>
     pkt_nr (mysql_net mysql') = pkt_nr (mysql_net mysql) + of_nat (frame_count (encode_row vs)) \<and>
     where_b (mysql_net mysql') = where_b (mysql_net mysql) \<and> max_packet_size (mysql_net mysql') = max_packet_size (mysql_net mysql)"
proof -
  have vs: "vs \<noteq> []" using assms(3,4) by auto
  note first = encode_row_first [OF vs]
  have "packet_fits mysql (encode_row vs)" using first assms(2) by (simp add: packet_fits_def)
  then obtain m where m: "cli_safe_read env mysql = Some (Some (length (encode_row vs)), m)" "packet_read mysql (encode_row vs) m" "client_stream env m rest"
    using cli_safe_read_packet [OF assms(1)] by blast
  let ?w = "where_b (mysql_net mysql)"
  obtain r where r: "read_bytes m = Some (encode_row vs @ 0 # r)" using m(2) by (auto simp: packet_read_def)
  then obtain b where b: "buff (mysql_net m) = Some b" "drop ?w b = encode_row vs @ 0 # r"
    using m(2) by (auto simp: read_bytes_def packet_read_def)
  have upd: "m = mysql\<lparr>mysql_net := mysql_net m\<rparr>" and pos: "net_read_pos (mysql_net m) = ?w" using m(2) by (simp_all add: packet_read_def)
  obtain b' where pf: "point_fields (length vs) b ?w (?w + length (encode_row vs)) None [] [] =
       Some (True, b', [] @ place_pointers ?w vs @ [Some (?w + length (encode_row vs) + 1)], [] @ map value_length vs)"
     "length b' = length b" "map2 (column_value b') (place_pointers ?w vs) (map value_length vs) = vs"
    using point_fields_encode [OF b(2), of None "?w + length (encode_row vs)" "[]" "[]"] vs assms(2) by (auto simp: size_fits_def)
  have g: "get_byte (Some (encode_row vs @ 0 # r)) 0 = Some (hd (encode_row vs))"
    using first by (cases "encode_row vs") (auto simp: get_byte_def)
  let ?m = "m\<lparr>mysql_net := (mysql_net m)\<lparr>buff := Some b'\<rparr>\<rparr>" and ?row = "place_pointers ?w vs @ [Some (?w + length (encode_row vs) + 1)]"
  have "read_one_row env mysql n row lens = Some (0, ?m, ?row, map value_length vs)"
    unfolding read_one_row_def using m(1) r g first b(1) pf(1) assms(3,5,6) by (auto simp: pos overwrite_def Let_def)
  moreover have "client_stream env ?m rest"
    using m(3) b(1) pf(2) by (auto simp: client_stream_def read_ready_def read_wf_def read_buffer_ok_def net_in_def)
  moreover have "?m = mysql\<lparr>mysql_net := mysql_net ?m\<rparr>" using arg_cong [OF upd, of "\<lambda>m. m\<lparr>mysql_net := mysql_net ?m\<rparr>"] by simp
  ultimately show ?thesis
    using pf(3) assms(3) m(2) by (intro exI [of _ ?m] exI [of _ ?row] exI [of _ b']) (simp add: packet_read_def zip_append1)
qed

lemma read_one_row_eof:
  assumes "client_stream env mysql (frames (pkt_nr (mysql_net mysql)) (eof_packet w s) @ rest)" "size_fits mysql (eof_packet w s)"
  shows "\<exists>net'. read_one_row env mysql n row lens =
      Some (1, mysql\<lparr>mysql_net := net', warning_count := ucast w, server_status := ucast s\<rparr>, row, lens) \<and>
    client_stream env (mysql\<lparr>mysql_net := net'\<rparr>) rest"
proof -
  have "packet_fits mysql (eof_packet w s)" using assms(2) by (simp add: packet_fits_def eof_packet_def)
  then obtain m where m: "cli_safe_read env mysql = Some (Some (length (eof_packet w s)), m)" "packet_read mysql (eof_packet w s) m" "client_stream env m rest"
    using cli_safe_read_packet [OF assms(1)] by blast
  obtain r where r: "read_bytes m = Some (eof_packet w s @ 0 # r)" using m(2) by (auto simp: packet_read_def)
  have upd: "m = mysql\<lparr>mysql_net := mysql_net m\<rparr>" using m(2) by (simp add: packet_read_def)
  have g: "get_byte (Some (eof_packet w s @ 0 # r)) 0 = Some 254" "length (eof_packet w s) \<le> 8" by (simp_all add: eof_packet_def get_byte_def)
  have "read_one_row env mysql n row lens = Some (1, m\<lparr>warning_count := ucast w, server_status := ucast s\<rparr>, row, lens)"
    unfolding read_one_row_def using m(1) r g by (simp add: read_eof)
  moreover have "m\<lparr>warning_count := ucast w, server_status := ucast s\<rparr> =
      mysql\<lparr>mysql_net := mysql_net m, warning_count := ucast w, server_status := ucast s\<rparr>"
    using arg_cong [OF upd, of "\<lambda>m. m\<lparr>warning_count := ucast w, server_status := ucast s\<rparr>"] by simp
  ultimately show ?thesis using m(3) by (auto simp: client_stream_def intro!: exI [of _ "mysql_net m"])
qed

definition unbuffered :: "nat \<Rightarrow> mysql_res \<Rightarrow> bool" where
  "unbuffered n res \<longleftrightarrow> res_data res = None \<and> \<not> res_eof res \<and> res_field_count res = n \<and> length (res_row res) = n + 1 \<and> length (res_lengths res) = n"

lemma fetch_all_unbuffered:
  "client_stream env mysql (packets (pkt_nr (mysql_net mysql)) (map encode_row rs @ [eof_packet w s]) @ rest) \<Longrightarrow>
   mysql_status mysql = MYSQL_STATUS_USE_RESULT \<Longrightarrow> rows_fit mysql n rs \<Longrightarrow> size_fits mysql (eof_packet w s) \<Longrightarrow> unbuffered n res \<Longrightarrow>
   \<exists>mysql' res'. fetch_all (Suc (length rs)) env mysql res = Some (rs, mysql', res') \<and> res_row_count res' = res_row_count res + length rs \<and>
     mysql_status mysql' = MYSQL_STATUS_READY \<and> warning_count mysql' = ucast w \<and> server_status mysql' = ucast s \<and>
     client_stream env mysql' rest \<and> \<not> res_handle res' \<and>
     unbuffered_fetch_owner mysql' = (if unbuffered_fetch_owner mysql = Some (res_address res) then None else unbuffered_fetch_owner mysql)"
proof (induction rs arbitrary: mysql res)
  case Nil
  obtain net' where e: "read_one_row env mysql n (res_row res) (res_lengths res) =
      Some (1, mysql\<lparr>mysql_net := net', warning_count := ucast w, server_status := ucast s\<rparr>, res_row res, res_lengths res)"
    "client_stream env (mysql\<lparr>mysql_net := net'\<rparr>) rest"
    using read_one_row_eof [of env mysql w s rest n "res_row res" "res_lengths res"] Nil by auto
  then show ?case
    using Nil by (auto simp: mysql_fetch_row_def unbuffered_def fetch_ended_def client_stream_def fetch_all.simps)
next
  case (Cons vs rs)
  have f: "length vs = n" "0 < n" "size_fits mysql (encode_row vs)" using Cons.prems(3) by (simp_all add: rows_fit_def)
  have u: "length (res_row res) = n + 1" "length (res_lengths res) = n" using Cons.prems(5) by (simp_all add: unbuffered_def)
  have "client_stream env mysql (frames (pkt_nr (mysql_net mysql)) (encode_row vs) @
      packets (pkt_nr (mysql_net mysql) + of_nat (frame_count (encode_row vs))) (map encode_row rs @ [eof_packet w s]) @ rest)"
    using Cons.prems(1) by simp
  from read_one_row_stream [OF this f(3,1,2) u] obtain m row b where
    m: "read_one_row env mysql n (res_row res) (res_lengths res) = Some (0, m, row, map value_length vs)" "length row = n + 1"
      "m = mysql\<lparr>mysql_net := mysql_net m\<rparr>" "buff (mysql_net m) = Some b" "map2 (column_value b) row (map value_length vs) = vs"
      "client_stream env m (packets (pkt_nr (mysql_net m)) (map encode_row rs @ [eof_packet w s]) @ rest)"
      "where_b (mysql_net m) = where_b (mysql_net mysql)" "max_packet_size (mysql_net m) = max_packet_size (mysql_net mysql)"
    by auto
  have same: "mysql_status m = mysql_status mysql" "unbuffered_fetch_owner m = unbuffered_fetch_owner mysql" by (subst m(3), simp)+
  have fit: "size_fits m p = size_fits mysql p" for p using m(7,8) by (simp add: size_fits_def)
  let ?res = "res\<lparr>res_row := row, res_lengths := map value_length vs, res_row_count := res_row_count res + 1, res_current_row := Unbuffered_row\<rparr>"
  have "mysql_fetch_row env mysql res = Some (Unbuffered_row, m, ?res)"
    using Cons.prems(2,5) m(1) by (simp add: mysql_fetch_row_def unbuffered_def)
  moreover have "mysql_fetch_lengths ?res = (Some (map value_length vs), ?res)" by (simp add: mysql_fetch_lengths_def)
  moreover have "unbuffered n ?res" using Cons.prems(5) m(2) f(1) by (simp add: unbuffered_def)
  note Cons.IH [OF m(6) _ _ _ this]
  ultimately show ?case
    using Cons.prems(2-4) same fit m(4,5)
    by (fastforce simp: rows_fit_def row_columns_def fetch_all.simps(2) [of "Suc (length rs)"])
qed

text \<open>
  C6: A result set read row by row with \<open>cli_use_result\<close> and \<open>mysql_fetch_row\<close> is the one the server sent: the
  rows and lengths fetched from the packet buffer, whose fields are terminated in place, are exactly the
  values of every row, and after the last one the handle is ready, forgets the result and has the server's
  status, with nothing left of the result in the stream.
\<close>

theorem use_result_rows:
  assumes "client_stream env mysql (packets (pkt_nr (mysql_net mysql)) (map encode_row rs @ [eof_packet w s]) @ rest)" "alloc_ok env"
    and "mysql_status mysql = MYSQL_STATUS_GET_RESULT" "mysql_fields mysql \<noteq> None"
    and "rows_fit mysql (field_count mysql) rs" "size_fits mysql (eof_packet w s)"
  shows "\<exists>res mysql1 mysql' res'. cli_use_result env address mysql = (Some res, mysql1) \<and>
     fetch_all (Suc (length rs)) env mysql1 res = Some (rs, mysql', res') \<and> res_row_count res' = length rs \<and>
     mysql_status mysql' = MYSQL_STATUS_READY \<and> unbuffered_fetch_owner mysql' = None \<and> warning_count mysql' = ucast w \<and>
     server_status mysql' = ucast s \<and> client_stream env mysql' rest"
proof -
  obtain res mysql1 where u: "cli_use_result env address mysql = (Some res, mysql1)" "mysql_net mysql1 = mysql_net mysql"
    "mysql_status mysql1 = MYSQL_STATUS_USE_RESULT" "unbuffered (field_count mysql) res" "res_row_count res = 0"
    "unbuffered_fetch_owner mysql1 = Some (res_address res)"
  proof -
    obtain r m where r: "cli_use_result env address mysql = (r, m)" by fastforce
    then obtain res where "r = Some res" using assms(2-4) by (auto simp: cli_use_result_def alloc_ok_def)
    then show thesis using that [of res m] r assms(2-4) by (auto simp: cli_use_result_def alloc_ok_def unbuffered_def)
  qed
  have "client_stream env mysql1 (packets (pkt_nr (mysql_net mysql1)) (map encode_row rs @ [eof_packet w s]) @ rest)"
    "rows_fit mysql1 (field_count mysql) rs" "size_fits mysql1 (eof_packet w s)"
    using assms u(2) by (simp_all add: client_stream_def rows_fit_def size_fits_def)
  from fetch_all_unbuffered [OF this(1) u(3) this(2,3) u(4)] show ?thesis using u by auto
qed

subsection \<open>A concrete handle\<close>

definition sample_client_env :: "sock vio client_env" where
  "sample_client_env = \<lparr>client_net = sample_env, alloc_root = (\<lambda>n. Some (replicate n 0)), client_reconnect = (\<lambda>mysql. Some (True, mysql)),
     local_infile = (\<lambda>_ _. Infile_refused 0 [])\<rparr>"

definition sample_mysql :: "mysql_status \<Rightarrow> MYSQL_FIELD list option \<Rightarrow> sock \<Rightarrow> sock vio mysql" where
  "sample_mysql status flds s = \<lparr>mysql_net = sample_net 200 s, last_error = [], sqlstate = not_error_sqlstate, mysql_status = status,
     server_status = 2, server_capabilities = CLIENT_PROTOCOL_41, options_client_flag = 0, warning_count = 0, affected_rows = 0,
     insert_id = 0, mysql_info = None, mysql_db = None, mysql_fields = flds,
     field_count = (case flds of None \<Rightarrow> 0 | Some fs \<Rightarrow> length fs), packet_length = None, mysql_reconnect_flag = False,
     unbuffered_fetch_owner = Some 1, fetch_cancelled = []\<rparr>"

lemma sample_mysql_simps [simp]:
  "mysql_status (sample_mysql st flds s) = st" "mysql_fields (sample_mysql st flds s) = flds"
  "field_count (sample_mysql st flds s) = (case flds of None \<Rightarrow> 0 | Some fs \<Rightarrow> length fs)"
  "unbuffered_fetch_owner (sample_mysql st flds s) = Some 1" "mysql_net (sample_mysql st flds s) = sample_net 200 s"
  "protocol_41 (sample_mysql st flds s)" "pkt_nr (sample_net n s) = 0"
  by (simp_all add: sample_mysql_def protocol_41_def CLIENT_PROTOCOL_41_def sample_net_def)

lemma sample_client_stream: "client_stream sample_client_env (sample_mysql st flds (sample_sock input [Chunk 3])) input"
  using sample_read_ready [of "[Chunk 3]" 200 input] sample_env_ops
  by (simp add: client_stream_def sample_client_env_def)

lemma sample_alloc_ok: "alloc_ok sample_client_env"
  by (simp add: alloc_ok_def sample_client_env_def sample_env_def)

lemma sample_size_fits: "size_fits (sample_mysql st flds s) p \<longleftrightarrow> length p < 200"
  by (auto simp: size_fits_def sample_net_def)

lemma length_eof_packet [simp]: "length (eof_packet w s) = 5"
  by (simp add: eof_packet_def)

theorem use_result_rows_witness:
  "\<exists>res mysql1 mysql' res'. cli_use_result sample_client_env 1 (sample_mysql MYSQL_STATUS_GET_RESULT (Some [zero_field, zero_field])
       (sample_sock (packets 0 [encode_row [Some [65], None], eof_packet 0 2]) [Chunk 3])) = (Some res, mysql1) \<and>
     fetch_all 2 sample_client_env mysql1 res = Some ([[Some [65], None]], mysql', res') \<and> mysql_status mysql' = MYSQL_STATUS_READY"
proof -
  let ?in = "packets 0 [encode_row [Some [65], None], eof_packet 0 2]"
  let ?m = "sample_mysql MYSQL_STATUS_GET_RESULT (Some [zero_field, zero_field]) (sample_sock ?in [Chunk 3])"
  have "rows_fit ?m (field_count ?m) [[Some [65], None]]"
    by (simp add: rows_fit_def sample_size_fits encode_value_def length_net_store_length)
  moreover have "client_stream sample_client_env ?m (packets (pkt_nr (mysql_net ?m)) (map encode_row [[Some [65], None]] @ [eof_packet 0 2]) @ [])"
    using sample_client_stream by simp
  ultimately show ?thesis
    using use_result_rows [OF _ sample_alloc_ok, of ?m "[[Some [65], None]]" 0 2 "[]" 1]
    by (fastforce simp: sample_size_fits numeral_2_eq_2 simp del: packets.simps)
qed

end
