(* ===== verification/Client_Reply.thy ===== *)
theory Client_Reply
  imports Client_Result
begin

text \<open>
  Whole replies of the server: results freed early, error packets, column definitions and the reply to a query
  from the column count to the last row.
\<close>

subsection \<open>A result that is freed early\<close>

lemma flush_loop_stream:
  "client_stream env mysql (packets (pkt_nr (mysql_net mysql)) (ps @ [eof_packet w s]) @ rest) \<Longrightarrow>
   \<forall>p \<in> set ps. packet_fits mysql p \<and> (hd p = 254 \<longrightarrow> 8 < length p) \<Longrightarrow> size_fits mysql (eof_packet w s) \<Longrightarrow>
   \<exists>net' r. flush_loop env mysql = Some (False, mysql\<lparr>mysql_net := net'\<rparr>) \<and>
     read_bytes (mysql\<lparr>mysql_net := net'\<rparr>) = Some (eof_packet w s @ 0 # r) \<and> client_stream env (mysql\<lparr>mysql_net := net'\<rparr>) rest"
proof (induction ps arbitrary: mysql)
  case Nil
  have "packet_fits mysql (eof_packet w s)" using Nil(3) by (simp add: packet_fits_def eof_packet_def)
  then obtain m where m: "cli_safe_read env mysql = Some (Some (length (eof_packet w s)), m)" "packet_read mysql (eof_packet w s) m" "client_stream env m rest"
    using cli_safe_read_packet [of env mysql "eof_packet w s" rest] Nil(1) by auto
  obtain r where r: "read_bytes m = Some (eof_packet w s @ 0 # r)" using m(2) by (auto simp: packet_read_def)
  have upd: "mysql\<lparr>mysql_net := mysql_net m\<rparr> = m" using m(2) by (simp add: packet_read_def)
  have g: "get_byte (Some (eof_packet w s @ 0 # r)) 0 = Some 254" "length (eof_packet w s) \<le> 8" by (simp_all add: eof_packet_def get_byte_def)
  have "flush_loop env mysql = Some (False, m)" using m(1) r g by (subst flush_loop.simps) simp
  then show ?case using upd m(3) r by (intro exI [of _ "mysql_net m"]) simp
next
  case (Cons p ps)
  have p: "packet_fits mysql p" "hd p = 254 \<longrightarrow> 8 < length p" using Cons.prems(2) by simp_all
  obtain m where m: "cli_safe_read env mysql = Some (Some (length p), m)" "packet_read mysql p m"
    "client_stream env m (packets (pkt_nr (mysql_net mysql) + of_nat (frame_count p)) (ps @ [eof_packet w s]) @ rest)"
    using cli_safe_read_packet [of env mysql p] Cons.prems(1) p(1) by auto
  obtain r where r: "read_bytes m = Some (p @ 0 # r)" using m(2) by (auto simp: packet_read_def)
  have g: "get_byte (Some (p @ 0 # r)) 0 = Some (hd p)" using p(1) by (cases p) (simp_all add: packet_fits_def get_byte_def)
  have nr: "pkt_nr (mysql_net m) = pkt_nr (mysql_net mysql) + of_nat (frame_count p)" and upd: "m = mysql\<lparr>mysql_net := mysql_net m\<rparr>"
    and same: "where_b (mysql_net m) = where_b (mysql_net mysql)" "max_packet_size (mysql_net m) = max_packet_size (mysql_net mysql)"
    using m(2) by (simp_all add: packet_read_def)
  have "flush_loop env mysql = flush_loop env m" using m(1) r g p(2) by (subst flush_loop.simps) auto
  moreover have "m\<lparr>mysql_net := net'\<rparr> = mysql\<lparr>mysql_net := net'\<rparr>" for net'
    using arg_cong [OF upd, of "\<lambda>m. m\<lparr>mysql_net := net'\<rparr>"] by simp
  ultimately show ?case
    using Cons.IH [of m] m(3) nr Cons.prems(2,3) same by (simp add: packet_fits_def size_fits_def)
qed

text \<open>
  C10: A result that is freed before its last row has been fetched does not leave the connection out of step:
  \<open>mysql_free_result\<close> reads and drops the remaining rows up to and with the EOF packet, whatever their number,
  and leaves the handle ready for the next command, with what follows in the stream untouched.
\<close>

theorem free_result_resync:
  assumes "client_stream env mysql (packets (pkt_nr (mysql_net mysql)) (map encode_row rs @ [eof_packet w s]) @ rest)"
    and "mysql_status mysql = MYSQL_STATUS_USE_RESULT" "res_handle res" "unbuffered_fetch_owner mysql = Some (res_address res)"
    and "rows_fit mysql n rs" "size_fits mysql (eof_packet w s)" "protocol_41 mysql"
  shows "\<exists>mysql'. mysql_free_result env mysql res = Some mysql' \<and> client_stream env mysql' rest \<and>
     mysql_status mysql' = MYSQL_STATUS_READY \<and> unbuffered_fetch_owner mysql' = None \<and>
     warning_count mysql' = ucast w \<and> server_status mysql' = ucast s"
proof -
  let ?m = "mysql\<lparr>unbuffered_fetch_owner := None\<rparr>"
  have "packet_fits ?m p \<and> (hd p = 254 \<longrightarrow> 8 < length p)" if q: "p \<in> set (map encode_row rs)" for p
  proof -
    obtain vs where vs: "p = encode_row vs" "vs \<in> set rs" using q by auto
    then have "vs \<noteq> []" using assms(5) by (auto simp: rows_fit_def)
    then have "hd p = 254 \<longrightarrow> 8 < length p" using encode_row_first [of vs] vs(1) by simp
    moreover have "packet_fits mysql p" using rows_packets_fit [OF assms(5,6), of p] q by simp
    ultimately show ?thesis by (simp add: packet_fits_def size_fits_def)
  qed
  then obtain net' r where f: "flush_loop env ?m = Some (False, ?m\<lparr>mysql_net := net'\<rparr>)"
    "read_bytes (?m\<lparr>mysql_net := net'\<rparr>) = Some (eof_packet w s @ 0 # r)" "client_stream env (?m\<lparr>mysql_net := net'\<rparr>) rest"
    using flush_loop_stream [of env ?m "map encode_row rs" w s rest] assms(1,6) by (auto simp: client_stream_def size_fits_def)
  have "flush_one_result env ?m = Some (False, ?m\<lparr>mysql_net := net', warning_count := ucast w, server_status := ucast s\<rparr>)"
    using f(1,2) assms(7) by (simp add: flush_one_result_def protocol_41_def eof_packet_def)
  then have "mysql_free_result env mysql res =
      Some (?m\<lparr>mysql_net := net', warning_count := ucast w, server_status := ucast s, mysql_status := MYSQL_STATUS_READY\<rparr>)"
    using assms(2-4) by (simp add: mysql_free_result_def cli_flush_use_result_def)
  then show ?thesis using f(3) by (auto simp: client_stream_def)
qed

theorem free_result_resync_witness:
  "\<exists>mysql'. mysql_free_result sample_client_env (sample_mysql MYSQL_STATUS_USE_RESULT None
       (sample_sock (packets 0 [encode_row [Some [65], None], eof_packet 0 2] @ [7, 8]) [Chunk 3]))
       \<lparr>res_row_count = 0, res_fields = None, res_data = None, res_cursor = [], res_lengths = [0, 0], res_handle = True,
        res_row = [None, None, None], res_current_row = No_row, res_field_count = 2, res_current_field = 0, res_eof = False, res_address = 1\<rparr> =
     Some mysql' \<and> mysql_status mysql' = MYSQL_STATUS_READY \<and> client_stream sample_client_env mysql' [7, 8]"
proof -
  let ?in = "packets 0 [encode_row [Some [65], None], eof_packet 0 2] @ [7, 8]"
  let ?m = "sample_mysql MYSQL_STATUS_USE_RESULT None (sample_sock ?in [Chunk 3])"
  let ?res = "\<lparr>res_row_count = 0, res_fields = None, res_data = None, res_cursor = [], res_lengths = [0, 0], res_handle = True,
        res_row = [None, None, None], res_current_row = No_row, res_field_count = 2, res_current_field = 0, res_eof = False, res_address = 1\<rparr>"
  have "rows_fit ?m 2 [[Some [65], None]]" by (simp add: rows_fit_def sample_size_fits encode_value_def length_net_store_length)
  moreover have "client_stream sample_client_env ?m (packets (pkt_nr (mysql_net ?m)) (map encode_row [[Some [65], None]] @ [eof_packet 0 2]) @ [7, 8])"
    using sample_client_stream by simp
  ultimately show ?thesis
    using free_result_resync [of sample_client_env ?m "[[Some [65], None]]" 0 2 "[7, 8]" ?res 2]
    by (fastforce simp: sample_size_fits simp del: packets.simps)
qed

subsection \<open>Column definitions\<close>

record column_def =
  col_catalog :: bytes
  col_db :: bytes
  col_table :: bytes
  col_org_table :: bytes
  col_name :: bytes
  col_org_name :: bytes
  col_charset :: uint16
  col_length :: ulong
  col_type :: uchar
  col_flags :: uint16
  col_decimals :: uchar

definition column_values :: "column_def \<Rightarrow> bytes option list" where
  "column_values d = map Some [col_catalog d, col_db d, col_table d, col_org_table d, col_name d, col_org_name d,
     int2store (ucast (col_charset d)) @ int4store (col_length d) @ [col_type d] @ int2store (ucast (col_flags d)) @ [col_decimals d, 0, 0]]"

text \<open>The field a definition stands for.\<close>

definition field_of :: "column_def \<Rightarrow> MYSQL_FIELD" where
  "field_of d = number_flag (zero_field\<lparr>catalog := Some (col_catalog d), field_db := Some (col_db d), field_table := Some (col_table d),
     org_table := Some (col_org_table d), field_name := Some (col_name d), org_name := Some (col_org_name d),
     catalog_length := length (col_catalog d), db_length := length (col_db d), table_length := length (col_table d),
     org_table_length := length (col_org_table d), name_length := length (col_name d), org_name_length := length (col_org_name d),
     charsetnr := unat (col_charset d), field_length := unat (col_length d), field_type := col_type d,
     field_flags := ucast (col_flags d), decimals := col_decimals d\<rparr>)"

lemma value_pointers_nth:
  "i < length vs \<Longrightarrow> vs ! i = Some s \<Longrightarrow> value_pointers to vs ! i = Some (to + length (packed (take i vs)))"
proof (induction vs arbitrary: to i)
  case (Cons v vs)
  then show ?case by (cases i; cases v) (auto simp: ac_simps)
qed simp

lemma packed_append [simp]: "packed (us @ vs) = packed us @ packed vs"
  by (simp add: packed_def)

lemma column_rest_row_of:
  assumes "alloc_ok env" "length vs = n" "i < n" "vs ! i = Some s"
  shows "\<exists>r. column_rest (row_of env n vs) i = Some (s @ 0 # r)"
proof -
  let ?q = "packed (take i vs)" and ?b = "drop ((n + 1) * sizeof_pointer) (the (alloc_root env ((n + 1) * sizeof_pointer + length (encode_row vs))))"
  have i: "i < length vs" using assms(2,3) by simp
  have p: "packed vs = ?q @ s @ 0 # packed (drop (Suc i) vs)"
    using arg_cong [OF id_take_nth_drop [OF i, unfolded assms(4)], of packed] by simp
  have "row_data (row_of env n vs) ! i = Some (length ?q)" "i < length (row_data (row_of env n vs))"
    using assms by (simp_all add: row_of_def stored_def nth_append value_pointers_nth)
  moreover have "row_block (row_of env n vs) = packed vs @ drop (length (packed vs)) ?b" by (simp add: row_of_def stored_def)
  then have "\<exists>r. drop (length ?q) (row_block (row_of env n vs)) = s @ 0 # r" by (simp add: p)
  ultimately show ?thesis by (auto simp: column_rest_def)
qed

lemma column_bytes_rest: "column_rest row i = Some (s @ 0 # r) \<Longrightarrow> column_bytes row i (length s) = Some s"
proof -
  assume rest: "column_rest row i = Some (s @ 0 # r)"
  then obtain p where p: "i < length (row_data row)" "row_data row ! i = Some p" "drop p (row_block row) = s @ 0 # r"
    by (auto simp: column_rest_def split: if_splits)
  have "p + length s \<le> length (row_block row)" using arg_cong [OF p(3), of length] by simp
  then show ?thesis using p by (simp add: column_bytes_def get_bytes_def)
qed

lemma uint4korr_store [simp]: "uint4korr (int4store w @ r) = Some w"
  using unsigned_less [of w, where 'a = nat] by (simp add: c4.dec_enc)

lemma int4store_length [simp]: "length (int4store w) = 4"
  by (simp add: c4.length_enc)

lemma unpack_column:
  assumes "alloc_ok env" "length (encode_row (column_values d)) < 2 ^ 32 - 1"
  shows "unpack_field_41 env False (row_of env 7 (column_values d)) = Some (field_of d)"
proof -
  let ?vs = "column_values d" and ?row = "row_of env 7 (column_values d)"
  have n: "length ?vs = 7" by (simp add: column_values_def)
  have "length (packed ?vs) < 2 ^ 32" using length_packed_le [of ?vs] assms(2) by simp
  then have "fetch_lengths_loop (value_pointers 0 ?vs @ [Some (0 + length (packed ?vs))]) 0 None (replicate 9 0) =
      map value_length ?vs @ drop 7 (replicate 9 0)"
    using fetch_lengths_pointers [of 0 ?vs "replicate 9 0" 0 None] n by (simp del: packed_append)
  moreover have "row_data ?row = value_pointers 0 ?vs @ [Some (0 + length (packed ?vs))]" by (simp add: row_of_def stored_def)
  ultimately have lens: "cli_fetch_lengths (replicate 9 0) (row_data ?row) 7 = map value_length ?vs @ [0, 0]"
    using n by (simp add: cli_fetch_lengths_def numeral_2_eq_2)
  have col: "\<exists>r. column_rest ?row i = Some (s @ 0 # r) \<and> column_bytes ?row i (length s) = Some s" if "i < 7" "?vs ! i = Some s" for i s
    using column_rest_row_of [OF assms(1) n that] column_bytes_rest by blast
  obtain r6 where r6: "column_rest ?row 6 = Some (int2store (ucast (col_charset d)) @ int4store (col_length d) @ [col_type d] @
      int2store (ucast (col_flags d)) @ [col_decimals d, 0, 0] @ 0 # r6)"
    using col [of 6] by (auto simp: column_values_def)
  let ?fixed = "int2store (ucast (col_charset d)) @ int4store (col_length d) @ [col_type d] @
      int2store (ucast (col_flags d)) @ [col_decimals d, 0, 0] @ 0 # r6"
  have parts: "uint4korr (drop 2 ?fixed) = Some (col_length d)" "get_byte (Some ?fixed) 6 = Some (col_type d)"
    "uint2korr (drop 7 ?fixed) = Some (col_flags d)" "get_byte (Some ?fixed) 9 = Some (col_decimals d)"
    by (simp_all add: get_byte_def nth_append)
  have strmake: "strmake_root env s = Some s" for s using assms(1) by (auto simp: strmake_root_def alloc_ok_def dest: spec [of _ "length s + 1"])
  note c = col [of 0 "col_catalog d"] col [of 1 "col_db d"] col [of 2 "col_table d"] col [of 3 "col_org_table d"] col [of 4 "col_name d"]
    col [of 5 "col_org_name d"]
  show ?thesis
    unfolding unpack_field_41_def using lens c r6 parts
    by (simp add: column_values_def value_length_def strmake field_of_def)
qed

lemma unpack_loop_fields:
  "(\<And>x. x \<in> set xs \<Longrightarrow> unpack (row x) = Some (fld x)) \<Longrightarrow> i + length xs = length result \<Longrightarrow>
   unpack_loop unpack result i (map row xs) = Some (take i result @ map fld xs)"
proof (induction xs arbitrary: i result)
  case (Cons x xs)
  then have "unpack_loop unpack (result[i := fld x]) (i + 1) (map row xs) = Some (take (i + 1) (result[i := fld x]) @ map fld xs)"
    by (intro Cons.IH) auto
  then show ?case using Cons.prems by (simp add: take_Suc_conv_app_nth)
qed simp

lemma unpack_columns:
  assumes "alloc_ok env" "\<forall>d \<in> set ds. length (encode_row (column_values d)) < 2 ^ 32 - 1" "length ds * sizeof_MYSQL_FIELD < 2 ^ 32"
    and "capabilities AND CLIENT_PROTOCOL_41 \<noteq> 0"
  shows "unpack_fields env (map (\<lambda>d. row_of env 7 (column_values d)) ds) (length ds) False capabilities = Some (Some (map field_of ds))"
proof -
  have "(sizeof_MYSQL_FIELD * length ds) mod 2 ^ 32 = length ds * sizeof_MYSQL_FIELD" using assms(3) by (simp add: mult.commute)
  moreover have "\<exists>b. alloc_root env (length ds * sizeof_MYSQL_FIELD) = Some b" using assms(1) by (auto simp: alloc_ok_def)
  moreover have "length ds * sizeof_MYSQL_FIELD div sizeof_MYSQL_FIELD = length ds" by (simp add: sizeof_MYSQL_FIELD_def)
  moreover have "unpack_loop (unpack_field_41 env False) (replicate (length ds) zero_field) 0 (map (\<lambda>d. row_of env 7 (column_values d)) ds) =
      Some (take 0 (replicate (length ds) zero_field) @ map field_of ds)"
    using assms(1,2) by (intro unpack_loop_fields unpack_column) auto
  ultimately show ?thesis using assms(4) by (auto simp: unpack_fields_def Let_def)
qed

subsection \<open>The reply to a query\<close>

definition count_packet :: "nat \<Rightarrow> bytes" where
  "count_packet n = net_store_length (of_nat n)"

definition column_packet :: "column_def \<Rightarrow> bytes" where
  "column_packet d = encode_row (column_values d)"

definition columns_fit :: "'v mysql \<Rightarrow> column_def list \<Rightarrow> bool" where
  "columns_fit mysql ds \<longleftrightarrow> ds \<noteq> [] \<and> length ds * sizeof_MYSQL_FIELD < 2 ^ 32 \<and> size_fits mysql (count_packet (length ds)) \<and>
     (\<forall>d \<in> set ds. size_fits mysql (column_packet d))"

lemma count_packet_read:
  assumes "0 < n" "n < 2 ^ 32 - 1"
  shows "\<exists>k. net_field_length (count_packet n @ r) = Some (of_nat n, k)" "count_packet n \<noteq> []" "hd (count_packet n) \<noteq> 255"
    "(of_nat n :: ulong) \<noteq> 0" "(of_nat n :: ulong) \<noteq> NULL_LENGTH" "unat (of_nat n :: ulong) = n"
proof -
  let ?n = "of_nat n :: ulonglong"
  obtain s :: bytes where s: "length s = n" using Ex_list_of_length by blast
  have "net_field_length (net_store_length (of_nat (length s)) @ r) = Some (of_nat (length s), length (net_store_length (of_nat (length s))))"
    using ulong_of_nat(1) [of "length s"] assms s
    by (simp add: net_field_length_store) (rule word_unat_eq_iff [THEN iffD2], simp add: unat_of_nat unat_ucast_mod)
  then show "\<exists>k. net_field_length (count_packet n @ r) = Some (of_nat n, k)" using s by (simp add: count_packet_def)
  show "count_packet n \<noteq> []" "hd (count_packet n) \<noteq> 255"
    unfolding count_packet_def by (cases ?n rule: net_store_length_cases; auto dest: small_uchar simp: store_simps)+
  show u: "unat (of_nat n :: ulong) = n" "(of_nat n :: ulong) \<noteq> NULL_LENGTH" using ulong_of_nat [OF assms(2)] by auto
  show "(of_nat n :: ulong) \<noteq> 0" using u(1) assms(1) by auto
qed

lemma query_result_columns:
  assumes "client_stream env mysql (packets (pkt_nr (mysql_net mysql)) (count_packet (length ds) # map column_packet ds @ [eof_packet w s]) @ rest)"
    and "alloc_ok env" "protocol_41 mysql" "columns_fit mysql ds" "size_fits mysql (eof_packet w s)"
  shows "\<exists>mysql'. cli_read_query_result env mysql = Some (False, mysql') \<and> mysql_fields mysql' = Some (map field_of ds) \<and>
     field_count mysql' = length ds \<and> mysql_status mysql' = MYSQL_STATUS_GET_RESULT \<and> server_status mysql' = ucast s \<and>
     client_stream env mysql' rest \<and> where_b (mysql_net mysql') = where_b (mysql_net mysql) \<and>
     max_packet_size (mysql_net mysql') = max_packet_size (mysql_net mysql) \<and>
     pkt_nr (mysql_net mysql') = packets_nr (pkt_nr (mysql_net mysql)) (count_packet (length ds) # map column_packet ds @ [eof_packet w s])"
proof -
  let ?n = "length ds" and ?vss = "map column_values ds"
  have n: "0 < ?n" "?n < 2 ^ 32 - 1" using assms(4) by (auto simp: columns_fit_def sizeof_MYSQL_FIELD_def)
  note cnt = count_packet_read [OF n]
  have "packet_fits mysql (count_packet ?n)" using cnt assms(4) by (simp add: packet_fits_def columns_fit_def)
  then obtain m where m: "cli_safe_read env mysql = Some (Some (length (count_packet ?n)), m)" "packet_read mysql (count_packet ?n) m"
    "client_stream env m (packets (pkt_nr (mysql_net mysql) + of_nat (frame_count (count_packet ?n))) (map column_packet ds @ [eof_packet w s]) @ rest)"
    using cli_safe_read_packet [of env mysql "count_packet ?n"] assms(1) by auto
  have upd: "m = mysql\<lparr>mysql_net := mysql_net m\<rparr>" and nr: "pkt_nr (mysql_net m) = pkt_nr (mysql_net mysql) + of_nat (frame_count (count_packet ?n))"
    and same: "where_b (mysql_net m) = where_b (mysql_net mysql)" "max_packet_size (mysql_net m) = max_packet_size (mysql_net mysql)"
    using m(2) by (simp_all add: packet_read_def)
  have caps: "server_capabilities m = server_capabilities mysql" by (subst upd) simp
  define m0 where "m0 = free_old_query m"
  define m1 where "m1 = (if server_status m0 AND SERVER_STATUS_AUTOCOMMIT = 0
      then m0\<lparr>server_status := server_status m0 OR SERVER_STATUS_IN_TRANS\<rparr> else m0)"
  have m1: "mysql_net m1 = mysql_net m" "server_capabilities m1 = server_capabilities mysql"
    by (simp_all add: m1_def m0_def free_old_query_def caps)
  have p: "protocol_41 m1" using assms(3) m1(2) by (simp add: protocol_41_def)
  have fits: "size_fits m1 q = size_fits mysql q" for q using same m1(1) by (simp add: size_fits_def)
  have pk: "map column_packet ds = map encode_row ?vss" by (simp add: column_packet_def)
  have rf: "rows_fit m1 7 ?vss" using assms(4) by (auto simp: rows_fit_def columns_fit_def fits column_packet_def column_values_def)
  have "client_stream env m1 (packets (pkt_nr (mysql_net m1)) (map encode_row ?vss @ [eof_packet w s]) @ rest)"
    using m(3) m1(1) nr by (simp add: client_stream_def pk)
  from cli_read_rows_stream [OF this assms(2) rf, of False] obtain net' where
    r: "cli_read_rows env False 7 m1 = Some (Some (map (row_of env 7) ?vss), m1\<lparr>mysql_net := net', warning_count := ucast w, server_status := ucast s\<rparr>)"
      "client_stream env (m1\<lparr>mysql_net := net'\<rparr>) rest" "where_b net' = where_b (mysql_net mysql)" "max_packet_size net' = max_packet_size (mysql_net mysql)"
      "pkt_nr net' = packets_nr (pkt_nr (mysql_net m)) (map column_packet ds @ [eof_packet w s])"
    using assms(5) fits same m1(1) by (auto simp: pk)
  have "\<forall>d \<in> set ds. length (encode_row (column_values d)) < 2 ^ 32 - 1" using assms(4) by (auto simp: columns_fit_def size_fits_def column_packet_def)
  from unpack_columns [OF assms(2) this, of "server_capabilities mysql"]
  have uf: "unpack_fields env (map (row_of env 7) ?vss) ?n False (server_capabilities mysql) = Some (Some (map field_of ds))"
    using assms(3,4) by (simp add: columns_fit_def protocol_41_def comp_def)
  let ?m' = "m1\<lparr>mysql_net := net', mysql_fields := Some (map field_of ds), mysql_status := MYSQL_STATUS_GET_RESULT, field_count := ?n,
      warning_count := ucast w, server_status := ucast s\<rparr>"
  obtain rr where rb: "read_bytes m0 = Some (count_packet ?n @ 0 # rr)"
    using m(2) by (auto simp: packet_read_def read_bytes_def free_old_query_def m0_def)
  obtain k where k: "net_field_length (count_packet ?n @ 0 # rr) = Some (of_nat ?n, k)" using cnt(1) by blast
  have "query_result_info env m0 (length (count_packet ?n)) = Some (False, ?m')"
    using rb k cnt(4-6) r(1) uf p m1(2)
    by (subst query_result_info.simps) (simp add: m1_def [symmetric])
  then have "cli_read_query_result env mysql = Some (False, ?m')" using m(1) by (simp add: cli_read_query_result_def m0_def)
  moreover have "client_stream env ?m' rest" using r(2) by (simp add: client_stream_def)
  ultimately show ?thesis using r(3-5) nr by (intro exI [of _ ?m']) simp
qed

lemma column_width_0: "max_length (field_of d) = 0" "unmeasured (field_of d) = field_of d"
  by (simp_all add: field_of_def number_flag_def zero_field_def unmeasured_def)

text \<open>
  C3: The reply to a query gives the application what the server sent. When the stream holds the column count,
  the column definitions, the rows and the two EOF packets, then \<open>cli_read_query_result\<close> succeeds,
  \<open>mysql_store_result\<close> stores the result, its fields have the names, types, lengths and flags of the definitions and
  the widths of the longest values, fetching rows and lengths gives exactly the values of every row, NULLs
  included, and the handle is ready with nothing left of the reply in the stream.
\<close>

theorem query_store_result:
  assumes "client_stream env mysql (packets (pkt_nr (mysql_net mysql))
      ((count_packet (length ds) # map column_packet ds @ [eof_packet w0 s0]) @ map encode_row rs @ [eof_packet w s]) @ rest)"
    and "alloc_ok env" "protocol_41 mysql" "columns_fit mysql ds" "rows_fit mysql (length ds) rs" "\<forall>w s. size_fits mysql (eof_packet w s)"
  shows "\<exists>mysql1 res mysql' res' fs. cli_read_query_result env mysql = Some (False, mysql1) \<and>
     mysql_store_result env address mysql1 = Some (Some res, mysql') \<and> res_field_count res = length ds \<and>
     res_fields res = Some fs \<and> map unmeasured fs = map field_of ds \<and> (\<forall>i < length ds. max_length (fs ! i) = column_width i rs 0) \<and>
     res_row_count res = length rs \<and> fetch_all (Suc (length rs)) env mysql' res = Some (rs, mysql', res') \<and>
     mysql_status mysql' = MYSQL_STATUS_READY \<and> server_status mysql' = ucast s \<and> warning_count mysql' = ucast w \<and>
     client_stream env mysql' rest"
proof -
  let ?hd = "count_packet (length ds) # map column_packet ds @ [eof_packet w0 s0]" and ?tl = "map encode_row rs @ [eof_packet w s]"
  let ?nr = "packets_nr (pkt_nr (mysql_net mysql)) ?hd"
  have "client_stream env mysql (packets (pkt_nr (mysql_net mysql)) ?hd @ packets ?nr ?tl @ rest)"
    using assms(1) by (simp only: packets_append append_assoc)
  from query_result_columns [OF this assms(2-4)] assms(6) obtain m1 where
    m1: "cli_read_query_result env mysql = Some (False, m1)" "mysql_fields m1 = Some (map field_of ds)" "field_count m1 = length ds"
      "mysql_status m1 = MYSQL_STATUS_GET_RESULT" "client_stream env m1 (packets ?nr ?tl @ rest)"
      "where_b (mysql_net m1) = where_b (mysql_net mysql)" "max_packet_size (mysql_net m1) = max_packet_size (mysql_net mysql)"
      "pkt_nr (mysql_net m1) = ?nr"
    by blast
  have fit: "size_fits m1 p = size_fits mysql p" for p using m1(6,7) by (simp add: size_fits_def)
  have "rows_fit m1 (field_count m1) rs" "size_fits m1 (eof_packet w s)" using assms(5,6) m1(3) by (simp_all add: rows_fit_def fit)
  from store_result_rows [OF m1(5) [folded m1(8)] assms(2) m1(4,2) _ this, of address] m1(3) obtain res m' res' fs where
    "mysql_store_result env address m1 = Some (Some res, m')" "fetch_all (Suc (length rs)) env m' res = Some (rs, m', res')"
    "res_row_count res = length rs" "res_field_count res = length ds" "res_fields res = Some fs"
    "map unmeasured fs = map unmeasured (map field_of ds)"
    "\<forall>i < length ds. max_length (fs ! i) = column_width i rs (max_length (map field_of ds ! i))"
    "mysql_status m' = MYSQL_STATUS_READY" "warning_count m' = ucast w" "server_status m' = ucast s" "client_stream env m' rest"
    by auto
  then show ?thesis using m1(1) by (auto simp: column_width_0 comp_def)
qed

definition sample_column :: column_def where
  "sample_column = \<lparr>col_catalog = [100], col_db = [116], col_table = [116], col_org_table = [], col_name = [97], col_org_name = [97],
     col_charset = 8, col_length = 20, col_type = 253, col_flags = 0, col_decimals = 0\<rparr>"

lemma length_sample_column: "length (column_packet sample_column) = 24" "length (count_packet 1) = 1"
  by (simp_all add: column_packet_def column_values_def sample_column_def encode_value_def length_net_store_length count_packet_def)

theorem query_store_result_witness:
  "\<exists>mysql1 res mysql' res'. cli_read_query_result sample_client_env (sample_mysql MYSQL_STATUS_READY None
       (sample_sock (packets 0 [count_packet 1, column_packet sample_column, eof_packet 0 2, encode_row [Some [65, 66]], eof_packet 0 2]) [Chunk 3])) =
       Some (False, mysql1) \<and> mysql_store_result sample_client_env 1 mysql1 = Some (Some res, mysql') \<and>
     fetch_all 2 sample_client_env mysql' res = Some ([[Some [65, 66]]], mysql', res')"
proof -
  let ?in = "packets 0 [count_packet 1, column_packet sample_column, eof_packet 0 2, encode_row [Some [65, 66]], eof_packet 0 2]"
  let ?m = "sample_mysql MYSQL_STATUS_READY None (sample_sock ?in [Chunk 3])"
  have "rows_fit ?m 1 [[Some [65, 66]]]" by (simp add: rows_fit_def sample_size_fits encode_value_def length_net_store_length)
  moreover have "columns_fit ?m [sample_column]" by (simp add: columns_fit_def sample_size_fits length_sample_column [simplified] sizeof_MYSQL_FIELD_def)
  moreover have "client_stream sample_client_env ?m (packets (pkt_nr (mysql_net ?m)) ((count_packet (length [sample_column]) #
      map column_packet [sample_column] @ [eof_packet 0 2]) @ map encode_row [[Some [65, 66]]] @ [eof_packet 0 2]) @ [])"
    using sample_client_stream by simp
  ultimately show ?thesis
    using query_store_result [OF _ sample_alloc_ok, of ?m "[sample_column]" 0 2 "[[Some [65, 66]]]" 0 2 "[]" 1]
    by (fastforce simp: sample_size_fits numeral_2_eq_2 simp del: packets.simps)
qed

subsection \<open>Errors reported by the server\<close>

definition error_packet :: "uint16 \<Rightarrow> bytes \<Rightarrow> bytes \<Rightarrow> bytes" where
  "error_packet code state message = 255 # int2store (ucast code) @ 35 # state @ message"

lemma strmake_exact:
  "0 \<notin> set s \<Longrightarrow> strmake (s @ 0 # r) n = Some (take n s)"
proof -
  assume s: "0 \<notin> set s"
  show ?thesis
  proof (cases "n \<le> length s")
    case True
    then have "takeWhile (\<lambda>c. c \<noteq> 0) (take n s) = take n s" using s by (auto simp: takeWhile_eq_all_conv dest: in_set_takeD)
    then show ?thesis using True by (simp add: strmake_def Let_def)
  next
    case False
    then obtain k where k: "n = length s + Suc k" using less_imp_Suc_add by (metis not_le add_Suc_right)
    have "takeWhile (\<lambda>c. c \<noteq> 0) (s @ 0 # take k r) = s" using s by (auto simp: takeWhile_append)
    then show ?thesis using k by (simp add: strmake_def Let_def)
  qed
qed

lemma strmake_prefix: "0 \<notin> set s \<Longrightarrow> strmake (s @ r) (length s) = Some s"
proof -
  assume "0 \<notin> set s"
  then have "takeWhile (\<lambda>c. c \<noteq> 0) s = s" by (auto simp: takeWhile_eq_all_conv)
  then show ?thesis by (simp add: strmake_def Let_def)
qed

text \<open>
  C11: An error packet of the server ends up in the handle: \<open>cli_safe_read\<close> reports failure, \<open>last_errno\<close> is the
  server's code, \<open>sqlstate\<close> its five characters and \<open>last_error\<close> its message, cut to the buffer's 511 characters;
  the flag for more results is cleared, and the connection stays usable with the stream after the packet.
\<close>

theorem error_packet_reported:
  assumes "client_stream env mysql (frames (pkt_nr (mysql_net mysql)) (error_packet code state message) @ rest)"
    and "length state = SQLSTATE_LENGTH" "0 \<notin> set state" "0 \<notin> set message" "protocol_41 mysql"
    and "size_fits mysql (error_packet code state message)"
  shows "\<exists>mysql'. cli_safe_read env mysql = Some (None, mysql') \<and> last_errno (mysql_net mysql') = unat code \<and>
     sqlstate mysql' = state \<and> last_error mysql' = take (MYSQL_ERRMSG_SIZE - 1) message \<and> \<not> mysql_more_results mysql' \<and>
     client_stream env mysql' rest"
proof -
  let ?p = "error_packet code state message"
  obtain net' where r: "net_vio (mysql_net mysql) \<noteq> None" "my_net_read (client_net env) (mysql_net mysql) = Some (Some (length ?p), net')"
    "packet_read mysql ?p (mysql\<lparr>mysql_net := net'\<rparr>)" "client_stream env (mysql\<lparr>mysql_net := net'\<rparr>) rest"
    using client_net_read [OF assms(1,6)] by blast
  obtain rr where rb: "read_bytes (mysql\<lparr>mysql_net := net'\<rparr>) = Some (?p @ 0 # rr)" using r(3) by (auto simp: packet_read_def)
  have len: "length ?p = 9 + length message" using assms(2) by (simp add: error_packet_def SQLSTATE_LENGTH_def)
  have parts: "get_byte (Some (?p @ 0 # rr)) 0 = Some 255" "uint2korr (drop 1 (?p @ 0 # rr)) = Some code" "get_byte (Some (?p @ 0 # rr)) 3 = Some 35"
    by (simp_all add: error_packet_def get_byte_def nth_append)
  have "drop 4 (?p @ 0 # rr) = state @ message @ 0 # rr" by (simp add: error_packet_def)
  then have st: "strmake (drop 4 (?p @ 0 # rr)) SQLSTATE_LENGTH = Some state" using strmake_prefix [OF assms(3)] assms(2) by simp
  have "drop 9 (?p @ 0 # rr) = message @ 0 # rr" using assms(2) by (simp add: error_packet_def SQLSTATE_LENGTH_def)
  then have msg: "strmake (drop 9 (?p @ 0 # rr)) (min (length ?p - 2) (MYSQL_ERRMSG_SIZE - 1)) = Some (take (MYSQL_ERRMSG_SIZE - 1) message)"
    using strmake_exact [OF assms(4)] len by (simp add: min_def)
  let ?m = "mysql\<lparr>mysql_net := net'\<lparr>last_errno := unat code\<rparr>, last_error := take (MYSQL_ERRMSG_SIZE - 1) message, sqlstate := state\<rparr>"
  have "read_error_packet (mysql\<lparr>mysql_net := net'\<rparr>) (?p @ 0 # rr) (length ?p) = Some ?m"
    using parts(2,3) st msg assms(5) len by (simp add: read_error_packet_def protocol_41_def SQLSTATE_LENGTH_def)
  then have "cli_safe_read env mysql = Some (None, ?m\<lparr>server_status := server_status ?m AND NOT SERVER_MORE_RESULTS_EXISTS\<rparr>)"
    using r(1,2) rb parts(1) len by (simp add: cli_safe_read_def)
  moreover have "client_stream env (?m\<lparr>server_status := x\<rparr>) rest" for x
    using r(4) by (auto simp: client_stream_def read_ready_def read_wf_def read_buffer_ok_def net_in_def)
  moreover have "(x AND NOT SERVER_MORE_RESULTS_EXISTS) AND SERVER_MORE_RESULTS_EXISTS = 0" for x
    by (simp add: and.assoc)
  ultimately show ?thesis
    by (intro exI [of _ "?m\<lparr>server_status := server_status ?m AND NOT SERVER_MORE_RESULTS_EXISTS\<rparr>"]) (simp add: mysql_more_results_def)
qed

theorem error_packet_reported_witness:
  "\<exists>mysql'. cli_safe_read sample_client_env (sample_mysql MYSQL_STATUS_READY None
       (sample_sock (frames 0 (error_packet 1064 [52, 50, 48, 48, 48] [98, 97, 100])) [Chunk 3])) = Some (None, mysql') \<and>
     last_errno (mysql_net mysql') = 1064 \<and> sqlstate mysql' = [52, 50, 48, 48, 48] \<and> last_error mysql' = [98, 97, 100]"
proof -
  let ?p = "error_packet 1064 [52, 50, 48, 48, 48] [98, 97, 100]"
  let ?m = "sample_mysql MYSQL_STATUS_READY None (sample_sock (frames 0 ?p) [Chunk 3])"
  have "size_fits ?m ?p" by (simp add: sample_size_fits error_packet_def)
  moreover have "client_stream sample_client_env ?m (frames (pkt_nr (mysql_net ?m)) ?p @ [])" using sample_client_stream by simp
  ultimately show ?thesis
    using error_packet_reported [of sample_client_env ?m 1064 "[52, 50, 48, 48, 48]" "[98, 97, 100]" "[]"]
    by (fastforce simp: SQLSTATE_LENGTH_def MYSQL_ERRMSG_SIZE_def)
qed

subsection \<open>Rows with missing columns\<close>








end
