(* ===== verification/Client_Safe.thy ===== *)
theory Client_Safe
  imports Client_Result
begin

text \<open>
  What the client does when the server or the connection misbehaves: reading a packet always returns, and the
  loop that skips the rest of a result ends whatever arrives, because every packet uses up incoming data.
\<close>

subsection \<open>Every packet uses up incoming data\<close>

lemma net_realloc_vio: "net_realloc env net n = (err, net') \<Longrightarrow> net_vio net' = net_vio net"
  by (auto simp: net_realloc_def Let_def split: if_splits option.splits)

lemma real_read_header_vio:
  assumes "real_read_header env net = Some (len, complen, net')"
  shows "net_vio net' = net_vio net"
proof -
  let ?net = "net\<lparr>pkt_nr := pkt_nr net + 1, compress_pkt_nr := pkt_nr net + 1\<rparr>"
  obtain nr where nr: "get_byte (buff net) (where_b net + 3) = Some nr"
    using assms by (cases "get_byte (buff net) (where_b net + 3)") (simp_all add: real_read_header_def)
  show ?thesis
  proof (cases "nr = ucast (pkt_nr net)")
    case False
    then show ?thesis using assms nr by (simp add: real_read_header_def)
  next
    case True
    obtain c where c: "(if net_compress net then get_int3 (buff net) (where_b net + NET_HEADER_SIZE) else Some 0) = Some c"
      using assms nr True by (cases "net_compress net") (auto simp: real_read_header_def Let_def bind_eq_Some_conv)
    obtain l where l: "get_int3 (buff net) (where_b net) = Some l"
      using assms nr True c by (cases "get_int3 (buff net) (where_b net)") (simp_all add: real_read_header_def Let_def)
    obtain e net2 where e: "net_realloc env ?net (max l c + where_b net) = (e, net2)" by fastforce
    have "net' = ?net \<or> net' = net2"
      using assms nr True c l e by (auto simp: real_read_header_def Let_def split: if_splits)
    then show ?thesis using net_realloc_vio [OF e] by auto
  qed
qed

text \<open>
  A handle reads safely when it is disconnected, or when its connection and its buffer are in order and the
  packets are not compressed.
\<close>

definition client_ok :: "('v \<Rightarrow> bool) \<Rightarrow> 'v mysql \<Rightarrow> bool" where
  "client_ok ok mysql \<longleftrightarrow>
     \<not> net_compress (mysql_net mysql) \<and> (net_vio (mysql_net mysql) = None \<or> read_wf ok (mysql_net mysql))"

lemma client_ok_update [simp]:
  "client_ok ok (mysql\<lparr>warning_count := w\<rparr>) = client_ok ok mysql" "client_ok ok (mysql\<lparr>server_status := s\<rparr>) = client_ok ok mysql"
  "client_ok ok (mysql\<lparr>mysql_status := st\<rparr>) = client_ok ok mysql" "client_ok ok (mysql\<lparr>unbuffered_fetch_owner := u\<rparr>) = client_ok ok mysql"
  "client_ok ok (mysql\<lparr>fetch_cancelled := fc\<rparr>) = client_ok ok mysql"
  by (simp_all add: client_ok_def)

lemma strmake_defined: "k + n \<le> length s \<Longrightarrow> \<exists>t. strmake (drop k s) n = Some t"
  by (auto simp: strmake_def Let_def)

lemma uint2korr_defined: "k + 2 \<le> length s \<Longrightarrow> \<exists>w. uint2korr (drop k s) = Some w"
  by (auto simp: uint2korr_value)

lemma first_byte_defined: "n + 7 \<le> length s \<Longrightarrow> \<exists>c. get_byte (Some s) 0 = Some c"
  by (cases s) (auto simp: get_byte_def)

text \<open>The header bytes behind the buffer are what makes the reads behind a short error packet safe.\<close>

lemma read_error_packet_defined:
  assumes "len + 7 \<le> length packet"
  shows "\<exists>e msg st. read_error_packet mysql packet len =
     Some (mysql\<lparr>mysql_net := (mysql_net mysql)\<lparr>last_errno := e\<rparr>, last_error := msg, sqlstate := st\<rparr>)"
proof (cases "len > 3")
  case True
  obtain code where code: "uint2korr (drop 1 packet) = Some code" using uint2korr_defined [of 1 packet] True assms by auto
  obtain c where c: "get_byte (Some packet) 3 = Some c" using True assms by (simp add: get_byte_def)
  have msg: "\<exists>t. strmake (drop pos packet) (min (len - 2) (MYSQL_ERRMSG_SIZE - 1)) = Some t" if "pos \<le> 9" for pos
    using strmake_defined [of pos "min (len - 2) (MYSQL_ERRMSG_SIZE - 1)" packet] assms that True by simp
  obtain s where s: "strmake (drop 4 packet) SQLSTATE_LENGTH = Some s"
    using strmake_defined [of 4 SQLSTATE_LENGTH packet] assms True by (auto simp: SQLSTATE_LENGTH_def)
  show ?thesis
  proof (cases "protocol_41 mysql \<and> c = 35")
    case cond: True
    obtain t where "strmake (drop 9 packet) (min (len - 2) (MYSQL_ERRMSG_SIZE - 1)) = Some t" using msg [of 9] by auto
    then show ?thesis
      using True code c s cond
      by (intro exI [of _ "unat code"] exI [of _ t] exI [of _ s]) (simp add: read_error_packet_def SQLSTATE_LENGTH_def)
  next
    case cond: False
    obtain t where "strmake (drop 3 packet) (min (len - 2) (MYSQL_ERRMSG_SIZE - 1)) = Some t" using msg [of 3] by auto
    then show ?thesis
      using True code c cond
      by (intro exI [of _ "unat code"] exI [of _ t] exI [of _ unknown_sqlstate], cases "protocol_41 mysql")
         (simp_all add: read_error_packet_def)
  qed
next
  case False
  then show ?thesis
    by (intro exI [of _ CR_UNKNOWN_ERROR] exI [of _ "ER CR_UNKNOWN_ERROR"] exI [of _ unknown_sqlstate])
       (simp add: read_error_packet_def set_mysql_error_def)
qed

context vio_finite
begin

lemma set_blocking_pending:
  "set_blocking ops limit retry v = (ok, v') \<Longrightarrow> inv v \<Longrightarrow> pending v' \<le> pending v \<and> inv v'"
proof (induction "limit - retry" arbitrary: retry v rule: less_induct)
  case less
  obtain r v1 where b: "op_blocking ops v True = (r, v1)" by fastforce
  note b1 = blocking_pending [OF less.prems(2) b] blocking_inv [OF less.prems(2) b]
  show ?case
  proof (cases "r < 0 \<and> op_should_retry ops v1 \<and> retry < limit")
    case True
    then have "set_blocking ops limit (retry + 1) v1 = (ok, v')"
      using less.prems(1) b by (subst (asm) set_blocking.simps) simp
    then have "pending v' \<le> pending v1 \<and> inv v'" using True b1(2) less.hyps [of "retry + 1" v1] by auto
    then show ?thesis using b1(1) by simp
  next
    case False
    then have "v' = v1" using less.prems(1) b by (subst (asm) set_blocking.simps) (auto split: if_splits)
    then show ?thesis using b1 by simp
  qed
qed

definition used_up :: "'v \<Rightarrow> 'v \<Rightarrow> nat \<Rightarrow> bool" where
  "used_up v v' n \<longleftrightarrow> inv v' \<and> pending v' + n \<le> pending v"

lemma read_loop_used_up:
  assumes "read_loop ops limit alarmed retry v b off remain = Some r" "inv v"
  shows "used_up v (fst (snd r)) (if fst r = None then remain else 0)"
proof -
  let ?P = "\<lambda>ops0 limit alarmed retry v b off remain r. ops0 = ops \<longrightarrow> inv v \<longrightarrow> used_up v (fst (snd r)) (if fst r = None then remain else 0)"
  have "?P ops limit alarmed retry v b off remain r"
  proof (rule read_loop.raw_induct [where P = ?P, OF _ assms(1)], intro impI, goal_cases)
  case (1 f ops0 limit alarmed retry v b off remain r)
  note 2 = 1(2) and 3 = 1(3) and 4 = 1(4) and IH = 1(1) [rule_format, OF _ 1(3)]
  show "used_up v (fst (snd r)) (if fst r = None then remain else 0)"
  proof (cases "remain = 0")
    case True
    then show ?thesis using 2 4 by (auto simp: used_up_def)
  next
    case False
    obtain rd v1 where rd: "op_read ops v remain = Some (rd, v1)" "inv v1" using read_defined [OF 4] by blast
    show ?thesis
    proof (cases "rd \<noteq> None \<and> rd \<noteq> Some []")
      case True
      then obtain bs where bs: "rd = Some bs" "bs \<noteq> []" by auto
      note p = read_pending [OF 4 rd(1) [unfolded bs(1)]] 
      obtain b1 where b1: "length bs \<le> remain" "f ops0 limit alarmed retry v1 (Some b1) (off + length bs) (remain - length bs) = Some r"
        using 2 3 False rd bs by (auto split: if_splits option.splits)
      from IH [OF b1(2) rd(2)] p b1(1) show ?thesis by (auto simp: used_up_def split: if_splits)
    next
      case fail: False
      have p1: "pending v1 \<le> pending v" using fail fail_pending [OF 4] read_pending [OF 4] rd(1) by (cases rd) fastforce+
      obtain okb v2 where sb: "set_blocking ops limit retry v1 = (okb, v2)" by fastforce
      note p2 = set_blocking_pending [OF sb rd(2)]
      have step: "used_up v (fst (snd r)) (if fst r = None then remain else 0)"
        if "f ops0 limit al rt w b off remain = Some r" "inv w" "pending w \<le> pending v1" for al rt w
        using IH [OF that(1,2)] that(3) p1 by (auto simp: used_up_def split: if_splits)
      show ?thesis
        using 2 3 False fail rd sb p1 p2 step [of _ _ v2] step [of _ _ v1]
        by (auto simp: used_up_def Let_def split: if_splits)
    qed
  qed
  qed
  then show ?thesis using assms(2) by simp
qed

text \<open>A physical packet has a header of four bytes at least; a logical one at least one physical packet.\<close>

lemma my_real_read_used_up:
  assumes env: "env_ops env = ops" "block_realloc_ok (env_realloc env)" and wf: "read_wf inv net"
    and r: "my_real_read env net = Some (len, complen, net')"
  shows "\<exists>v v'. net_vio net = Some v \<and> net_vio net' = Some v' \<and> used_up v v' (if len = None then 0 else NET_HEADER_SIZE)"
proof -
  obtain v where v: "net_vio net = Some v" "inv v" using wf by (auto simp: read_wf_def)
  let ?h = "if net_compress net then NET_HEADER_SIZE + COMP_HEADER_SIZE else NET_HEADER_SIZE"
  have fin: "\<exists>w'. net_vio (real_read_end env nb al n) = Some w' \<and> used_up v w' k'" if "net_vio n = Some w" "used_up v w k" "k' \<le> k" for nb al n w k k'
    using that blocking_inv [of w nb] blocking_pending [of w nb] env(1)
    by (cases "op_blocking ops w nb") (auto simp: real_read_end_def used_up_def)
  obtain err v1 b1 al rt where l1: "read_loop ops (retry_count net) False 0 v (buff net) (where_b net) ?h = Some (err, v1, b1, al, rt)"
    using r v(1) env(1) by (auto simp: my_real_read_def Let_def bind_eq_Some_conv)
  let ?net1 = "net\<lparr>net_vio := Some v1, buff := b1\<rparr>" and ?nb = "op_is_blocking ops v"
  have u1: "used_up v v1 (if err = None then ?h else 0)" using read_loop_used_up [OF l1 v(2)] by simp
  show ?thesis
  proof (cases err)
    case (Some e)
    then have "len = None" "net' = real_read_end env ?nb al (?net1\<lparr>net_error := 2, last_errno := e\<rparr>)"
      using r v(1) env(1) l1 by (simp_all add: my_real_read_def)
    then show ?thesis using fin [of _ v1 0] u1 Some v(1) by simp
  next
    case None
    then have u1: "used_up v v1 NET_HEADER_SIZE" using u1 by (auto simp: used_up_def split: if_splits)
    obtain len1 c net2 where h: "real_read_header env ?net1 = Some (len1, c, net2)"
      using r v(1) env(1) l1 None by (auto simp: my_real_read_def Let_def bind_eq_Some_conv)
    have v2: "net_vio net2 = Some v1" using real_read_header_vio [OF h] by simp
    show ?thesis
    proof (cases "len1 = None \<or> len1 = Some 0")
      case True
      then have "net' = real_read_end env ?nb al net2"
        using r v(1) env(1) l1 None h by (auto simp: my_real_read_def)
      then show ?thesis using fin [OF v2 u1] v(1) by simp
    next
      case False
      then obtain n where n: "len1 = Some n" "n \<noteq> 0" by auto
      obtain err2 v3 b3 al3 rt3 where l2: "read_loop ops (retry_count net2) al rt v1 (buff net2) (where_b net2) n = Some (err2, v3, b3, al3, rt3)"
        using r v(1) env(1) l1 None h n by (auto simp: my_real_read_def Let_def bind_eq_Some_conv)
      have u3: "used_up v v3 NET_HEADER_SIZE" using read_loop_used_up [OF l2] u1 by (auto simp: used_up_def)
      let ?net3 = "net2\<lparr>net_vio := Some v3, buff := b3\<rparr>"
      have "net' = real_read_end env ?nb al3 (case err2 of None \<Rightarrow> ?net3 | Some e \<Rightarrow> ?net3\<lparr>net_error := 2, last_errno := e\<rparr>)"
        using r v(1) env(1) l1 None h n l2 by (auto simp: my_real_read_def split: option.splits)
      then show ?thesis using fin [OF _ u3] v(1) by (cases err2) simp_all
    qed
  qed
qed

lemma used_up_trans: "used_up u v m \<Longrightarrow> used_up v w n \<Longrightarrow> k \<le> m + n \<Longrightarrow> used_up u w k"
  by (auto simp: used_up_def)

lemma read_multi_used_up:
  assumes "read_multi env net tot = Some r" "env_ops env = ops" "block_realloc_ok (env_realloc env)" "read_wf inv net"
    and "where_b net + MAX_PACKET_LENGTH \<le> max_packet net"
  shows "\<exists>v v'. net_vio net = Some v \<and> net_vio (snd (snd r)) = Some v' \<and> used_up v v' 0"
proof -
  let ?P = "\<lambda>env net tot r. env_ops env = ops \<longrightarrow> block_realloc_ok (env_realloc env) \<longrightarrow> read_wf inv net \<longrightarrow>
    where_b net + MAX_PACKET_LENGTH \<le> max_packet net \<longrightarrow>
    (\<exists>v v'. net_vio net = Some v \<and> net_vio (snd (snd r)) = Some v' \<and> used_up v v' 0)"
  have "?P env net tot r"
  proof (rule read_multi.raw_induct [where P = ?P, OF _ assms(1)], intro impI, goal_cases)
    case (1 f env net tot r)
    let ?net = "net\<lparr>where_b := where_b net + MAX_PACKET_LENGTH\<rparr>"
    have wf: "read_wf inv ?net" using 1(5,6) by (auto simp: read_wf_def read_buffer_ok_def)
    obtain len c net1 where r1: "my_real_read env ?net = Some (len, c, net1)" "read_wf inv net1" "read_step ?net len net1"
      using my_real_read_total [OF 1(3,4) wf] by blast
    obtain v v' where v: "net_vio net = Some v" "net_vio net1 = Some v'" "used_up v v' 0"
      using my_real_read_used_up [OF 1(3,4) wf r1(1)] by (auto simp: used_up_def split: if_splits)
    show ?case
    proof (cases "len = Some MAX_PACKET_LENGTH")
      case True
      then have "f env net1 (tot + MAX_PACKET_LENGTH) = Some r" using 1(2) r1(1) by simp
      moreover have "where_b net1 + MAX_PACKET_LENGTH \<le> max_packet net1" using r1(3) True by (simp add: read_step_def)
      ultimately show ?thesis using 1(1) [rule_format, OF _ 1(3,4) r1(2)] v used_up_trans [of v v' 0 _ 0 0] by fastforce
    next
      case False
      then have "r = (len, tot + MAX_PACKET_LENGTH, net1)" using 1(2) r1(1) by simp
      then show ?thesis using v by simp
    qed
  qed
  then show ?thesis using assms by simp
qed

lemma my_net_read_plain_used_up:
  assumes env: "env_ops env = ops" "block_realloc_ok (env_realloc env)" and wf: "read_wf inv net"
    and r: "my_net_read_plain env net = Some (len, net')"
  shows "net_compress net' = net_compress net \<and>
    (\<exists>v v'. net_vio net = Some v \<and> net_vio net' = Some v' \<and> used_up v v' (if len = None then 0 else NET_HEADER_SIZE))"
proof -
  obtain len1 c net1 where r1: "my_real_read env net = Some (len1, c, net1)" "read_wf inv net1" "read_step net len1 net1"
    using my_real_read_total [OF env wf] by blast
  obtain v v1 where v: "net_vio net = Some v" "net_vio net1 = Some v1" "used_up v v1 (if len1 = None then 0 else NET_HEADER_SIZE)"
    using my_real_read_used_up [OF env wf r1(1)] by blast
  have same: "net_compress net1 = net_compress net" using r1(3) by (simp add: read_step_def read_same_def)
  show ?thesis
  proof (cases "len1 = Some MAX_PACKET_LENGTH")
    case False
    then have "net_vio net' = net_vio net1 \<and> net_compress net' = net_compress net1 \<and> (len = None \<longleftrightarrow> len1 = None)"
      using r r1(1) by (auto simp: my_net_read_plain_def Let_def bind_eq_Some_conv split: option.splits)
    then show ?thesis using v same by (cases "len1 = None") auto
  next
    case True
    let ?K = "max (max_packet net1) (max_packet_size net1 + IO_SIZE)"
    have w: "where_b net1 + MAX_PACKET_LENGTH \<le> max_packet net1" using r1(3) True by (simp add: read_step_def)
    obtain l t net2 where m: "read_multi env net1 0 = Some (l, t, net2)" "read_same net1 net2"
      using read_multi_total [OF env r1(2) w, of ?K 0] by auto
    obtain v2 where v2: "net_vio net2 = Some v2" "used_up v1 v2 0" using read_multi_used_up [OF m(1) env r1(2) w] v(2) by auto
    have "net_vio net' = net_vio net2 \<and> net_compress net' = net_compress net2"
      using r r1(1) True m(1) by (auto simp: my_net_read_plain_def Let_def bind_eq_Some_conv split: option.splits)
    then show ?thesis using v v2 m(2) same True used_up_trans [OF v(3) v2(2)] by (auto simp: read_same_def)
  qed
qed

text \<open>Incoming data that has not been read; nothing without a connection.\<close>

definition unread :: "'v mysql \<Rightarrow> nat" where
  "unread mysql = (case net_vio (mysql_net mysql) of None \<Rightarrow> 0 | Some v \<Rightarrow> pending v)"

definition safely_read :: "'v mysql \<Rightarrow> nat option \<Rightarrow> 'v mysql \<Rightarrow> bool" where
  "safely_read mysql len mysql' \<longleftrightarrow> client_ok inv mysql' \<and> unread mysql' \<le> unread mysql \<and>
     unbuffered_fetch_owner mysql' = unbuffered_fetch_owner mysql \<and>
     (case len of None \<Rightarrow> True
      | Some n \<Rightarrow> 0 < n \<and> unread mysql' + NET_HEADER_SIZE \<le> unread mysql \<and>
          (\<exists>packet. read_bytes mysql' = Some packet \<and> n + 7 \<le> length packet))"

lemma safely_read_disconnected:
  "\<not> net_compress net \<Longrightarrow> safely_read mysql None (set_mysql_error (end_server (mysql\<lparr>mysql_net := net\<rparr>)) e st)"
  by (simp add: safely_read_def client_ok_def unread_def set_mysql_error_def end_server_def free_old_query_def net_end_def)

lemma cli_safe_read_total:
  assumes env: "env_ops (client_net env) = ops" "block_realloc_ok (env_realloc (client_net env))" and ok: "client_ok inv mysql"
  shows "\<exists>len mysql'. cli_safe_read env mysql = Some (len, mysql') \<and> safely_read mysql len mysql'"
proof (cases "net_vio (mysql_net mysql)")
  case None
  then show ?thesis
    using ok safely_read_disconnected [of "mysql_net mysql" mysql] by (simp add: cli_safe_read_def client_ok_def Let_def)
next
  case (Some v)
  then have wf: "read_wf inv (mysql_net mysql)" and c: "\<not> net_compress (mysql_net mysql)" using ok by (auto simp: client_ok_def)
  obtain len net where r: "my_net_read_plain (client_net env) (mysql_net mysql) = Some (len, net)"
    and n: "case len of None \<Rightarrow> True | Some n \<Rightarrow> read_buffer_ok net \<and> net_read_pos net + n \<le> max_packet net"
    using my_net_read_plain_total [OF env wf] by (fastforce split: option.splits)
  obtain v' where v': "net_vio net = Some v'" "used_up v v' (if len = None then 0 else NET_HEADER_SIZE)" "\<not> net_compress net"
    using my_net_read_plain_used_up [OF env wf r] Some c by auto
  have rd: "my_net_read (client_net env) (mysql_net mysql) = Some (len, net)" using r c by (simp add: my_net_read_def)
  show ?thesis
  proof (cases "len = None \<or> len = Some 0")
    case True
    then show ?thesis using rd Some safely_read_disconnected [OF v'(3), of mysql] by (auto simp: cli_safe_read_def Let_def)
  next
    case False
    then obtain k where k: "len = Some k" "0 < k" by auto
    obtain b where b: "buff net = Some b" "length b = max_packet net + NET_HEADER_SIZE + COMP_HEADER_SIZE" "where_b net \<le> max_packet net"
      using n k by (auto simp: read_buffer_ok_def)
    let ?p = "drop (net_read_pos net) b" and ?m = "mysql\<lparr>mysql_net := net\<rparr>"
    have p: "k + 7 \<le> length ?p" using b(2) n k by (auto simp: NET_HEADER_SIZE_def COMP_HEADER_SIZE_def)
    have wf': "client_ok inv ?m" using n k v' by (auto simp: client_ok_def read_wf_def used_up_def)
    have u: "unread ?m + NET_HEADER_SIZE \<le> unread mysql" using v' k Some by (simp add: unread_def used_up_def)
    obtain c where c: "get_byte (Some ?p) 0 = Some c" using first_byte_defined [OF p] by blast
    have rb: "read_bytes ?m = Some ?p" using b(1) by (simp add: read_bytes_def)
    show ?thesis
    proof (cases "c = 255")
      case True
      obtain e msg st where e: "read_error_packet ?m ?p k = Some (?m\<lparr>mysql_net := net\<lparr>last_errno := e\<rparr>, last_error := msg, sqlstate := st\<rparr>)"
        using read_error_packet_defined [OF p, of ?m] by auto
      have "safely_read mysql None (?m\<lparr>mysql_net := net\<lparr>last_errno := e\<rparr>, last_error := msg, sqlstate := st, server_status := s\<rparr>)" for s
        using wf' u by (auto simp: safely_read_def client_ok_def read_wf_def read_buffer_ok_def unread_def)
      then show ?thesis using rd Some k rb c True e by (simp add: cli_safe_read_def)
    next
      case False
      have "safely_read mysql (Some k) ?m" using wf' u k p rb by (auto simp: safely_read_def)
      then show ?thesis using rd Some k rb c False by (simp add: cli_safe_read_def)
    qed
  qed
qed

lemma flush_loop_total:
  assumes env: "env_ops (client_net env) = ops" "block_realloc_ok (env_realloc (client_net env))"
  shows "client_ok inv mysql \<Longrightarrow> \<exists>failed mysql'. flush_loop env mysql = Some (failed, mysql') \<and>
     safely_read mysql None mysql' \<and> (failed \<or> (\<exists>n. safely_read mysql (Some n) mysql'))"
proof (induction "unread mysql" arbitrary: mysql rule: less_induct)
  case less
  obtain len m1 where r: "cli_safe_read env mysql = Some (len, m1)" "safely_read mysql len m1"
    using cli_safe_read_total [OF env less.prems] by blast
  show ?case
  proof (cases len)
    case None
    then have "flush_loop env mysql = Some (True, m1)" using r(1) by (subst flush_loop.simps) simp
    then show ?thesis using r(2) None by (intro exI [of _ True] exI [of _ m1]) simp
  next
    case (Some n)
    obtain packet where p: "read_bytes m1 = Some packet" "n + 7 \<le> length packet" using r(2) Some by (auto simp: safely_read_def)
    obtain c where c: "get_byte (Some packet) 0 = Some c" using first_byte_defined [OF p(2)] by blast
    have s: "client_ok inv m1" "unread m1 + NET_HEADER_SIZE \<le> unread mysql" "unbuffered_fetch_owner m1 = unbuffered_fetch_owner mysql"
      using r(2) Some by (auto simp: safely_read_def)
    show ?thesis
    proof (cases "n > 8 \<or> c \<noteq> 254")
      case True
      have "unread m1 < unread mysql" using s(2) by (simp add: NET_HEADER_SIZE_def)
      from less.hyps [OF this s(1)] obtain failed m2 where f: "flush_loop env m1 = Some (failed, m2)"
        "safely_read m1 None m2" "failed \<or> (\<exists>n. safely_read m1 (Some n) m2)" by blast
      have "safely_read mysql None m2" "failed \<or> (\<exists>n. safely_read mysql (Some n) m2)" using f(2,3) s by (auto simp: safely_read_def)
      moreover have "flush_loop env mysql = Some (failed, m2)" using r(1) Some p c True f(1) by (subst flush_loop.simps) simp
      ultimately show ?thesis by blast
    next
      case False
      then have "flush_loop env mysql = Some (False, m1)" using r(1) Some p c by (subst flush_loop.simps) simp
      moreover have "safely_read mysql None m1" using r(2) Some by (auto simp: safely_read_def)
      ultimately show ?thesis using r(2) Some by (intro exI [of _ False] exI [of _ m1]) auto
    qed
  qed
qed

lemma flush_one_result_total:
  assumes env: "env_ops (client_net env) = ops" "block_realloc_ok (env_realloc (client_net env))" and ok: "client_ok inv mysql"
  shows "\<exists>failed mysql'. flush_one_result env mysql = Some (failed, mysql') \<and> safely_read mysql None mysql' \<and>
     (\<not> failed \<longrightarrow> unread mysql' + NET_HEADER_SIZE \<le> unread mysql)"
proof -
  obtain failed m1 where f: "flush_loop env mysql = Some (failed, m1)" "safely_read mysql None m1"
    "failed \<or> (\<exists>n. safely_read mysql (Some n) m1)"
    using flush_loop_total [OF env ok] by blast
  show ?thesis
  proof (cases "failed \<or> \<not> protocol_41 m1")
    case True
    then have "flush_one_result env mysql = Some (failed, m1)" using f(1) by (cases failed) (simp_all add: flush_one_result_def)
    then show ?thesis using f(2,3) by (auto simp: safely_read_def)
  next
    case False
    then obtain n packet where p: "read_bytes m1 = Some packet" "n + 7 \<le> length packet" "unread m1 + NET_HEADER_SIZE \<le> unread mysql"
      using f(3) by (auto simp: safely_read_def)
    obtain w where w: "uint2korr (drop 1 packet) = Some w" using uint2korr_defined [of 1 packet] p(2) by auto
    obtain s where s: "uint2korr (drop 3 packet) = Some s" using uint2korr_defined [of 3 packet] p(2) by auto
    have "flush_one_result env mysql = Some (False, m1\<lparr>warning_count := ucast w, server_status := ucast s\<rparr>)"
      using False f(1) p(1) w s by (simp add: flush_one_result_def)
    then show ?thesis using f(2) p(3) by (auto simp: safely_read_def unread_def)
  qed
qed

end

subsection \<open>Properties\<close>

text \<open>
  C5: Freeing a result always returns, whatever the server sends and however the connection behaves - endless
  rows up to the end of the stream, packets cut short or out of order, error packets, lost connections, a failing
  allocator: no byte outside the buffer is touched, and a handle that was in the middle of the result is ready
  again. Every packet that is skipped uses up at least the four bytes of its header, so the loop ends.
\<close>

theorem mysql_free_result_returns:
  assumes "client_ok vio_wf mysql" "env_ops (client_net env) = socket_ops sock_kernel" "block_realloc_ok (env_realloc (client_net env))"
  shows "\<exists>mysql'. mysql_free_result env mysql res = Some mysql' \<and> client_ok vio_wf mysql' \<and>
     (res_handle res \<and> mysql_status mysql = MYSQL_STATUS_USE_RESULT \<longrightarrow> mysql_status mysql' = MYSQL_STATUS_READY)"
proof -
  define m0 where "m0 = (if unbuffered_fetch_owner mysql = Some (res_address res) then mysql\<lparr>unbuffered_fetch_owner := None\<rparr> else mysql)"
  have m0: "client_ok vio_wf m0" "mysql_status m0 = mysql_status mysql" using assms(1) by (simp_all add: m0_def)
  obtain failed m1 where f: "flush_one_result env m0 = Some (failed, m1)" "client_ok vio_wf m1"
    using sockf.flush_one_result_total [OF assms(2,3) m0(1)] by (auto simp: sockf.safely_read_def)
  have "mysql_free_result env mysql res =
      (if res_handle res then
         if mysql_status m0 = MYSQL_STATUS_USE_RESULT then
           Some (case unbuffered_fetch_owner m1 of None \<Rightarrow> m1\<lparr>mysql_status := MYSQL_STATUS_READY\<rparr>
             | Some owner \<Rightarrow> m1\<lparr>mysql_status := MYSQL_STATUS_READY, fetch_cancelled := owner # fetch_cancelled m1\<rparr>)
         else Some m0
       else Some mysql)"
    using f(1) by (simp add: mysql_free_result_def m0_def [symmetric] cli_flush_use_result_def split: option.split)
  then show ?thesis using assms(1) m0 f(2) by (auto split: option.split)
qed

theorem mysql_free_result_returns_witness:
  "\<exists>mysql'. mysql_free_result sample_client_env (sample_mysql MYSQL_STATUS_USE_RESULT None
       (sample_sock [3, 0, 0, 0, 1, 65, 66, 255, 255] [Fail SOCKET_EINTR, Chunk 2, Fail E_OTHER]))
       \<lparr>res_row_count = 0, res_fields = None, res_data = None, res_cursor = [], res_lengths = [0, 0], res_handle = True,
        res_row = [None, None, None], res_current_row = No_row, res_field_count = 2, res_current_field = 0, res_eof = False, res_address = 1\<rparr> =
     Some mysql' \<and> mysql_status mysql' = MYSQL_STATUS_READY"
proof -
  let ?s = "sample_sock [3, 0, 0, 0, 1, 65, 66, 255, 255] [Fail SOCKET_EINTR, Chunk 2, Fail E_OTHER]"
  let ?m = "sample_mysql MYSQL_STATUS_USE_RESULT None ?s"
  have "client_ok vio_wf ?m" using sample_read_wf by (simp add: client_ok_def) (simp add: sample_net_def)
  then show ?thesis
    using mysql_free_result_returns [of ?m sample_client_env] sample_env_ops sample_realloc_ok
    by (fastforce simp: sample_client_env_def)
qed

end
