(* ===== verification/Spec2Isabelle.thy ===== *)
theory Spec2Isabelle
  imports Pack Queues Ptr_Cmp Base64 Compress Vio Net_Read Password My_Time Num_Str Client_Reply Client_Safe
begin

text \<open>
  Verification of the client library MySQL Connector/C 6.0.2, the directory
  \<^verbatim>\<open>src/mysql-connector-c-6.0.2\<close> of the repository; the paths below are relative to it.

  \<^bold>\<open>The program.\<close> An application holds a \<open>MYSQL\<close> handle. The client layer (\<^verbatim>\<open>libmysql/client.c\<close>,
  \<^verbatim>\<open>libmysql/libmysql.c\<close>) turns its calls into command packets and the server's packets into fields and rows.
  It uses the packet layer (\<^verbatim>\<open>libmysql/net_serv.c\<close>), which frames, splits, joins and optionally compresses
  packets in one growing buffer, and that uses the connection layer (\<^verbatim>\<open>vio/\<close>), which reads and writes a
  socket with retries and a read buffer. Lengths inside packets are coded by \<^verbatim>\<open>libmysql/pack.c\<close> over the
  byte formats of \<^verbatim>\<open>include/my_global.h\<close>. Logging in uses \<^verbatim>\<open>libmysql/password.c\<close> over
  \<^verbatim>\<open>mysys/sha1.c\<close>. Dates are converted by \<^verbatim>\<open>libmysql/my_time.c\<close>. The priority queue, the key comparison,
  the base64 codec and the compression wrapper are parts of the library \<^verbatim>\<open>mysys\<close> linked into the client.

  \<^bold>\<open>Conventions.\<close> The configuration is that of \<^verbatim>\<open>include/my_config.h\<close>: 32-bit \<open>int\<close>, \<open>long\<close>, \<open>size_t\<close> and pointers,
  compression, no debugging, no SSL. A struct is a record and an enum a datatype; a pointer into a buffer
  is an offset or the list of bytes from it on. An operation returns an option: \<^const>\<open>None\<close> means that the code
  would access memory outside a block or never return, so a result \<^const>\<open>Some\<close> in a theorem includes memory
  safety and termination. Failures the code reports are part of the value. Words are used
  where the code relies on their width, and sizes that can exceed 32 bits are reduced explicitly (\<open>uint_wrap\<close>, \<open>long_wrap\<close> and
  \<open>mod 2 ^ 32\<close>; signed overflow is taken to wrap around). Allocators, the kernel, zlib, \<open>memcmp\<close>, \<open>localtime_r\<close> and the callbacks of
  the application are arguments, with what is relied on as hypotheses.

  \<^bold>\<open>The theories.\<close>
  \<^item> \<open>Prelude\<close>: machine types, the reference encoding of numbers as bytes, list and word lemmas.
  \<^item> \<open>Bytes\<close>: \<open>int2store\<close> to \<open>int8store\<close> and the readers \<open>uint2korr\<close> to \<open>uint8korr\<close>; the locale
    \<open>fixed_codec\<close> has one interpretation per width.
  \<^item> \<open>Pack\<close>: \<open>net_store_length\<close>, \<open>net_field_length\<close>, \<open>net_field_length_ll\<close>; every stored length is read
    back, and sequences of them as well (locale \<open>length_code\<close>).
  \<^item> \<open>Queues\<close>: \<^verbatim>\<open>mysys/queues.c\<close>. Insertion, removal of the top and \<open>queue_fix\<close> keep the heap order and the
    multiset of elements (locale \<open>cmp_order\<close> for the comparison, \<open>priority_queue\<close> for the contract of the
    whole). \<open>queue_insert_safe\<close> returns the documented codes, for capacities below 2^30. \<open>queue_remove\<close> at another index
    breaks the order.
  \<^item> \<open>Ptr_Cmp\<close>: \<^verbatim>\<open>mysys/ptr_cmp.c\<close>; the unrolled comparisons agree with the order of the numbers the keys
    spell, and interpret \<open>cmp_order\<close>.
  \<^item> \<open>Ctype\<close>, \<open>Base64\<close>: the classes of latin1 and \<^verbatim>\<open>mysys/base64.c\<close>; round trip, and the lengths for which the
    two size functions are right.
  \<^item> \<open>Compress\<close>: \<^verbatim>\<open>mysys/my_compress.c\<close>; round trips, and the error path that reports success.
  \<^item> \<open>Vio\<close>: \<^verbatim>\<open>vio/viosocket.c\<close>. The locales \<open>vio_bounds\<close>, \<open>vio_progress\<close>, \<open>vio_finite\<close> and \<open>stream_vio\<close> are what
    the packet layer relies on: counts stay in bounds, retries end, incoming data is finite, and bytes arrive in
    order. All are interpreted on the socket operations.
  \<^item> \<open>Net_Serv\<close>: the operations of \<^verbatim>\<open>net_serv.c\<close>. \<open>Net_Write\<close>: what is written is the framing of the
    packet (\<open>frames\<close>), whatever the buffer held. \<open>Net_Read\<close>: what is read is the packet that was framed; on arbitrary
    input a read ends inside the buffer, and a packet out of order is refused.
  \<^item> \<open>Sha1\<close>: \<^verbatim>\<open>mysys/sha1.c\<close> computes the function of FIPS 180-1 on any division of the message.
    \<open>Password\<close>: the reply to a challenge is accepted for the stored hash; exactly which other replies are accepted depends
    on the multiples of 256 among \<open>memcmp\<close>'s results, which are narrowed to a \<open>char\<close>.
  \<^item> \<open>My_Time\<close>: \<^verbatim>\<open>my_time.c\<close>; round trips between dates, text and numbers, ranges of what is accepted, day numbers.
  \<^item> \<open>Num_Str\<close>: integers as text, \<^verbatim>\<open>strings/int2str.c\<close>, \<^verbatim>\<open>strings/longlong2str.c\<close> and \<^verbatim>\<open>strings/my_strtoll10.c\<close>; the
    writers agree with the digits of the number, the reader returns the number, every 64-bit value makes the round trip,
    and one range of numbers that are too large is accepted.
  \<^item> \<open>Client\<close>: the handle and the operations of the client layer. \<open>Client_Result\<close>: rows stored or fetched one by
    one are the rows the server encoded. \<open>Client_Reply\<close>: column definitions, whole replies to a query, error
    packets, results freed early. \<open>Client_Safe\<close>: freeing a result returns whatever the server sends.

  \<^bold>\<open>Bounds and fuel.\<close> Loops over data recurse on it, or have a measure. The loops that wait for the
  server (\<open>read_rows_loop\<close>, \<open>flush_loop\<close>, the retry loops of the packet layer) are partial functions whose value is
  \<^const>\<open>None\<close> when they do not end; that they end is proved from \<open>vio_progress\<close> (a kernel can ask for only finitely many retries)
  and \<open>vio_finite\<close> (each packet uses up incoming bytes). There is no fuel argument.

  \<^bold>\<open>Not modelled.\<close> Prepared statements and their binary protocol; connecting, options and the loading of character
  sets; SSL; collations and the conversion of text; decimal and floating-point numbers; the containers, files, threads and
  ports of \<^verbatim>\<open>mysys\<close> that the operations above do not call; the bundled third-party libraries. The theorems
  on the packet layer are about the uncompressed protocol; compressed packets are modelled, and
  their codec is proved in \<open>Compress\<close>. The other directories of the repository (Connector/C++, QxOrm, rdb-sql, QextSerialPort,
  the coroutine library) are separate C++ libraries over Qt, Boost or assembly code.
\<close>

end
